(* ===== verification/GoBase.thy ===== *)
theory GoBase
  imports Main "HOL-Library.Word" "HOL-Library.Monad_Syntax"
begin

unbundle bit_operations_syntax

text \<open>
  The prelude of the development: what the Go language and its standard library give the
  modelled packages.  Machine integers are words of the width the source names; byte slices are
  lists of bytes; an index or slice expression that Go would stop with a run-time panic is the
  value \<open>None\<close> of an option; an \<open>error\<close> value is a \<open>go_error\<close> and a nil error is \<open>None\<close>.
  The collection \<open>codec_eval\<close> gathers the equations that evaluate the codec.
\<close>

named_theorems codec_eval "equations that evaluate the packet codec"

type_synonym byte = "8 word"
type_synonym u16 = "16 word"
type_synonym u32 = "32 word"
type_synonym bytes = "byte list"

lemma u32_lt: "unat (v :: u32) < 2 ^ 32"
  using unsigned_less [of v, where 'a = nat] by simp

section \<open>Errors\<close>

text \<open>
  The values of Go's \<open>error\<close> interface that the code produces or inspects: \<open>io.EOF\<close>; a text made
  by \<open>errors.New\<close> or \<open>fmt.Errorf\<close>; an error of the network layer, with the answer of its
  \<open>Temporary()\<close> method and whether it wraps the system error \<open>ECONNRESET\<close>; the three error
  structs of go-vhost; a TLS alert.
\<close>

datatype go_error =
    EOF
  | Errorf string
  | NetErr (temporary: bool) (connreset: bool) string
  | Closed go_error
  | NotFound go_error
  | BadRequest go_error
  | Alert byte

definition errNetClosed :: go_error where
  "errNetClosed = NetErr False False ''use of closed network connection''"

definition errBrokenPipe :: go_error where
  "errBrokenPipe = NetErr False False ''broken pipe''"

text \<open>A call that returns a value, returns an error, or panics.\<close>

datatype 'a result = Ok 'a | Err go_error | Panic

definition of_option :: "'a option \<Rightarrow> 'a result" where
  "of_option x = (case x of None \<Rightarrow> Panic | Some y \<Rightarrow> Ok y)"

lemma of_option_simps [simp]:
  "of_option None = Panic" "of_option (Some x) = Ok x"
  by (simp_all add: of_option_def)

section \<open>Decimal printing\<close>

text \<open>The verb \<open>%d\<close> of package fmt on a non-negative integer.\<close>

definition digit_char :: "nat \<Rightarrow> char" where
  "digit_char d = char_of (48 + d)"

fun dec_string :: "nat \<Rightarrow> string" where
  "dec_string n = (if n < 10 then [digit_char n] else dec_string (n div 10) @ [digit_char (n mod 10)])"

declare dec_string.simps [simp del]

definition u32_string :: "u32 \<Rightarrow> string" where
  "u32_string v = dec_string (unat v)"

section \<open>Slices\<close>

text \<open>
  \<open>make([]byte, n)\<close>; the index assignment \<open>p[i] = v\<close>; the slice expression \<open>p[lo:hi]\<close>.  The last
  two panic out of range (a slice is taken here to have no spare capacity).
\<close>

definition make_bytes :: "nat \<Rightarrow> bytes" where
  "make_bytes n = replicate n 0"

definition set_at :: "'a list \<Rightarrow> nat \<Rightarrow> 'a \<Rightarrow> 'a list option" where
  "set_at p i v = (if i < length p then Some (p[i := v]) else None)"

definition get_at :: "'a list \<Rightarrow> nat \<Rightarrow> 'a option" where
  "get_at p i = (if i < length p then Some (p ! i) else None)"

definition slice_of :: "'a list \<Rightarrow> nat \<Rightarrow> nat \<Rightarrow> 'a list option" where
  "slice_of p lo hi =
     (if lo \<le> hi \<and> hi \<le> length p then Some (take (hi - lo) (drop lo p)) else None)"

definition slice_from :: "'a list \<Rightarrow> nat \<Rightarrow> 'a list option" where
  "slice_from p lo = slice_of p lo (length p)"

lemma length_make_bytes [simp]: "length (make_bytes n) = n"
  by (simp add: make_bytes_def)

lemma set_at_Some [simp]: "i < length p \<Longrightarrow> set_at p i v = Some (p[i := v])"
  by (simp add: set_at_def)

lemma slice_of_Some [simp]:
  "lo \<le> hi \<Longrightarrow> hi \<le> length p \<Longrightarrow> slice_of p lo hi = Some (take (hi - lo) (drop lo p))"
  by (simp add: slice_of_def)

lemma slice_from_Some [simp]: "lo \<le> length p \<Longrightarrow> slice_from p lo = Some (drop lo p)"
  by (simp add: slice_from_def)

section \<open>Big-endian integers\<close>

text \<open>\<open>binary.BigEndian\<close> of encoding/binary, on 32-bit values: four bytes, most significant first.\<close>

definition be32 :: "u32 \<Rightarrow> bytes" where
  "be32 v = [ucast (drop_bit 24 v), ucast (drop_bit 16 v), ucast (drop_bit 8 v), ucast v]"

fun get_be32 :: "bytes \<Rightarrow> u32 option" where
  "get_be32 (b0 # b1 # b2 # b3 # _) =
     Some (ucast b3 OR push_bit 8 (ucast b2) OR push_bit 16 (ucast b1) OR push_bit 24 (ucast b0))"
| "get_be32 _ = None"

text \<open>\<open>PutUint32(p[lo:lo+4], v)\<close>, in place.\<close>

definition put_be32 :: "bytes \<Rightarrow> nat \<Rightarrow> u32 \<Rightarrow> bytes option" where
  "put_be32 p lo v =
     (if lo + 4 \<le> length p then Some (take lo p @ be32 v @ drop (lo + 4) p) else None)"

text \<open>\<open>Uint32(p[lo:hi])\<close>.\<close>

definition be32_at :: "bytes \<Rightarrow> nat \<Rightarrow> nat \<Rightarrow> u32 option" where
  "be32_at p lo hi = do { s \<leftarrow> slice_of p lo hi; get_be32 s }"

lemma length_be32 [simp]: "length (be32 v) = 4"
  by (simp add: be32_def)

lemma get_be32_be32 [simp]: "get_be32 (be32 v @ rest) = Some v"
proof -
  have "ucast (ucast v :: byte) OR push_bit 8 (ucast (ucast (drop_bit 8 v) :: byte))
      OR push_bit 16 (ucast (ucast (drop_bit 16 v) :: byte))
      OR push_bit 24 (ucast (ucast (drop_bit 24 v) :: byte)) = v"
  proof (rule bit_word_eqI)
    fix n assume "n < LENGTH(32)"
    then consider "n < 8" | "8 \<le> n" "n < 16" | "16 \<le> n" "n < 24" | "24 \<le> n" "n < 32"
      by fastforce
    then show "bit (ucast (ucast v :: byte) OR push_bit 8 (ucast (ucast (drop_bit 8 v) :: byte))
      OR push_bit 16 (ucast (ucast (drop_bit 16 v) :: byte))
      OR push_bit 24 (ucast (ucast (drop_bit 24 v) :: byte)) :: u32) n \<longleftrightarrow> bit v n"
      by cases (auto simp: bit_simps)
  qed
  then show ?thesis by (simp add: be32_def)
qed

lemma get_be32_be32_nil [simp]: "get_be32 (be32 v) = Some v"
  using get_be32_be32 [of v "[]"] by simp

lemma be32_inj [simp]: "be32 v = be32 w \<longleftrightarrow> v = w"
  by (metis get_be32_be32_nil option.inject)

lemma be32_surj: "length bs = 4 \<Longrightarrow> \<exists>v. bs = be32 v"
proof -
  assume "length bs = 4"
  then obtain b0 b1 b2 b3 where bs: "bs = [b0, b1, b2, b3]"
    by (auto simp: numeral_eq_Suc length_Suc_conv)
  let ?v = "ucast b3 OR push_bit 8 (ucast b2) OR push_bit 16 (ucast b1)
    OR push_bit 24 (ucast b0) :: u32"
  have "bs = be32 ?v"
    unfolding bs be32_def
    by (simp, intro conjI; rule bit_word_eqI) (auto simp: bit_simps not_less dest: bit_imp_le_length)
  then show ?thesis ..
qed

end
