(* ===== verification/ChanList.thy ===== *)
theory ChanList
  imports GoBase
begin

text \<open>
  The channel table of a session (session/util_chanlist.go): a slice of channel pointers indexed by
  local id, where a removed channel leaves a nil that the next \<open>add\<close> reuses.  Ids are 32-bit and
  every comparison with the length of the slice is made on \<open>uint32\<close>, as in the code.  The locale
  \<open>id_table\<close> is what the session needs of it.
\<close>

section \<open>The operations\<close>

type_synonym 'a chan_list = "'a option list"

text \<open>\<open>for i := range c.chans { if c.chans[i] == nil ...\<close>: the first nil slot.\<close>

fun first_nil :: "'a chan_list \<Rightarrow> nat \<Rightarrow> nat option" where
  "first_nil [] i = None"
| "first_nil (None # cs) i = Some i"
| "first_nil (Some c # cs) i = first_nil cs (Suc i)"

definition chans_add :: "'a chan_list \<Rightarrow> 'a \<Rightarrow> u32 \<times> 'a chan_list" where
  "chans_add cs ch =
     (case first_nil cs 0 of
        Some i \<Rightarrow> (of_nat i, cs[i := Some ch])
      | None \<Rightarrow>
          let cs' = cs @ [Some ch] in (of_nat (length cs') - 1, cs'))"

definition getChan :: "'a chan_list \<Rightarrow> u32 \<Rightarrow> 'a option" where
  "getChan cs i = (if i < of_nat (length cs) then cs ! unat i else None)"

definition chans_remove :: "'a chan_list \<Rightarrow> u32 \<Rightarrow> 'a chan_list" where
  "chans_remove cs i = (if i < of_nat (length cs) then cs[unat i := None] else cs)"

definition chans_dropAll :: "'a chan_list \<Rightarrow> 'a list \<times> 'a chan_list" where
  "chans_dropAll cs = (List.map_filter id cs, [])"

section \<open>Slots\<close>

lemma first_nil_Some:
  "first_nil cs k = Some i \<Longrightarrow> k \<le> i \<and> i - k < length cs \<and> cs ! (i - k) = None
     \<and> (\<forall>j < i - k. cs ! j \<noteq> None)"
proof (induction cs k rule: first_nil.induct)
  case (3 c cs k)
  then have "Suc k \<le> i" and ih: "i - Suc k < length cs" "cs ! (i - Suc k) = None"
    "\<forall>j < i - Suc k. cs ! j \<noteq> None" by auto
  then have e: "i - k = Suc (i - Suc k)" by simp
  show ?case
    unfolding e using ih \<open>Suc k \<le> i\<close> by (auto simp: nth_Cons split: nat.splits)
qed simp_all

lemma first_nil_None: "first_nil cs k = None \<longleftrightarrow> None \<notin> set cs"
  by (induction cs k rule: first_nil.induct) auto

text \<open>
  The table as a map from ids to channels.  The code's \<open>uint32\<close> length is the length as long as
  there are fewer than \<open>2^32\<close> slots.
\<close>

definition small :: "'a chan_list \<Rightarrow> bool" where
  "small cs \<longleftrightarrow> length cs < 2 ^ 32"

lemma id_less: "small cs \<Longrightarrow> i < of_nat (length cs) \<longleftrightarrow> unat (i :: u32) < length cs"
  by (simp add: small_def word_less_nat_alt unat_of_nat)

lemma getChan_nth: "small cs \<Longrightarrow> getChan cs i = (if unat i < length cs then cs ! unat i else None)"
  by (simp add: getChan_def id_less)

lemma remove_nth: "small cs \<Longrightarrow> chans_remove cs i = (if unat i < length cs then cs[unat i := None] else cs)"
  by (simp add: chans_remove_def id_less)

lemma small_remove [simp]: "small (chans_remove cs i) = small cs"
  by (simp add: small_def chans_remove_def)

lemma getChan_remove:
  "small cs \<Longrightarrow> getChan (chans_remove cs i) j = (if j = i then None else getChan cs j)"
proof -
  assume sm: "small cs"
  have "unat i = unat j \<longleftrightarrow> i = j" by (simp add: word_unat_eq_iff)
  then show ?thesis
    using sm getChan_nth [of "chans_remove cs i" j] getChan_nth [of cs j] small_remove [of cs i]
    by (auto simp: remove_nth [OF sm] nth_list_update simp del: small_remove)
qed

text \<open>The slot \<open>add\<close> takes.\<close>

definition free_slot :: "'a chan_list \<Rightarrow> nat" where
  "free_slot cs = (case first_nil cs 0 of Some i \<Rightarrow> i | None \<Rightarrow> length cs)"

lemma free_slot_le: "free_slot cs \<le> length cs"
  using first_nil_Some [of cs 0] by (auto simp: free_slot_def split: option.splits)

lemma free_slot_free: "free_slot cs < length cs \<Longrightarrow> cs ! free_slot cs = None"
  using first_nil_Some [of cs 0] by (auto simp: free_slot_def split: option.splits)

lemma free_slot_least: "j < free_slot cs \<Longrightarrow> cs ! j \<noteq> None"
  using first_nil_Some [of cs 0] first_nil_None [of cs 0]
  by (auto simp: free_slot_def in_set_conv_nth split: option.splits)

lemma chans_add_eq:
  "chans_add cs ch = (of_nat (free_slot cs),
     if free_slot cs < length cs then cs[free_slot cs := Some ch] else cs @ [Some ch])"
  using first_nil_Some [of cs 0]
  by (auto simp: chans_add_def free_slot_def Let_def split: option.splits)

lemma length_add: "length (snd (chans_add cs ch)) \<le> Suc (length cs)"
  by (simp add: chans_add_eq)

lemma unat_add_id: "small cs \<Longrightarrow> unat (fst (chans_add cs ch)) = free_slot cs"
  using free_slot_le [of cs] by (simp add: chans_add_eq small_def unat_of_nat)

lemma getChan_add:
  assumes "length cs + 1 < 2 ^ 32"
  shows "getChan (snd (chans_add cs ch)) j =
           (if j = fst (chans_add cs ch) then Some ch else getChan cs j)"
proof -
  have sm: "small cs" "small (snd (chans_add cs ch))"
    using assms length_add [of cs ch] by (auto simp: small_def)
  have id: "unat (fst (chans_add cs ch)) = free_slot cs" by (rule unat_add_id [OF sm(1)])
  have j: "j = fst (chans_add cs ch) \<longleftrightarrow> unat j = free_slot cs"
    using id by (metis word_unat_eq_iff)
  show ?thesis
    unfolding getChan_nth [OF sm(1)] getChan_nth [OF sm(2)] j
    using free_slot_le [of cs] by (auto simp: chans_add_eq nth_append)
qed

lemma add_fresh: "small cs \<Longrightarrow> getChan cs (fst (chans_add cs ch)) = None"
  using free_slot_free [of cs] by (simp add: getChan_nth unat_add_id)

lemma dropAll_set: "set (fst (chans_dropAll cs)) = {ch. Some ch \<in> set cs}"
  by (force simp: chans_dropAll_def List.map_filter_def)

lemma live_distinct:
  assumes "\<And>i j x. i < length cs \<Longrightarrow> j < length cs \<Longrightarrow> cs ! i = Some x \<Longrightarrow> cs ! j = Some x \<Longrightarrow> i = j"
  shows "distinct (List.map_filter id cs)"
  using assms
proof (induction cs)
  case Nil
  then show ?case by (simp add: List.map_filter_def)
next
  case (Cons c cs)
  have "distinct (List.map_filter id cs)"
  proof (rule Cons.IH)
    fix i j x
    assume "i < length cs" "j < length cs" "cs ! i = Some x" "cs ! j = Some x"
    with Cons.prems [of "Suc i" "Suc j" x] show "i = j" by simp
  qed
  moreover have "Some x \<notin> set cs" if "c = Some x" for x
  proof
    assume "Some x \<in> set cs"
    then obtain j where "j < length cs" "cs ! j = Some x" by (auto simp: in_set_conv_nth)
    with Cons.prems [of 0 "Suc j" x] that show False by simp
  qed
  ultimately show ?case by (cases c) (auto simp: List.map_filter_def comp_def)
qed

lemma dropAll_getChan:
  assumes "small cs"
  shows "ch \<in> set (fst (chans_dropAll cs)) \<longleftrightarrow> (\<exists>i. getChan cs i = Some ch)"
proof
  assume "ch \<in> set (fst (chans_dropAll cs))"
  then obtain i where i: "i < length cs" "cs ! i = Some ch"
    by (auto simp: dropAll_set in_set_conv_nth)
  then have "unat (of_nat i :: u32) = i" using assms by (simp add: small_def unat_of_nat)
  with i show "\<exists>i. getChan cs i = Some ch"
    by (intro exI [of _ "of_nat i"]) (simp add: getChan_nth [OF assms])
next
  assume "\<exists>i. getChan cs i = Some ch"
  then obtain i where "getChan cs i = Some ch" by blast
  then have "unat i < length cs" "cs ! unat i = Some ch"
    by (simp_all add: getChan_nth [OF assms] split: if_splits)
  then have "Some ch \<in> set cs" by (metis nth_mem)
  then show "ch \<in> set (fst (chans_dropAll cs))" by (simp add: dropAll_set)
qed

section \<open>The contract\<close>

text \<open>
  A table of objects by id: an added object is found under a fresh id until it is removed, and no
  operation disturbs the other ids.  \<open>room\<close> says that one more object can be added.
\<close>

locale id_table =
  fixes find :: "'t \<Rightarrow> 'i \<Rightarrow> 'a option"
    and insert_new :: "'t \<Rightarrow> 'a \<Rightarrow> 'i \<times> 't"
    and drop_id :: "'t \<Rightarrow> 'i \<Rightarrow> 't"
    and room :: "'t \<Rightarrow> bool"
    and ok :: "'t \<Rightarrow> bool"
  assumes room_ok: "room t \<Longrightarrow> ok t"
    and insert_ok: "room t \<Longrightarrow> ok (snd (insert_new t x))"
    and drop_ok: "ok t \<Longrightarrow> ok (drop_id t i)"
    and insert_fresh: "ok t \<Longrightarrow> find t (fst (insert_new t x)) = None"
    and find_insert: "room t \<Longrightarrow>
      find (snd (insert_new t x)) j = (if j = fst (insert_new t x) then Some x else find t j)"
    and find_drop: "ok t \<Longrightarrow> find (drop_id t i) j = (if j = i then None else find t j)"
begin

lemma find_after_insert: "room t \<Longrightarrow> insert_new t x = (i, t') \<Longrightarrow> find t' i = Some x"
  using find_insert [of t x i] by simp

lemma insert_keeps: "room t \<Longrightarrow> insert_new t x = (i, t') \<Longrightarrow> find t j = Some y \<Longrightarrow> find t' j = Some y"
  using find_insert [of t x j] insert_fresh [of t x] room_ok [of t] by auto

lemma drop_undoes_insert:
  "room t \<Longrightarrow> insert_new t x = (i, t') \<Longrightarrow> find (drop_id t' i) = find t"
  using find_insert [of t x] insert_fresh [of t x] room_ok [of t] insert_ok [of t x]
  by (auto simp: find_drop fun_eq_iff)

lemma find_insert_cases:
  "room t \<Longrightarrow> insert_new t x = (i, t') \<Longrightarrow> find t' j = Some y \<Longrightarrow> (j = i \<and> y = x) \<or> find t j = Some y"
  using find_insert [of t x j] by (auto split: if_splits)

end

interpretation ctab: id_table getChan chans_add chans_remove
    "\<lambda>cs. length cs + 1 < 2 ^ 32" small
proof unfold_locales
  fix t :: "'a chan_list" and x i j
  show "length t + 1 < 2 ^ 32 \<Longrightarrow> small (snd (chans_add t x))"
    using length_add [of t x] by (simp add: small_def)
  show "length t + 1 < 2 ^ 32 \<Longrightarrow> small t"
    by (simp add: small_def)
  show "length t + 1 < 2 ^ 32 \<Longrightarrow>
      getChan (snd (chans_add t x)) j = (if j = fst (chans_add t x) then Some x else getChan t j)"
    by (rule getChan_add)
qed (simp_all add: getChan_remove add_fresh)

section \<open>Properties\<close>

text \<open>
  \<open>add\<close> gives a channel an id under which no channel was found before, the lowest free one;
  afterwards that id finds the channel and every other id finds what it found before.
\<close>

theorem add_assigns_lowest_free_id:
  assumes "length cs + 1 < 2 ^ 32" and "chans_add cs ch = (i, cs')"
  shows "getChan cs i = None \<and> (\<forall>j < i. getChan cs j \<noteq> None)
    \<and> getChan cs' i = Some ch \<and> (\<forall>j. j \<noteq> i \<longrightarrow> getChan cs' j = getChan cs j)"
proof -
  have sm: "small cs" using assms(1) by (simp add: small_def)
  have id: "unat i = free_slot cs" using unat_add_id [OF sm, of ch] assms(2) by simp
  have "getChan cs j \<noteq> None" if "j < i" for j
  proof -
    have "unat j < free_slot cs" using that id by (simp add: word_less_nat_alt)
    with free_slot_le [of cs] free_slot_least [of "unat j" cs] show ?thesis
      by (simp add: getChan_nth [OF sm])
  qed
  moreover have "getChan cs i = None" using ctab.insert_fresh [OF sm, of ch] assms(2) by simp
  moreover have "getChan cs' j = (if j = i then Some ch else getChan cs j)" for j
    using ctab.find_insert [OF assms(1), of ch j] assms(2) by simp
  ultimately show ?thesis by simp
qed

theorem add_assigns_lowest_free_id_witness:
  "getChan [Some ''a'', None, Some ''b''] 1 = None
     \<and> getChan (snd (chans_add [Some ''a'', None, Some ''b''] ''c'')) 1 = Some ''c''"
proof -
  have "chans_add [Some ''a'', None, Some ''b''] ''c'' = (1, [Some ''a'', Some ''c'', Some ''b''])"
    by (simp add: chans_add_def)
  with add_assigns_lowest_free_id [OF _ this] show ?thesis by simp
qed

end
