(* ===== verification/GoIO.thy ===== *)
theory GoIO
  imports GoBase
begin

text \<open>
  The interfaces of package io that the modelled packages read and write through.  An
  \<open>io.Reader\<close> is a function from its state and the length of the destination slice to the bytes
  it stored, its error and its next state.  The locale \<open>io_reader\<close> holds what the documentation of
  \<open>io.Reader\<close> promises, \<open>full_reader\<close> adds that no read is shorter than it has to be, and both are
  interpreted on the readers of the standard library the code uses (\<open>bytes.Buffer\<close>, a network
  connection, \<open>io.TeeReader\<close>).  The component theories prove their lemmas inside these locales
  and interpret them again on their own readers.
\<close>

section \<open>Readers\<close>

type_synonym 'r reader = "'r \<Rightarrow> nat \<Rightarrow> bytes \<times> go_error option \<times> 'r"

text \<open>
  \<open>p := make([]byte, n); _, err = r.Read(p)\<close>: the bytes read overwrite a prefix of the zeroed
  slice, and a short read leaves the rest of it zero.
\<close>

definition read_into :: "'r reader \<Rightarrow> 'r \<Rightarrow> nat \<Rightarrow> bytes \<times> go_error option \<times> 'r" where
  "read_into read r n =
     (case read r n of (bs, e, r') \<Rightarrow> (bs @ drop (length bs) (make_bytes n), e, r'))"

locale io_reader =
  fixes read :: "'r \<Rightarrow> nat \<Rightarrow> bytes \<times> go_error option \<times> 'r"
    and content :: "'r \<Rightarrow> bytes"
  assumes read_length: "read r n = (bs, e, r') \<Longrightarrow> length bs \<le> n"
    and read_content: "read r n = (bs, e, r') \<Longrightarrow> content r = bs @ content r'"
begin

lemma read_into_length: "read_into read r n = (p, e, r') \<Longrightarrow> length p = n"
  by (auto simp: read_into_def dest: read_length split: prod.splits)

lemma read_zero: "read r 0 = (bs, e, r') \<Longrightarrow> bs = [] \<and> content r' = content r"
  using read_length read_content by fastforce

lemma read_is_prefix: "read r n = (bs, e, r') \<Longrightarrow> bs = take (length bs) (content r)"
  by (drule read_content) simp

lemma read_rest: "read r n = (bs, e, r') \<Longrightarrow> content r' = drop (length bs) (content r)"
  by (drule read_content) simp

end

text \<open>
  \<open>whole r\<close>: what \<open>r\<close> still holds can be read without a short read.
\<close>

locale full_reader = io_reader +
  fixes whole :: "'a \<Rightarrow> bool"
  assumes read_full: "whole r \<Longrightarrow> n \<le> length (content r) \<Longrightarrow>
    \<exists>r'. read r n = (take n (content r), None, r') \<and> whole r'"
begin

lemma read_into_full:
  assumes "whole r" and "n \<le> length (content r)"
  shows "\<exists>r'. read_into read r n = (take n (content r), None, r')
           \<and> content r' = drop n (content r) \<and> whole r'"
proof -
  obtain r' where r': "read r n = (take n (content r), None, r')" "whole r'"
    using read_full [OF assms] by blast
  then have "content r' = drop n (content r)"
    using read_rest [OF r'(1)] assms(2) by (simp add: min_def)
  with r' assms(2) show ?thesis by (auto simp: read_into_def)
qed

end

section \<open>bytes.Buffer\<close>

text \<open>
  The unread part of a \<open>bytes.Buffer\<close>.  \<open>Read\<close> on an empty buffer is \<open>io.EOF\<close>, except into an
  empty slice; otherwise it copies as much as there is.
\<close>

definition bytesbuf_read :: "bytes reader" where
  "bytesbuf_read b n =
     (if b = [] then (if n = 0 then ([], None, []) else ([], Some EOF, []))
      else (take n b, None, drop n b))"

interpretation bytesbuf: full_reader bytesbuf_read "\<lambda>b. b" "\<lambda>b. True"
  by unfold_locales (auto simp: bytesbuf_read_def split: if_splits)

section \<open>Network connections\<close>

text \<open>
  The receiving side of a \<open>net.Conn\<close> (stdlib): the data still to arrive, in the pieces in which
  the kernel will hand it out, and the error every read reports after that (\<open>io.EOF\<close>, a
  timeout, a reset).  A read returns at most one piece, so it can be shorter than asked for.
\<close>

record instream =
  chunks :: "bytes list"
  final :: go_error

definition stream_content :: "instream \<Rightarrow> bytes" where
  "stream_content s = concat (chunks s)"

definition stream_read :: "instream reader" where
  "stream_read s n =
     (if n = 0 then ([], None, s)
      else case chunks s of
        [] \<Rightarrow> ([], Some (final s), s)
      | c # cs \<Rightarrow>
          if length c \<le> n then (c, None, s\<lparr>chunks := cs\<rparr>)
          else (take n c, None, s\<lparr>chunks := drop n c # cs\<rparr>))"

text \<open>A stream whose remaining data arrives in one piece is never short.\<close>

interpretation stream: full_reader stream_read stream_content "\<lambda>s. length (chunks s) \<le> 1"
  by unfold_locales
    (auto simp: stream_read_def stream_content_def le_Suc_eq length_Suc_conv
      split: if_splits list.splits)

text \<open>What a read leaves to be read: fewer pieces, or fewer bytes in as many pieces.\<close>

definition stream_size :: "instream \<Rightarrow> nat" where
  "stream_size s = length (chunks s) + length (stream_content s)"

lemma stream_read_size: "stream_read s n = (bs, e, s') \<Longrightarrow> stream_size s' \<le> stream_size s"
  by (auto simp: stream_read_def stream_size_def stream_content_def split: if_splits list.splits)

lemma stream_read_progress:
  "stream_read s n = (bs, None, s') \<Longrightarrow> 0 < n \<Longrightarrow> stream_size s' < stream_size s"
  by (auto simp: stream_read_def stream_size_def stream_content_def split: if_splits list.splits)

lemma stream_read_final: "stream_read s n = (bs, e, s') \<Longrightarrow> final s' = final s"
  by (auto simp: stream_read_def split: if_splits list.splits)

section \<open>io.TeeReader\<close>

text \<open>\<open>io.TeeReader(r, w)\<close> for a \<open>bytes.Buffer\<close> \<open>w\<close>: what is read is also appended to \<open>w\<close>.\<close>

definition tee_read :: "'r reader \<Rightarrow> ('r \<times> bytes) reader" where
  "tee_read read rw n =
     (case rw of (r, w) \<Rightarrow> case read r n of (bs, e, r') \<Rightarrow> (bs, e, (r', w @ bs)))"

context io_reader
begin

lemma tee_reader: "io_reader (tee_read read) (\<lambda>(r, w). content r)"
  by unfold_locales
    (auto simp: tee_read_def dest: read_length read_content split: prod.splits)

lemma tee_keeps: "tee_read read (r, w) n = (bs, e, (r', w')) \<Longrightarrow> w' @ content r' = w @ content r"
  by (auto simp: tee_read_def dest: read_content split: prod.splits)

end

interpretation tee: io_reader "tee_read stream_read" "\<lambda>(s, w). stream_content s"
  by (rule stream.tee_reader)

section \<open>Transports\<close>

text \<open>
  The connection a session runs over (\<open>mux.Transport\<close>: Reader, Writer and Closer): what arrives,
  what has been written, how many more bytes the peer will take before writes fail (\<open>None\<close>: no
  bound), and whether our side has closed it.
\<close>

record transport =
  tin :: instream
  tout :: bytes
  tbudget :: "nat option"
  tclosed :: bool

definition transport_read :: "transport reader" where
  "transport_read t n =
     (if tclosed t then ([], Some errNetClosed, t)
      else case stream_read (tin t) n of (bs, e, s) \<Rightarrow> (bs, e, t\<lparr>tin := s\<rparr>))"

definition transport_write :: "transport \<Rightarrow> bytes \<Rightarrow> go_error option \<times> transport" where
  "transport_write t b =
     (if tclosed t then (Some errNetClosed, t)
      else case tbudget t of
        None \<Rightarrow> (None, t\<lparr>tout := tout t @ b\<rparr>)
      | Some k \<Rightarrow>
          if length b \<le> k then (None, t\<lparr>tout := tout t @ b, tbudget := Some (k - length b)\<rparr>)
          else (Some errBrokenPipe, t\<lparr>tout := tout t @ take k b, tbudget := Some 0\<rparr>))"

definition transport_close :: "transport \<Rightarrow> transport" where
  "transport_close t = t\<lparr>tclosed := True\<rparr>"

interpretation conn: full_reader transport_read "\<lambda>t. stream_content (tin t)"
    "\<lambda>t. \<not> tclosed t \<and> length (chunks (tin t)) \<le> 1"
proof unfold_locales
  fix r :: transport and n
  assume "\<not> tclosed r \<and> length (chunks (tin r)) \<le> 1" "n \<le> length (stream_content (tin r))"
  with stream.read_full [of "tin r" n]
  show "\<exists>r'. transport_read r n = (take n (stream_content (tin r)), None, r')
      \<and> \<not> tclosed r' \<and> length (chunks (tin r')) \<le> 1"
    by (auto simp: transport_read_def)
qed (auto simp: transport_read_def dest: stream.read_length stream.read_content
      split: if_splits prod.splits)

lemma transport_write_tin [simp]: "tin (snd (transport_write t b)) = tin t"
  by (simp add: transport_write_def split: option.split)

lemma transport_write_tclosed [simp]: "tclosed (snd (transport_write t b)) = tclosed t"
  by (simp add: transport_write_def split: option.split)

lemma transport_write_ok:
  "transport_write t b = (None, t') \<Longrightarrow> tout t' = tout t @ b \<and> \<not> tclosed t"
  by (auto simp: transport_write_def split: if_splits option.splits)

lemma transport_write_unbounded:
  "\<not> tclosed t \<Longrightarrow> tbudget t = None \<Longrightarrow> transport_write t b = (None, t\<lparr>tout := tout t @ b\<rparr>)"
  by (simp add: transport_write_def)

lemma transport_read_size:
  "transport_read t n = (bs, None, t') \<Longrightarrow> 0 < n \<Longrightarrow> stream_size (tin t') < stream_size (tin t)"
  by (auto simp: transport_read_def dest: stream_read_progress split: if_splits prod.splits)

lemma transport_read_size_le:
  "transport_read t n = (bs, e, t') \<Longrightarrow> stream_size (tin t') \<le> stream_size (tin t)"
  by (auto simp: transport_read_def dest: stream_read_size split: if_splits prod.splits)

lemma transport_read_frame:
  "transport_read t n = (bs, e, t') \<Longrightarrow>
     tout t' = tout t \<and> tbudget t' = tbudget t \<and> tclosed t' = tclosed t"
  by (auto simp: transport_read_def split: if_splits prod.splits)

section \<open>Go channels\<close>

text \<open>
  A buffered Go channel: its queue, its capacity, and whether it is closed.  A send blocks on a
  full queue and panics on a closed channel; a receive takes the oldest element, yields the
  zero value on a closed and drained channel, and blocks on an empty open one; closing twice
  panics.
\<close>

record 'a gochan =
  qbuf :: "'a list"
  qcap :: nat
  qclosed :: bool

datatype 'a chan_send = Sent "'a gochan" | SendBlocks | SendPanics
datatype 'a chan_recv = Received 'a "'a gochan" | RecvClosed | RecvBlocks

definition make_chan :: "nat \<Rightarrow> 'a gochan" where
  "make_chan n = \<lparr>qbuf = [], qcap = n, qclosed = False\<rparr>"

definition chan_send :: "'a gochan \<Rightarrow> 'a \<Rightarrow> 'a chan_send" where
  "chan_send c x =
     (if qclosed c then SendPanics
      else if length (qbuf c) < qcap c then Sent (c\<lparr>qbuf := qbuf c @ [x]\<rparr>)
      else SendBlocks)"

definition chan_recv :: "'a gochan \<Rightarrow> 'a chan_recv" where
  "chan_recv c =
     (case qbuf c of
        x # xs \<Rightarrow> Received x (c\<lparr>qbuf := xs\<rparr>)
      | [] \<Rightarrow> if qclosed c then RecvClosed else RecvBlocks)"

definition chan_close :: "'a gochan \<Rightarrow> 'a gochan option" where
  "chan_close c = (if qclosed c then None else Some (c\<lparr>qclosed := True\<rparr>))"

lemma make_chan_simps [simp]:
  "qbuf (make_chan n) = []" "qcap (make_chan n) = n" "qclosed (make_chan n) = False"
  by (simp_all add: make_chan_def)

lemma chan_send_Sent:
  "chan_send c x = Sent c' \<longleftrightarrow>
     \<not> qclosed c \<and> length (qbuf c) < qcap c \<and> c' = c\<lparr>qbuf := qbuf c @ [x]\<rparr>"
  by (auto simp: chan_send_def)

lemma chan_send_blocks: "chan_send c x = SendBlocks \<longleftrightarrow> \<not> qclosed c \<and> qcap c \<le> length (qbuf c)"
  by (auto simp: chan_send_def)

lemma chan_send_panics: "chan_send c x = SendPanics \<longleftrightarrow> qclosed c"
  by (auto simp: chan_send_def)

end
