(* ===== verification/Codec.thy ===== *)
theory Codec
  imports GoIO
begin

text \<open>
  Package codec (localPackages/codec): the seven qmux messages, their wire format, the encoder and
  the decoder.  \<open>MarshalMux\<close> and \<open>UnmarshalMux\<close> follow the Go bodies index by index, with a
  panic as \<open>None\<close>; the lemmas collect the closed forms, the round trips message by message and
  packet stream by packet stream, and what the decoder does with every input.  The debug writers
  \<open>DebugMessages\<close> and \<open>DebugBytes\<close> are nil throughout the program and are left out.
\<close>

section \<open>Messages (message.go, message_*.go)\<close>

abbreviation msgChannelOpen :: byte where "msgChannelOpen \<equiv> 100"
abbreviation msgChannelOpenConfirm :: byte where "msgChannelOpenConfirm \<equiv> 101"
abbreviation msgChannelOpenFailure :: byte where "msgChannelOpenFailure \<equiv> 102"
abbreviation msgChannelWindowAdjust :: byte where "msgChannelWindowAdjust \<equiv> 103"
abbreviation msgChannelData :: byte where "msgChannelData \<equiv> 104"
abbreviation msgChannelEOF :: byte where "msgChannelEOF \<equiv> 105"
abbreviation msgChannelClose :: byte where "msgChannelClose \<equiv> 106"

text \<open>The map \<open>payloadSizes\<close>; a missing key reads as the zero value.\<close>

definition payloadSizes :: "byte \<Rightarrow> nat" where
  "payloadSizes t =
     (if t = msgChannelOpen then 12
      else if t = msgChannelOpenConfirm then 16
      else if t = msgChannelOpenFailure then 4
      else if t = msgChannelWindowAdjust then 8
      else if t = msgChannelData then 8
      else if t = msgChannelEOF then 4
      else if t = msgChannelClose then 4
      else 0)"

datatype message =
    OpenMessage (SenderID: u32) (WindowSize: u32) (MaxPacketSize: u32)
  | OpenConfirmMessage (ChannelID: u32) (SenderID: u32) (WindowSize: u32) (MaxPacketSize: u32)
  | OpenFailureMessage (ChannelID: u32)
  | WindowAdjustMessage (ChannelID: u32) (AdditionalBytes: u32)
  | DataMessage (ChannelID: u32) (Length: u32) (Data: bytes)
  | EOFMessage (ChannelID: u32)
  | CloseMessage (ChannelID: u32)

text \<open>The method \<open>Channel()\<close> of each message type: its channel id, and whether it has one.\<close>

fun msg_Channel :: "message \<Rightarrow> u32 \<times> bool" where
  "msg_Channel (OpenMessage sid ws mp) = (0, False)"
| "msg_Channel (OpenConfirmMessage cid sid ws mp) = (cid, True)"
| "msg_Channel (OpenFailureMessage cid) = (cid, True)"
| "msg_Channel (WindowAdjustMessage cid n) = (cid, True)"
| "msg_Channel (DataMessage cid n d) = (cid, True)"
| "msg_Channel (EOFMessage cid) = (cid, True)"
| "msg_Channel (CloseMessage cid) = (cid, True)"

text \<open>The seven methods \<open>String()\<close>.\<close>

definition OpenString :: "u32 \<Rightarrow> u32 \<Rightarrow> u32 \<Rightarrow> string" where
  "OpenString sid ws mp =
     ''{OpenMessage SenderID:'' @ u32_string sid @ '' WindowSize:'' @ u32_string ws
       @ '' MaxPacketSize:'' @ u32_string mp @ ''}''"

definition OpenConfirmString :: "u32 \<Rightarrow> u32 \<Rightarrow> u32 \<Rightarrow> u32 \<Rightarrow> string" where
  "OpenConfirmString cid sid ws mp =
     ''{OpenConfirmMessage ChannelID:'' @ u32_string cid @ '' SenderID:'' @ u32_string sid
       @ '' WindowSize:'' @ u32_string ws @ '' MaxPacketSize:'' @ u32_string mp @ ''}''"

definition OpenFailureString :: "u32 \<Rightarrow> string" where
  "OpenFailureString cid = ''{OpenFailureMessage ChannelID:'' @ u32_string cid @ ''}''"

definition WindowAdjustString :: "u32 \<Rightarrow> u32 \<Rightarrow> string" where
  "WindowAdjustString cid n =
     ''{WindowAdjustMessage ChannelID:'' @ u32_string cid @ '' AdditionalBytes:'' @ u32_string n
       @ ''}''"

definition DataString :: "u32 \<Rightarrow> u32 \<Rightarrow> string" where
  "DataString cid n =
     ''{DataMessage ChannelID:'' @ u32_string cid @ '' Length:'' @ u32_string n @ '' Data: ... }''"

definition EOFString :: "u32 \<Rightarrow> string" where
  "EOFString cid = ''{EOFMessage ChannelID:'' @ u32_string cid @ ''}''"

definition CloseString :: "u32 \<Rightarrow> string" where
  "CloseString cid = ''{CloseMessage ChannelID:'' @ u32_string cid @ ''}''"

fun msg_String :: "message \<Rightarrow> string" where
  "msg_String (OpenMessage sid ws mp) = OpenString sid ws mp"
| "msg_String (OpenConfirmMessage cid sid ws mp) = OpenConfirmString cid sid ws mp"
| "msg_String (OpenFailureMessage cid) = OpenFailureString cid"
| "msg_String (WindowAdjustMessage cid n) = WindowAdjustString cid n"
| "msg_String (DataMessage cid n d) = DataString cid n"
| "msg_String (EOFMessage cid) = EOFString cid"
| "msg_String (CloseMessage cid) = CloseString cid"

section \<open>Marshalling\<close>

text \<open>
  The seven methods \<open>MarshalMux\<close>: allocate the packet, set the type byte, store the fields.
\<close>

definition MarshalOpen :: "u32 \<Rightarrow> u32 \<Rightarrow> u32 \<Rightarrow> bytes option" where
  "MarshalOpen sid ws mp =
     do { packet \<leftarrow> set_at (make_bytes (payloadSizes msgChannelOpen + 1)) 0 msgChannelOpen;
          packet \<leftarrow> put_be32 packet 1 sid;
          packet \<leftarrow> put_be32 packet 5 ws;
          put_be32 packet 9 mp }"

definition MarshalOpenConfirm :: "u32 \<Rightarrow> u32 \<Rightarrow> u32 \<Rightarrow> u32 \<Rightarrow> bytes option" where
  "MarshalOpenConfirm cid sid ws mp =
     do { packet \<leftarrow> set_at (make_bytes (payloadSizes msgChannelOpenConfirm + 1)) 0
            msgChannelOpenConfirm;
          packet \<leftarrow> put_be32 packet 1 cid;
          packet \<leftarrow> put_be32 packet 5 sid;
          packet \<leftarrow> put_be32 packet 9 ws;
          put_be32 packet 13 mp }"

definition MarshalOpenFailure :: "u32 \<Rightarrow> bytes option" where
  "MarshalOpenFailure cid =
     do { packet \<leftarrow> set_at (make_bytes (payloadSizes msgChannelOpenFailure + 1)) 0
            msgChannelOpenFailure;
          put_be32 packet 1 cid }"

definition MarshalWindowAdjust :: "u32 \<Rightarrow> u32 \<Rightarrow> bytes option" where
  "MarshalWindowAdjust cid n =
     do { packet \<leftarrow> set_at (make_bytes (payloadSizes msgChannelWindowAdjust + 1)) 0
            msgChannelWindowAdjust;
          packet \<leftarrow> put_be32 packet 1 cid;
          put_be32 packet 5 n }"

definition MarshalData :: "u32 \<Rightarrow> u32 \<Rightarrow> bytes \<Rightarrow> bytes option" where
  "MarshalData cid n d =
     do { packet \<leftarrow> set_at (make_bytes (payloadSizes msgChannelData + 1)) 0 msgChannelData;
          packet \<leftarrow> put_be32 packet 1 cid;
          packet \<leftarrow> put_be32 packet 5 n;
          Some (packet @ d) }"

definition MarshalEOF :: "u32 \<Rightarrow> bytes option" where
  "MarshalEOF cid =
     do { packet \<leftarrow> set_at (make_bytes (payloadSizes msgChannelEOF + 1)) 0 msgChannelEOF;
          put_be32 packet 1 cid }"

definition MarshalClose :: "u32 \<Rightarrow> bytes option" where
  "MarshalClose cid =
     do { packet \<leftarrow> set_at (make_bytes (payloadSizes msgChannelClose + 1)) 0 msgChannelClose;
          put_be32 packet 1 cid }"

lemmas marshal_defs =
  MarshalOpen_def MarshalOpenConfirm_def MarshalOpenFailure_def MarshalWindowAdjust_def
  MarshalData_def MarshalEOF_def MarshalClose_def

text \<open>The call \<open>m.MarshalMux()\<close> through the interface selects the method by the dynamic type.\<close>

fun MarshalMux :: "message \<Rightarrow> bytes option" where
  "MarshalMux (OpenMessage sid ws mp) = MarshalOpen sid ws mp"
| "MarshalMux (OpenConfirmMessage cid sid ws mp) = MarshalOpenConfirm cid sid ws mp"
| "MarshalMux (OpenFailureMessage cid) = MarshalOpenFailure cid"
| "MarshalMux (WindowAdjustMessage cid n) = MarshalWindowAdjust cid n"
| "MarshalMux (DataMessage cid n d) = MarshalData cid n d"
| "MarshalMux (EOFMessage cid) = MarshalEOF cid"
| "MarshalMux (CloseMessage cid) = MarshalClose cid"

text \<open>
  \<open>Marshal(v interface{})\<close>: a value without the method \<open>MarshalMux\<close> is an error, here the
  argument \<open>None\<close>.
\<close>

definition Marshal :: "message option \<Rightarrow> bytes result" where
  "Marshal v = (case v of
       None \<Rightarrow> Err (Errorf ''qmux: unable to marshal type'')
     | Some msg \<Rightarrow> of_option (MarshalMux msg))"

section \<open>Unmarshalling (decoder.go)\<close>

text \<open>The seven \<open>UnmarshalMux\<close> methods, by the message type they fill in.\<close>

definition UnmarshalOpen :: "bytes \<Rightarrow> message option" where
  "UnmarshalOpen b =
     do { sid \<leftarrow> be32_at b 1 5; ws \<leftarrow> be32_at b 5 9; mp \<leftarrow> be32_at b 9 13;
          Some (OpenMessage sid ws mp) }"

definition UnmarshalOpenConfirm :: "bytes \<Rightarrow> message option" where
  "UnmarshalOpenConfirm b =
     do { cid \<leftarrow> be32_at b 1 5; sid \<leftarrow> be32_at b 5 9; ws \<leftarrow> be32_at b 9 13;
          mp \<leftarrow> be32_at b 13 17; Some (OpenConfirmMessage cid sid ws mp) }"

definition UnmarshalOpenFailure :: "bytes \<Rightarrow> message option" where
  "UnmarshalOpenFailure b = do { cid \<leftarrow> be32_at b 1 5; Some (OpenFailureMessage cid) }"

definition UnmarshalWindowAdjust :: "bytes \<Rightarrow> message option" where
  "UnmarshalWindowAdjust b =
     do { cid \<leftarrow> be32_at b 1 5; n \<leftarrow> be32_at b 5 9; Some (WindowAdjustMessage cid n) }"

definition UnmarshalData :: "bytes \<Rightarrow> message option" where
  "UnmarshalData b =
     do { cid \<leftarrow> be32_at b 1 5; n \<leftarrow> be32_at b 5 9; d \<leftarrow> slice_from b 9;
          Some (DataMessage cid n d) }"

definition UnmarshalEOF :: "bytes \<Rightarrow> message option" where
  "UnmarshalEOF b = do { cid \<leftarrow> be32_at b 1 5; Some (EOFMessage cid) }"

definition UnmarshalClose :: "bytes \<Rightarrow> message option" where
  "UnmarshalClose b = do { cid \<leftarrow> be32_at b 1 5; Some (CloseMessage cid) }"

text \<open>
  \<open>decode\<close>: the type byte selects the message.  The index \<open>packet[0]\<close> panics on an empty packet.
\<close>

definition decode :: "bytes \<Rightarrow> message result" where
  "decode packet =
     (case get_at packet 0 of
        None \<Rightarrow> Panic
      | Some ty \<Rightarrow>
          if ty = msgChannelOpen then of_option (UnmarshalOpen packet)
          else if ty = msgChannelData then of_option (UnmarshalData packet)
          else if ty = msgChannelOpenConfirm then of_option (UnmarshalOpenConfirm packet)
          else if ty = msgChannelOpenFailure then of_option (UnmarshalOpenFailure packet)
          else if ty = msgChannelWindowAdjust then of_option (UnmarshalWindowAdjust packet)
          else if ty = msgChannelEOF then of_option (UnmarshalEOF packet)
          else if ty = msgChannelClose then of_option (UnmarshalClose packet)
          else Err (Errorf (''qmux: unexpected message type '' @ dec_string (unat ty))))"

section \<open>The decoder and the encoder\<close>

text \<open>
  \<open>readPacket\<close>: one byte, then the payload of the size the type has, then, for a data message,
  as many bytes as its length field says.  Each part is one call of \<open>Read\<close>; the number of bytes
  it stored is ignored.  A reset connection counts as the end of the input.
\<close>

definition map_reset :: "go_error \<Rightarrow> go_error" where
  "map_reset e = (case e of NetErr tmp rst txt \<Rightarrow> if rst then EOF else e | _ \<Rightarrow> e)"

definition readPacket :: "'r reader \<Rightarrow> 'r \<Rightarrow> bytes result \<times> 'r" where
  "readPacket read c =
     (case read_into read c 1 of (msgNum, err, c1) \<Rightarrow>
        case err of
          Some e \<Rightarrow> (Err (map_reset e), c1)
        | None \<Rightarrow>
            (case get_at msgNum 0 of
               None \<Rightarrow> (Panic, c1)
             | Some ty \<Rightarrow>
                 case read_into read c1 (payloadSizes ty) of (rest, err, c2) \<Rightarrow>
                   case err of
                     Some e \<Rightarrow> (Err e, c2)
                   | None \<Rightarrow>
                       let packet = msgNum @ rest in
                       if ty = msgChannelData then
                         (case be32_at rest 4 8 of
                            None \<Rightarrow> (Panic, c2)
                          | Some dataSize \<Rightarrow>
                              case read_into read c2 (unat dataSize) of (data, err, c3) \<Rightarrow>
                                case err of
                                  Some e \<Rightarrow> (Err e, c3)
                                | None \<Rightarrow> (Ok (packet @ data), c3))
                       else (Ok packet, c2)))"

definition Decode :: "'r reader \<Rightarrow> 'r \<Rightarrow> message result \<times> 'r" where
  "Decode read r =
     (case readPacket read r of
        (Ok packet, r') \<Rightarrow> (decode packet, r')
      | (Err e, r') \<Rightarrow> (Err e, r')
      | (Panic, r') \<Rightarrow> (Panic, r'))"

text \<open>\<open>Encode\<close>: marshal, then one write.\<close>

definition Encode :: "transport \<Rightarrow> message \<Rightarrow> go_error option \<times> transport" where
  "Encode t msg =
     (case Marshal (Some msg) of
        Ok b \<Rightarrow> transport_write t b
      | Err e \<Rightarrow> (Some e, t)
      | Panic \<Rightarrow> (None, t))"

section \<open>The wire format in closed form\<close>

text \<open>The packet of a message, as a specification: the type byte and the big-endian fields.\<close>

fun wire :: "message \<Rightarrow> bytes" where
  "wire (OpenMessage sid ws mp) = msgChannelOpen # be32 sid @ be32 ws @ be32 mp"
| "wire (OpenConfirmMessage cid sid ws mp) =
     msgChannelOpenConfirm # be32 cid @ be32 sid @ be32 ws @ be32 mp"
| "wire (OpenFailureMessage cid) = msgChannelOpenFailure # be32 cid"
| "wire (WindowAdjustMessage cid n) = msgChannelWindowAdjust # be32 cid @ be32 n"
| "wire (DataMessage cid n d) = msgChannelData # be32 cid @ be32 n @ d"
| "wire (EOFMessage cid) = msgChannelEOF # be32 cid"
| "wire (CloseMessage cid) = msgChannelClose # be32 cid"

text \<open>A message whose length field is the length of its data; the decoder needs no more.\<close>

fun wf_msg :: "message \<Rightarrow> bool" where
  "wf_msg (DataMessage cid n d) = (unat n = length d)"
| "wf_msg _ = True"

lemma payloadSizes_simps [simp, codec_eval]:
  "payloadSizes msgChannelOpen = 12" "payloadSizes msgChannelOpenConfirm = 16"
  "payloadSizes msgChannelOpenFailure = 4" "payloadSizes msgChannelWindowAdjust = 8"
  "payloadSizes msgChannelData = 8" "payloadSizes msgChannelEOF = 4"
  "payloadSizes msgChannelClose = 4"
  by (simp_all add: payloadSizes_def)

lemma put_be32_at_end:
  "length p = lo \<Longrightarrow> put_be32 (p @ make_bytes (4 + k)) lo v = Some ((p @ be32 v) @ make_bytes k)"
  by (simp add: put_be32_def make_bytes_def)

lemma put_be32_simps [codec_eval]:
  "put_be32 (ty # make_bytes (4 + k)) 1 v = Some (ty # be32 v @ make_bytes k)"
  "put_be32 (ty # be32 a @ make_bytes (4 + k)) 5 v = Some (ty # be32 a @ be32 v @ make_bytes k)"
  "put_be32 (ty # be32 a @ be32 b @ make_bytes (4 + k)) 9 v =
     Some (ty # be32 a @ be32 b @ be32 v @ make_bytes k)"
  "put_be32 (ty # be32 a @ be32 b @ be32 c @ make_bytes (4 + k)) 13 v =
     Some (ty # be32 a @ be32 b @ be32 c @ be32 v @ make_bytes k)"
  using put_be32_at_end [of "[ty]" 1 k v] put_be32_at_end [of "ty # be32 a" 5 k v]
    put_be32_at_end [of "ty # be32 a @ be32 b" 9 k v]
    put_be32_at_end [of "ty # be32 a @ be32 b @ be32 c" 13 k v]
  by simp_all

lemma set_type_byte: "set_at (make_bytes (k + 1)) 0 ty = Some (ty # make_bytes k)"
  by (simp add: make_bytes_def)

lemma MarshalMux_wire [simp]: "MarshalMux m = Some (wire m)"
  using put_be32_simps(1) [of _ 0] put_be32_simps(1) [of _ 4] put_be32_simps(1) [of _ 8]
    put_be32_simps(1) [of _ 12] put_be32_simps(2) [of _ _ 0] put_be32_simps(2) [of _ _ 4]
    put_be32_simps(2) [of _ _ 8] put_be32_simps(3) [of _ _ _ 0] put_be32_simps(3) [of _ _ _ 4]
    put_be32_simps(4) [of _ _ _ _ 0]
  by (cases m) (simp_all only: MarshalMux.simps marshal_defs payloadSizes_simps set_type_byte wire.simps,
      simp_all add: make_bytes_def)

lemma Marshal_wire [simp]: "Marshal (Some m) = Ok (wire m)"
  by (simp add: Marshal_def)

lemma be32_at_append:
  "length p = lo \<Longrightarrow> hi = lo + 4 \<Longrightarrow> be32_at (p @ be32 v @ rest) lo hi = Some v"
  by (simp add: be32_at_def)

lemma be32_at_fields [codec_eval]:
  "be32_at (ty # be32 a @ rest) 1 5 = Some a"
  "be32_at (ty # be32 a @ be32 b @ rest) 5 9 = Some b"
  "be32_at (ty # be32 a @ be32 b @ be32 c @ rest) 9 13 = Some c"
  "be32_at (ty # be32 a @ be32 b @ be32 c @ be32 d @ rest) 13 17 = Some d"
  using be32_at_append [of "[ty]" 1 5 a rest] be32_at_append [of "ty # be32 a" 5 9 b rest]
    be32_at_append [of "ty # be32 a @ be32 b" 9 13 c rest]
    be32_at_append [of "ty # be32 a @ be32 b @ be32 c" 13 17 d rest]
  by simp_all

lemma be32_at_fields_last [codec_eval]:
  "be32_at (ty # be32 a) 1 5 = Some a"
  "be32_at (ty # be32 a @ be32 b) 5 9 = Some b"
  "be32_at (ty # be32 a @ be32 b @ be32 c) 9 13 = Some c"
  "be32_at (ty # be32 a @ be32 b @ be32 c @ be32 d) 13 17 = Some d"
  using be32_at_fields [where rest = "[]"] by simp_all

lemmas unmarshal_defs =
  UnmarshalOpen_def UnmarshalOpenConfirm_def UnmarshalOpenFailure_def UnmarshalWindowAdjust_def
  UnmarshalData_def UnmarshalEOF_def UnmarshalClose_def

lemma decode_wire [simp]: "decode (wire m) = Ok m"
  by (cases m) (simp_all add: decode_def get_at_def unmarshal_defs codec_eval del: One_nat_def)

lemma wire_inj: "wire m = wire m' \<longleftrightarrow> m = m'"
  by (metis decode_wire result.inject(1))

lemma length_wire:
  "length (wire m) = 1 + payloadSizes (hd (wire m)) + (case m of DataMessage _ _ d \<Rightarrow> length d | _ \<Rightarrow> 0)"
  by (cases m) simp_all

lemma wire_not_Nil [simp]: "wire m \<noteq> []"
  by (cases m) simp_all

section \<open>Reading packets\<close>

text \<open>
  The decoder over a reader that is never short: one packet is read back exactly, and a stream of
  packets is read back in order.
\<close>

fun decode_seq :: "'r reader \<Rightarrow> nat \<Rightarrow> 'r \<Rightarrow> (message list \<times> 'r) option" where
  "decode_seq read 0 r = Some ([], r)"
| "decode_seq read (Suc n) r =
     (case Decode read r of
        (Ok m, r') \<Rightarrow> map_option (\<lambda>(ms, r''). (m # ms, r'')) (decode_seq read n r')
      | _ \<Rightarrow> None)"

lemma be32_at_data_length: "be32_at (be32 a @ be32 b) 4 8 = Some b"
  using be32_at_append [of "be32 a" 4 8 b "[]"] by simp

lemma wire_cases:
  obtains (data) cid n d where "m = DataMessage cid n d"
    | (fixed) "length (wire m) = Suc (payloadSizes (hd (wire m)))" "hd (wire m) \<noteq> msgChannelData"
  by (cases m) simp_all

lemma wire_data_shape:
  "wire (DataMessage cid n d) = [msgChannelData] @ (be32 cid @ be32 n) @ d"
  by simp

context full_reader
begin

lemma readPacket_data:
  assumes "whole r" "content r = wire (DataMessage cid n d) @ rest" "unat n = length d"
  shows "\<exists>r'. readPacket read r = (Ok (wire (DataMessage cid n d)), r') \<and> content r' = rest \<and> whole r'"
proof -
  obtain r1 where r1: "read_into read r 1 = ([msgChannelData], None, r1)"
    "content r1 = (be32 cid @ be32 n) @ d @ rest" "whole r1"
    using read_into_full [of r 1] assms(1,2) by auto
  obtain r2 where r2: "read_into read r1 8 = (be32 cid @ be32 n, None, r2)" "content r2 = d @ rest"
    "whole r2"
    using read_into_full [of r1 8] r1(2,3) by auto
  obtain r3 where r3: "read_into read r2 (length d) = (d, None, r3)" "content r3 = rest" "whole r3"
    using read_into_full [of r2 "length d"] r2(2,3) by auto
  show ?thesis
    using r1 r2 r3 assms(3)
    by (simp add: readPacket_def get_at_def be32_at_data_length del: One_nat_def)
qed

lemma readPacket_fixed:
  assumes "whole r" "content r = ty # body @ rest" "length body = payloadSizes ty"
    and "ty \<noteq> msgChannelData"
  shows "\<exists>r'. readPacket read r = (Ok (ty # body), r') \<and> content r' = rest \<and> whole r'"
proof -
  obtain r1 where r1: "read_into read r 1 = ([ty], None, r1)" "content r1 = body @ rest" "whole r1"
    using read_into_full [of r 1] assms(1,2) by auto
  obtain r2 where r2: "read_into read r1 (payloadSizes ty) = (body, None, r2)" "content r2 = rest"
    "whole r2"
    using read_into_full [of r1 "payloadSizes ty"] r1(2,3) assms(3) by auto
  show ?thesis
    using r1 r2 assms(4) by (simp add: readPacket_def get_at_def del: One_nat_def)
qed

lemma readPacket_wire:
  assumes "whole r" "content r = wire m @ rest" "wf_msg m"
  shows "\<exists>r'. readPacket read r = (Ok (wire m), r') \<and> content r' = rest \<and> whole r'"
proof (cases m rule: wire_cases)
  case (data cid n d)
  with assms show ?thesis using readPacket_data by simp
next
  case fixed
  obtain ty body where tb: "wire m = ty # body" by (cases "wire m") auto
  with fixed assms readPacket_fixed [of r ty body rest] show ?thesis by simp
qed

lemma Decode_wire:
  assumes "whole r" "content r = wire m @ rest" "wf_msg m"
  shows "\<exists>r'. Decode read r = (Ok m, r') \<and> content r' = rest \<and> whole r'"
  using readPacket_wire [OF assms] by (auto simp: Decode_def)

lemma decode_seq_wires:
  assumes "whole r" "content r = concat (map wire ms) @ rest" "list_all wf_msg ms"
  shows "\<exists>r'. decode_seq read (length ms) r = Some (ms, r') \<and> content r' = rest"
  using assms
proof (induction ms arbitrary: r)
  case Nil
  then show ?case by simp
next
  case (Cons m ms)
  have "content r = wire m @ (concat (map wire ms) @ rest)" using Cons.prems(2) by simp
  then obtain r1 where r1: "Decode read r = (Ok m, r1)" "content r1 = concat (map wire ms) @ rest"
    "whole r1"
    using Decode_wire [OF Cons.prems(1), of m] Cons.prems(3) by auto
  then obtain r2 where "decode_seq read (length ms) r1 = Some (ms, r2)" "content r2 = rest"
    using Cons.IH Cons.prems(3) by auto
  with r1 show ?case by auto
qed

end

section \<open>Safety of the decoder on any reader\<close>

lemma be32_at_total: "lo + 4 = hi \<Longrightarrow> hi \<le> length p \<Longrightarrow> \<exists>v. be32_at p lo hi = Some v"
proof -
  assume a: "lo + 4 = hi" "hi \<le> length p"
  obtain v where "take 4 (drop lo p) = be32 v"
    using be32_surj [of "take 4 (drop lo p)"] a by auto
  with a show ?thesis by (auto simp: be32_at_def)
qed

lemma be32_at_ok [simp]:
  "5 \<le> length p \<Longrightarrow> be32_at p 1 5 \<noteq> None" "9 \<le> length p \<Longrightarrow> be32_at p 5 9 \<noteq> None"
  "13 \<le> length p \<Longrightarrow> be32_at p 9 13 \<noteq> None" "17 \<le> length p \<Longrightarrow> be32_at p 13 17 \<noteq> None"
  "8 \<le> length p \<Longrightarrow> be32_at p 4 8 \<noteq> None"
  using be32_at_total [of 1 5 p] be32_at_total [of 5 9 p] be32_at_total [of 9 13 p]
    be32_at_total [of 13 17 p] be32_at_total [of 4 8 p]
  by auto

lemma decode_safe:
  assumes "p \<noteq> []" and "1 + payloadSizes (hd p) \<le> length p"
  shows "decode p \<noteq> Panic"
proof -
  have unm: "5 \<le> length p \<Longrightarrow> UnmarshalOpenFailure p \<noteq> None \<and> UnmarshalEOF p \<noteq> None
      \<and> UnmarshalClose p \<noteq> None"
    "9 \<le> length p \<Longrightarrow> UnmarshalWindowAdjust p \<noteq> None \<and> UnmarshalData p \<noteq> None"
    "13 \<le> length p \<Longrightarrow> UnmarshalOpen p \<noteq> None"
    "17 \<le> length p \<Longrightarrow> UnmarshalOpenConfirm p \<noteq> None"
    using be32_at_ok [of p]
    by (auto simp: unmarshal_defs bind_eq_None_conv simp del: One_nat_def not_None_eq)
  have "of_option x \<noteq> Panic \<longleftrightarrow> x \<noteq> None" for x :: "message option" by (cases x) auto
  with assms unm show ?thesis
    by (cases p) (auto simp: decode_def get_at_def payloadSizes_def split: if_splits)
qed

context io_reader
begin

lemma readPacket_shape:
  assumes "readPacket read r = (res, r')"
  shows "res \<noteq> Panic \<and> (\<forall>p. res = Ok p \<longrightarrow> p \<noteq> [] \<and> 1 + payloadSizes (hd p) \<le> length p)"
proof -
  obtain b e1 r1 where r1: "read_into read r 1 = (b, e1, r1)" by (cases "read_into read r 1") auto
  then have "length b = 1" by (rule read_into_length)
  then obtain ty where b: "b = [ty]" by (cases b) auto
  obtain body e2 r2 where r2: "read_into read r1 (payloadSizes ty) = (body, e2, r2)"
    by (cases "read_into read r1 (payloadSizes ty)") auto
  then have len: "length body = payloadSizes ty" by (rule read_into_length)
  have "ty = msgChannelData \<Longrightarrow> \<exists>v. be32_at body 4 8 = Some v"
    using len be32_at_total [of 4 8 body] by auto
  with r1 r2 b len assms show ?thesis
    by (auto simp: readPacket_def get_at_def Let_def simp del: One_nat_def
        split: option.splits if_splits prod.splits)
qed

lemma Decode_never_panics: "fst (Decode read r) \<noteq> Panic"
proof -
  obtain res r' where rp: "readPacket read r = (res, r')" by (cases "readPacket read r") auto
  with readPacket_shape [OF rp] decode_safe show ?thesis
    by (auto simp: Decode_def split: result.splits)
qed

end

text \<open>Whatever the reader does, a decoded data message carries as many bytes as it says.\<close>

lemma decode_data:
  assumes "decode (ty # rest @ d) = Ok m" "length rest = payloadSizes ty"
    and "ty = msgChannelData \<Longrightarrow> be32_at rest 4 8 = Some n \<and> unat n = length d"
  shows "wf_msg m"
proof (cases "ty = msgChannelData")
  case True
  with assms(2) have len: "length rest = 8" by simp
  have "be32_at (ty # rest @ d) 5 9 = be32_at rest 4 8"
    using len by (simp add: be32_at_def slice_of_def)
  with True assms len show ?thesis
    by (auto simp: decode_def get_at_def UnmarshalData_def of_option_def bind_eq_Some_conv
        split: option.splits if_splits)
next
  case False
  with assms(1) show ?thesis
    by (cases m) (auto simp: decode_def get_at_def unmarshal_defs of_option_def
        bind_eq_Some_conv split: option.splits if_splits)
qed

context io_reader
begin

lemma Decode_wf:
  assumes "Decode read r = (Ok m, r')"
  shows "wf_msg m"
proof -
  obtain b e1 r1 where r1: "read_into read r 1 = (b, e1, r1)" by (cases "read_into read r 1") auto
  obtain ty where b: "b = [ty]" using read_into_length [OF r1] by (cases b) auto
  obtain body e2 r2 where r2: "read_into read r1 (payloadSizes ty) = (body, e2, r2)"
    by (cases "read_into read r1 (payloadSizes ty)") auto
  have body: "length body = payloadSizes ty" using read_into_length [OF r2] .
  have len: "length d = k" if "read_into read r2 k = (d, e, r3)" for d e r3 k
    using read_into_length [OF that] .
  have "\<exists>d n. decode (ty # body @ d) = Ok m
      \<and> (ty = msgChannelData \<longrightarrow> be32_at body 4 8 = Some n \<and> unat n = length d)"
    using assms r1 r2 b len
    by (auto simp: Decode_def readPacket_def get_at_def Let_def simp del: One_nat_def
        split: option.splits if_splits prod.splits result.splits intro: exI [of _ "[]"])
  then show ?thesis using decode_data body by blast
qed

end

section \<open>The encoder\<close>

lemma Encode_wire: "Encode t m = transport_write t (wire m)"
  by (simp add: Encode_def)

lemma Encode_tin [simp]: "tin (snd (Encode t m)) = tin t"
  by (simp add: Encode_wire)

lemma Encode_tclosed [simp]: "tclosed (snd (Encode t m)) = tclosed t"
  by (simp add: Encode_wire)

lemma Encode_tclosedD: "Encode t m = (e, t') \<Longrightarrow> tclosed t' = tclosed t"
  using Encode_tclosed [of t m] by simp

lemma Encode_tinD: "Encode t m = (e, t') \<Longrightarrow> tin t' = tin t"
  using Encode_tin [of t m] by simp

section \<open>Properties\<close>

text \<open>
  Marshalling a message never panics, and decoding the packet gives the message back, for
  every message of the seven types.
\<close>

theorem marshal_decode_roundtrip: "\<exists>b. MarshalMux m = Some b \<and> decode b = Ok m"
  by (rule exI [of _ "wire m"]) simp

text \<open>
  C18: A stream of packets, marshalled one after the other and read from a \<open>bytes.Buffer\<close>, is
  decoded into the same messages in the same order, and what follows it is left unread.
\<close>

theorem packet_stream_roundtrip:
  assumes "list_all wf_msg ms"
  shows "decode_seq bytesbuf_read (length ms) (concat (map (the \<circ> MarshalMux) ms) @ rest)
    = Some (ms, rest)"
proof -
  have "the \<circ> MarshalMux = wire" by (simp add: fun_eq_iff)
  then show ?thesis
    using bytesbuf.decode_seq_wires [of "concat (map wire ms) @ rest" ms rest] assms by simp
qed

theorem packet_stream_roundtrip_witness:
  "decode_seq bytesbuf_read 2
     (concat (map (the \<circ> MarshalMux) [DataMessage 10 2 [72, 105], EOFMessage 10]) @ [7])
   = Some ([DataMessage 10 2 [72, 105], EOFMessage 10], [7])"
proof -
  have "list_all wf_msg [DataMessage 10 2 [72, 105], EOFMessage 10]" by simp
  from packet_stream_roundtrip [OF this, of "[7]"] show ?thesis
    by (simp only: list.size add_0 add_Suc_right add_0_right numeral_2_eq_2)
qed

text \<open>
  C23: Whatever a connection delivers, in whatever pieces, the decoder returns a message or an
  error: no slice or index expression of \<open>readPacket\<close>, \<open>decode\<close> or an \<open>UnmarshalMux\<close> is out of
  range, and a data message it returns has as many bytes as its length field says.
\<close>

theorem decoder_total:
  "(\<exists>m. fst (Decode transport_read t) = Ok m \<and> wf_msg m) \<or> (\<exists>e. fst (Decode transport_read t) = Err e)"
proof (cases "Decode transport_read t")
  case (Pair res t')
  with conn.Decode_never_panics [of t] conn.Decode_wf [of t _ t'] show ?thesis
    by (cases res) auto
qed

text \<open>
  C39: \<open>readPacket\<close> ignores how many bytes a \<open>Read\<close> stored.  When the network hands over a close
  packet in two pieces, the decoder takes the missing bytes of the channel id for zeros, returns a
  close of another channel, and leaves the rest of the packet to be read as the next one.
\<close>

theorem split_packet_misread:
  assumes "0 < k" "k < 4"
  shows "Decode stream_read
      \<lparr>chunks = [[msgChannelClose], take k (be32 cid), drop k (be32 cid)], final = EOF\<rparr>
    = (Ok (CloseMessage (the (get_be32 (take k (be32 cid) @ replicate (4 - k) 0)))),
       \<lparr>chunks = [drop k (be32 cid)], final = EOF\<rparr>)"
proof -
  have k: "length (take k (be32 cid)) = k" "4 - k + k = 4" using assms by auto
  have "length (take k (be32 cid) @ replicate (4 - k) 0) = 4" using k by simp
  then obtain v where v: "take k (be32 cid) @ replicate (4 - k) 0 = be32 v"
    using be32_surj by blast
  have 1: "read_into stream_read
      \<lparr>chunks = [[msgChannelClose], take k (be32 cid), drop k (be32 cid)], final = EOF\<rparr> 1
    = ([msgChannelClose], None, \<lparr>chunks = [take k (be32 cid), drop k (be32 cid)], final = EOF\<rparr>)"
    by (simp add: read_into_def stream_read_def make_bytes_def)
  have 2: "read_into stream_read \<lparr>chunks = [take k (be32 cid), drop k (be32 cid)], final = EOF\<rparr> 4
    = (be32 v, None, \<lparr>chunks = [drop k (be32 cid)], final = EOF\<rparr>)"
    using assms k by (simp add: read_into_def stream_read_def make_bytes_def v [symmetric])
  have "decode (msgChannelClose # be32 v) = Ok (CloseMessage v)"
    using decode_wire [of "CloseMessage v"] by simp
  then show ?thesis
    unfolding v using 1 2 by (simp add: Decode_def readPacket_def get_at_def del: One_nat_def)
qed

theorem split_packet_misread_witness:
  "fst (Decode stream_read
      \<lparr>chunks = [[msgChannelClose], take 3 (be32 10), drop 3 (be32 10)], final = EOF\<rparr>)
   = Ok (CloseMessage 0)"
  using split_packet_misread [of 3 10] by (simp add: be32_def)

end
