(* ===== verification/Window.thy ===== *)
theory Window
  imports GoBase
begin

text \<open>
  The send window of a channel (session/util_window.go): the credit the peer has granted, the
  writers that wait for it, and whether the channel is closed.  A method that can park its
  goroutine in \<open>Cond.Wait\<close> is split at that point: \<open>reserve\<close> returns \<open>None\<close> when it parks, and
  \<open>reserve_wake\<close> is what a parked goroutine does when it is woken.  The second half runs any
  number of goroutines against one window as a step relation.
\<close>

section \<open>The operations\<close>

record window =
  win :: u32
  writeWaiters :: int
  wclosed :: bool

definition new_window :: window where
  "new_window = \<lparr>win = 0, writeWaiters = 0, wclosed = False\<rparr>"

text \<open>\<open>add\<close> refuses credit that would wrap the 32-bit window around.\<close>

definition window_add :: "window \<Rightarrow> u32 \<Rightarrow> bool \<times> window" where
  "window_add w n =
     (if n = 0 then (True, w)
      else if win w + n < n then (False, w)
      else (True, w\<lparr>win := win w + n\<rparr>))"

definition window_close :: "window \<Rightarrow> window" where
  "window_close w = w\<lparr>wclosed := True\<rparr>"

text \<open>
  \<open>reserve\<close>: count the waiter, wait while the window is empty and open, then take at most what
  there is.  A closed window reports \<open>io.EOF\<close> beside the amount it took.
\<close>

definition reserve_waits :: "window \<Rightarrow> bool" where
  "reserve_waits w \<longleftrightarrow> win w = 0 \<and> \<not> wclosed w"

definition reserve_take :: "window \<Rightarrow> u32 \<Rightarrow> (u32 \<times> go_error option) \<times> window" where
  "reserve_take w n =
     (let w1 = w\<lparr>writeWaiters := writeWaiters w - 1\<rparr>;
          n' = (if win w1 < n then win w1 else n);
          w2 = w1\<lparr>win := win w1 - n'\<rparr>;
          err = (if wclosed w2 then Some EOF else None)
      in ((n', err), w2))"

definition reserve_wake :: "window \<Rightarrow> u32 \<Rightarrow> (u32 \<times> go_error option) option \<times> window" where
  "reserve_wake w n =
     (if reserve_waits w then (None, w)
      else case reserve_take w n of (r, w') \<Rightarrow> (Some r, w'))"

definition reserve :: "window \<Rightarrow> u32 \<Rightarrow> (u32 \<times> go_error option) option \<times> window" where
  "reserve w n = reserve_wake (w\<lparr>writeWaiters := writeWaiters w + 1\<rparr>) n"

text \<open>\<open>waitWriterBlocked\<close> (used by tests) returns as soon as this holds.\<close>

definition writer_blocked :: "window \<Rightarrow> bool" where
  "writer_blocked w \<longleftrightarrow> writeWaiters w \<noteq> 0"

section \<open>Each operation\<close>

lemma wraps_iff: "(a :: u32) + n < n \<longleftrightarrow> 2 ^ 32 \<le> unat a + unat n"
  using u32_lt [of a] u32_lt [of n]
  by (auto simp: word_less_nat_alt unat_word_ariths mod_if)

lemma unat_add_exact: "unat (a :: u32) + unat n < 2 ^ 32 \<Longrightarrow> unat (a + n) = unat a + unat n"
  by (simp add: unat_word_ariths)

lemma unat_sub_exact: "(n :: u32) \<le> a \<Longrightarrow> unat (a - n) = unat a - unat n"
  by (rule unat_sub)

lemma window_add_True:
  "fst (window_add w n) \<longleftrightarrow> unat (win w) + unat n < 2 ^ 32"
  using u32_lt [of "win w"] by (auto simp: window_add_def wraps_iff)

lemma window_add_win:
  "unat (win (snd (window_add w n))) =
     (if fst (window_add w n) then unat (win w) + unat n else unat (win w))"
  using u32_lt [of "win w"] by (auto simp: window_add_def wraps_iff unat_add_exact)

lemma window_add_frame [simp]:
  "wclosed (snd (window_add w n)) = wclosed w"
  "writeWaiters (snd (window_add w n)) = writeWaiters w"
  by (simp_all add: window_add_def)

lemma window_add_refused: "\<not> fst (window_add w n) \<Longrightarrow> snd (window_add w n) = w"
  by (simp add: window_add_def split: if_splits)

lemma reserve_take_grant:
  assumes "reserve_take w n = ((k, err), w')"
  shows "unat k = min (unat n) (unat (win w)) \<and> unat (win w') = unat (win w) - unat k
    \<and> wclosed w' = wclosed w \<and> err = (if wclosed w then Some EOF else None)
    \<and> writeWaiters w' = writeWaiters w - 1"
  using assms
  by (auto simp: reserve_take_def Let_def word_less_nat_alt word_le_nat_alt unat_sub not_less
      split: if_splits)

lemma reserve_parks: "fst (reserve w n) = None \<longleftrightarrow> win w = 0 \<and> \<not> wclosed w"
  by (auto simp: reserve_def reserve_wake_def reserve_waits_def split: prod.splits)

lemma reserve_parked:
  "reserve w n = (None, w') \<Longrightarrow> w' = w\<lparr>writeWaiters := writeWaiters w + 1\<rparr>"
  by (auto simp: reserve_def reserve_wake_def split: if_splits prod.splits)

lemma reserve_grant:
  assumes "reserve w n = (Some (k, err), w')"
  shows "unat k = min (unat n) (unat (win w)) \<and> unat (win w') = unat (win w) - unat k
    \<and> wclosed w' = wclosed w \<and> err = (if wclosed w then Some EOF else None)
    \<and> writeWaiters w' = writeWaiters w \<and> (wclosed w \<or> win w \<noteq> 0)"
  using assms
  by (auto simp: reserve_def reserve_wake_def reserve_waits_def dest: reserve_take_grant
      split: if_splits prod.splits)

section \<open>Many goroutines on one window\<close>

text \<open>
  The state of a window together with the goroutines parked in \<open>reserve\<close> (and what each asked
  for), the total credit added and the total credit handed to writers.  A parked goroutine may be
  woken at any time (\<open>Broadcast\<close>, or spuriously); it parks again when there is still nothing.
\<close>

record window_sys =
  wsys :: window
  parked :: "nat \<rightharpoonup> u32"
  added :: nat
  granted :: nat

definition window_sys_init :: window_sys where
  "window_sys_init = \<lparr>wsys = new_window, parked = Map.empty, added = 0, granted = 0\<rparr>"

inductive window_step :: "window_sys \<Rightarrow> window_sys \<Rightarrow> bool" where
  grow: "window_add (wsys s) n = (True, w') \<Longrightarrow>
     window_step s (s\<lparr>wsys := w', added := added s + unat n\<rparr>)"
| refuse: "window_add (wsys s) n = (False, w') \<Longrightarrow> window_step s (s\<lparr>wsys := w'\<rparr>)"
| shut: "window_step s (s\<lparr>wsys := window_close (wsys s)\<rparr>)"
| park: "parked s i = None \<Longrightarrow> reserve (wsys s) n = (None, w') \<Longrightarrow>
     window_step s (s\<lparr>wsys := w', parked := (parked s)(i \<mapsto> n)\<rparr>)"
| grant: "parked s i = None \<Longrightarrow> reserve (wsys s) n = (Some (k, err), w') \<Longrightarrow>
     window_step s (s\<lparr>wsys := w', granted := granted s + unat k\<rparr>)"
| wake: "parked s i = Some n \<Longrightarrow> reserve_wake (wsys s) n = (Some (k, err), w') \<Longrightarrow>
     window_step s (s\<lparr>wsys := w', parked := (parked s)(i := None), granted := granted s + unat k\<rparr>)"

inductive window_reachable :: "window_sys \<Rightarrow> bool" where
  init: "window_reachable window_sys_init"
| step: "window_reachable s \<Longrightarrow> window_step s t \<Longrightarrow> window_reachable t"

definition window_inv :: "window_sys \<Rightarrow> bool" where
  "window_inv s \<longleftrightarrow>
     granted s + unat (win (wsys s)) = added s \<and> finite (dom (parked s))
       \<and> writeWaiters (wsys s) = int (card (dom (parked s)))"

lemma reserve_wake_grant:
  assumes "reserve_wake w n = (Some (k, err), w')"
  shows "unat k = min (unat n) (unat (win w)) \<and> unat (win w') = unat (win w) - unat k
    \<and> writeWaiters w' = writeWaiters w - 1"
  using assms
  by (auto simp: reserve_wake_def dest: reserve_take_grant split: if_splits prod.splits)

lemma window_inv_init: "window_inv window_sys_init"
  by (simp add: window_inv_def window_sys_init_def new_window_def)

lemma window_step_inv: "window_step s t \<Longrightarrow> window_inv s \<Longrightarrow> window_inv t"
proof (induction rule: window_step.induct)
  case (grow s n w')
  then show ?case
    using window_add_win [of "wsys s" n] window_add_frame(2) [of "wsys s" n]
    by (auto simp: window_inv_def)
next
  case (refuse s n w')
  then show ?case
    using window_add_refused [of "wsys s" n] by (auto simp: window_inv_def)
next
  case (shut s)
  then show ?case by (simp add: window_inv_def window_close_def)
next
  case (park s i n w')
  then show ?case
    using reserve_parked [OF park(2)] by (auto simp: window_inv_def domIff)
next
  case (grant s i n k err w')
  then show ?case
    using reserve_grant [OF grant(2)] by (auto simp: window_inv_def)
next
  case (wake s i n k err w')
  have "i \<in> dom (parked s)" using wake(1) by blast
  moreover from this wake have "0 < card (dom (parked s))"
    by (auto simp: window_inv_def card_gt_0_iff)
  ultimately show ?case
    using wake reserve_wake_grant [OF wake(2)]
    by (auto simp: window_inv_def card_Diff_singleton)
qed

lemma window_reachable_inv: "window_reachable s \<Longrightarrow> window_inv s"
  by (induction rule: window_reachable.induct) (auto intro: window_inv_init window_step_inv)

section \<open>Properties\<close>

text \<open>
  \<open>add\<close> accepts credit exactly when the sum fits in 32 bits, and then the window is the sum;
  otherwise it reports failure and leaves the window alone.  It never wraps around.
\<close>

theorem window_add_exact:
  "(fst (window_add w n) \<longleftrightarrow> unat (win w) + unat n < 2 ^ 32) \<and>
   unat (win (snd (window_add w n))) =
     (if unat (win w) + unat n < 2 ^ 32 then unat (win w) + unat n else unat (win w))"
  using window_add_True window_add_win by simp

text \<open>
  However many goroutines reserve, wait, are woken, add and close in whatever order, the
  credit handed out and the credit left add up to the credit added, and \<open>writeWaiters\<close> is the
  number of goroutines parked in \<open>reserve\<close>.
\<close>

theorem window_credit_conserved:
  assumes "window_reachable s"
  shows "granted s + unat (win (wsys s)) = added s
    \<and> writeWaiters (wsys s) = int (card (dom (parked s)))"
  using window_reachable_inv [OF assms] by (simp add: window_inv_def)

lemma window_run_example:
  "window_reachable (window_sys_init\<lparr>wsys := new_window\<lparr>win := 5\<rparr>, added := 5\<rparr>)"
proof (rule window_reachable.step [OF window_reachable.init])
  have "window_add (wsys window_sys_init) 5 = (True, new_window\<lparr>win := 5\<rparr>)"
    by (simp add: window_add_def window_sys_init_def new_window_def)
  from window_step.grow [OF this]
  show "window_step window_sys_init (window_sys_init\<lparr>wsys := new_window\<lparr>win := 5\<rparr>, added := 5\<rparr>)"
    by (simp add: window_sys_init_def)
qed

theorem window_credit_conserved_witness:
  "granted (window_sys_init\<lparr>wsys := new_window\<lparr>win := 5\<rparr>, added := 5\<rparr>) + unat (5 :: u32) = 5"
  using window_credit_conserved [OF window_run_example] by simp

end
