(* ===== verification/SessBuffer.thy ===== *)
theory SessBuffer
  imports GoIO
begin

text \<open>
  The receive buffer of a channel (session/util_buffer.go): a linked list of byte slices between
  \<open>head\<close> and \<open>tail\<close>, filled by \<open>write\<close> at the tail and drained by \<open>Read\<close> at the head.  The
  list from \<open>head\<close> to \<open>tail\<close> is the head element's slice and the slices after it, so
  \<open>head != tail\<close> is \<open>brest \<noteq> []\<close>.  The locale \<open>byte_queue\<close> is the contract the channel relies on
  and the interpretation at the end discharges it.
\<close>

section \<open>The operations\<close>

record buffer =
  bhead :: bytes
  brest :: "bytes list"
  bclosed :: bool

definition newBuffer :: buffer where
  "newBuffer = \<lparr>bhead = [], brest = [], bclosed = False\<rparr>"

definition buffer_write :: "buffer \<Rightarrow> bytes \<Rightarrow> buffer" where
  "buffer_write b buf = b\<lparr>brest := brest b @ [buf]\<rparr>"

definition buffer_eof :: "buffer \<Rightarrow> buffer" where
  "buffer_eof b = b\<lparr>bclosed := True\<rparr>"

text \<open>
  The loop of \<open>Read\<close>, with the number of bytes still wanted and the bytes copied so far.  It
  returns \<open>None\<close> where the goroutine parks in \<open>Cond.Wait\<close>; a woken reader runs the loop again.
\<close>

function read_loop :: "nat \<Rightarrow> bytes \<Rightarrow> buffer \<Rightarrow> (bytes \<times> go_error option) option \<times> buffer" where
  "read_loop m acc b =
     (if m = 0 then (Some (acc, None), b)
      else if bhead b \<noteq> [] then
        let r = min m (length (bhead b))
        in read_loop (m - r) (acc @ take r (bhead b)) (b\<lparr>bhead := drop r (bhead b)\<rparr>)
      else if brest b \<noteq> [] then
        read_loop m acc (b\<lparr>bhead := hd (brest b), brest := tl (brest b)\<rparr>)
      else if acc \<noteq> [] then (Some (acc, None), b)
      else if bclosed b then (Some ([], Some EOF), b)
      else (None, b))"
  by pat_completeness auto
termination
  by (relation "measure (\<lambda>(m, acc, b). m + length (brest b))") auto

declare read_loop.simps [simp del]

definition buffer_read :: "buffer \<Rightarrow> nat \<Rightarrow> (bytes \<times> go_error option) option \<times> buffer" where
  "buffer_read b n = read_loop n [] b"

section \<open>The buffer as a queue of bytes\<close>

definition buffer_content :: "buffer \<Rightarrow> bytes" where
  "buffer_content b = bhead b @ concat (brest b)"

lemma content_newBuffer [simp]: "buffer_content newBuffer = []"
  by (simp add: buffer_content_def newBuffer_def)

lemma closed_newBuffer [simp]: "bclosed newBuffer = False"
  by (simp add: newBuffer_def)

lemma content_write [simp]: "buffer_content (buffer_write b buf) = buffer_content b @ buf"
  by (simp add: buffer_content_def buffer_write_def)

lemma closed_write [simp]: "bclosed (buffer_write b buf) = bclosed b"
  by (simp add: buffer_write_def)

lemma content_eof [simp]: "buffer_content (buffer_eof b) = buffer_content b"
  by (simp add: buffer_content_def buffer_eof_def)

lemma closed_eof [simp]: "bclosed (buffer_eof b) = True"
  by (simp add: buffer_eof_def)

text \<open>What the loop returns, as a take from the queue of bytes.\<close>

definition drained :: "nat \<Rightarrow> bytes \<Rightarrow> bytes \<Rightarrow> bool \<Rightarrow> (bytes \<times> go_error option) option" where
  "drained m acc c cl =
     (if m = 0 \<or> acc \<noteq> [] \<or> c \<noteq> [] then Some (acc @ take m c, None)
      else if cl then Some ([], Some EOF) else None)"

lemma drained_step: "r \<le> m \<Longrightarrow> x \<noteq> [] \<Longrightarrow> r = length x \<Longrightarrow>
    drained (m - r) (acc @ x) c cl = drained m acc (x @ c) cl"
  by (auto simp: drained_def)

lemma read_loop_spec:
  "fst (read_loop m acc b) = drained m acc (buffer_content b) (bclosed b)
     \<and> buffer_content (snd (read_loop m acc b)) = drop m (buffer_content b)
     \<and> bclosed (snd (read_loop m acc b)) = bclosed b"
proof (induction m acc b rule: read_loop.induct)
  case (1 m acc b)
  consider (zero) "m = 0"
    | (data) "m \<noteq> 0" "bhead b \<noteq> []"
    | (nxt) "m \<noteq> 0" "bhead b = []" "brest b \<noteq> []"
    | (out) "m \<noteq> 0" "bhead b = []" "brest b = []"
    by blast
  then show ?case
  proof cases
    case zero
    then show ?thesis by (simp add: read_loop.simps drained_def)
  next
    case data
    define r where "r = min m (length (bhead b))"
    let ?b = "b\<lparr>bhead := drop r (bhead b)\<rparr>"
    have unf: "read_loop m acc b = read_loop (m - r) (acc @ take r (bhead b)) ?b"
      using data by (subst read_loop.simps) (simp add: r_def Let_def)
    have c: "buffer_content b = take r (bhead b) @ buffer_content ?b"
      by (simp add: buffer_content_def)
    have x: "take r (bhead b) \<noteq> []" "r = length (take r (bhead b))" "r \<le> m"
      using data by (auto simp: r_def)
    show ?thesis
      using "1.IH"(1) [OF data r_def] x c unf
        drained_step [OF x(3) x(1) x(2), of acc "buffer_content ?b" "bclosed b"]
      by simp
  next
    case nxt
    let ?b = "b\<lparr>bhead := hd (brest b), brest := tl (brest b)\<rparr>"
    have unf: "read_loop m acc b = read_loop m acc ?b"
      using nxt by (subst read_loop.simps) simp
    have c: "buffer_content ?b = buffer_content b"
      using nxt by (cases "brest b") (simp_all add: buffer_content_def)
    show ?thesis
      using "1.IH"(2) [OF nxt(1) _ nxt(3)] nxt(2) unf c by simp
  next
    case out
    then show ?thesis
      by (simp add: read_loop.simps drained_def buffer_content_def)
  qed
qed

lemma buffer_read_result:
  "fst (buffer_read b n) =
     (if n = 0 then Some ([], None)
      else if buffer_content b \<noteq> [] then Some (take n (buffer_content b), None)
      else if bclosed b then Some ([], Some EOF) else None)"
  by (simp add: buffer_read_def read_loop_spec drained_def)

lemma buffer_read_state:
  "bclosed (snd (buffer_read b n)) = bclosed b"
  "buffer_content (snd (buffer_read b n)) = drop n (buffer_content b)"
  by (simp_all add: buffer_read_def read_loop_spec)

section \<open>The contract\<close>

text \<open>
  What the channel needs of its receive buffer: bytes come out in the order they went in, a reader
  is parked only on an open empty queue, and the end is reported only when everything is read.
\<close>

locale byte_queue =
  fixes put :: "'q \<Rightarrow> bytes \<Rightarrow> 'q"
    and shut :: "'q \<Rightarrow> 'q"
    and get :: "'q \<Rightarrow> nat \<Rightarrow> (bytes \<times> go_error option) option \<times> 'q"
    and items :: "'q \<Rightarrow> bytes"
    and is_shut :: "'q \<Rightarrow> bool"
  assumes items_put: "items (put q bs) = items q @ bs"
    and shut_put: "is_shut (put q bs) = is_shut q"
    and items_shut: "items (shut q) = items q"
    and shut_shut: "is_shut (shut q)"
    and get_result: "fst (get q n) =
      (if n = 0 then Some ([], None)
       else if items q \<noteq> [] then Some (take n (items q), None)
       else if is_shut q then Some ([], Some EOF) else None)"
    and get_items: "items (snd (get q n)) = drop n (items q)"
    and get_shut: "is_shut (snd (get q n)) = is_shut q"
begin

lemma get_data: "get q n = (Some (bs, e), q') \<Longrightarrow> items q = bs @ items q'"
  using get_result [of q n] get_items [of q n] by (auto split: if_splits)

lemma get_length: "get q n = (Some (bs, e), q') \<Longrightarrow> length bs \<le> n"
  using get_result [of q n] by (auto split: if_splits)

lemma get_parks: "fst (get q n) = None \<longleftrightarrow> 0 < n \<and> items q = [] \<and> \<not> is_shut q"
  by (simp add: get_result)

lemma get_eof: "get q n = (Some (bs, Some e), q') \<Longrightarrow> e = EOF \<and> bs = [] \<and> items q = [] \<and> is_shut q"
  using get_result [of q n] by (auto split: if_splits)

lemma get_progress: "items q \<noteq> [] \<Longrightarrow> 0 < n \<Longrightarrow> \<exists>bs q'. get q n = (Some (bs, None), q') \<and> bs \<noteq> []"
  using get_result [of q n] by (cases "get q n") auto

text \<open>Any writes followed by enough reads give the written bytes in order.\<close>

lemma items_puts: "items (fold (\<lambda>bs q. put q bs) bss q) = items q @ concat bss"
  by (induction bss arbitrary: q) (simp_all add: items_put)

end

interpretation rbuf: byte_queue buffer_write buffer_eof buffer_read buffer_content bclosed
  by unfold_locales (simp_all add: buffer_read_result buffer_read_state)

section \<open>Properties\<close>

text \<open>
  The linked list behaves as one queue of bytes: \<open>Read\<close> with room for \<open>n > 0\<close> bytes returns
  the first \<open>n\<close> bytes of it (or all, if there are fewer), across element borders, and removes
  exactly those; on an empty queue it reports \<open>io.EOF\<close> if the buffer is closed and parks if not.
\<close>

theorem buffer_read_is_queue_take:
  "fst (buffer_read b n) =
     (if n = 0 then Some ([], None)
      else if buffer_content b \<noteq> [] then Some (take n (buffer_content b), None)
      else if bclosed b then Some ([], Some EOF) else None)
   \<and> buffer_content (snd (buffer_read b n)) = drop n (buffer_content b)
   \<and> bclosed (snd (buffer_read b n)) = bclosed b"
  by (simp add: rbuf.get_result rbuf.get_items rbuf.get_shut)

end
