(* ===== verification/Channel.thy ===== *)
theory Channel
  imports Codec Window SessBuffer
begin

text \<open>
  A channel of a session (session/channel.go, session/util.go): its record and the methods that
  act on the channel and the session's encoder only.  The encoder writes to the session's
  transport, which every method takes and returns.  A method that parks its goroutine returns
  \<open>None\<close> (or \<open>WPark\<close>) with the state it has reached; the methods that also touch the session's
  channel table are in \<open>Session\<close>.
\<close>

section \<open>The record\<close>

datatype channelDirection = channelInbound | channelOutbound

record channel =
  localId :: u32
  remoteId :: u32
  maxIncomingPayload :: u32
  maxRemotePayload :: u32
  direction :: channelDirection
  msgs :: "message gochan"
  sentEOF :: bool
  remoteWin :: window
  pending :: buffer
  myWindow :: u32
  sentClose :: bool
  packetBuf :: bytes

text \<open>\<open>min\<close> of util.go: its second argument, an int, is converted to \<open>uint32\<close> before comparing.\<close>

definition min32 :: "u32 \<Rightarrow> nat \<Rightarrow> u32" where
  "min32 a b = (if a < of_nat b then a else of_nat b)"

section \<open>Sending control messages\<close>

text \<open>\<open>send\<close>: nothing after a close has been sent.\<close>

definition ch_send :: "channel \<Rightarrow> message \<Rightarrow> transport \<Rightarrow> go_error option \<times> channel \<times> transport" where
  "ch_send ch m t =
     (if sentClose ch then (Some EOF, ch, t)
      else
        let ch' = (case m of CloseMessage _ \<Rightarrow> ch\<lparr>sentClose := True\<rparr> | _ \<Rightarrow> ch)
        in case Encode t m of (e, t') \<Rightarrow> (e, ch', t'))"

definition CloseWrite :: "channel \<Rightarrow> transport \<Rightarrow> go_error option \<times> channel \<times> transport" where
  "CloseWrite ch t =
     (let ch' = ch\<lparr>sentEOF := True\<rparr> in ch_send ch' (EOFMessage (remoteId ch')) t)"

definition ch_Close :: "channel \<Rightarrow> transport \<Rightarrow> go_error option \<times> channel \<times> transport" where
  "ch_Close ch t = ch_send ch (CloseMessage (remoteId ch)) t"

text \<open>
  \<open>adjustWindow\<close>: give the credit back to our own window under \<open>windowMu\<close>, then tell the peer.
\<close>

definition adjust_credit :: "channel \<Rightarrow> u32 \<Rightarrow> channel" where
  "adjust_credit ch n = ch\<lparr>myWindow := myWindow ch + n\<rparr>"

definition adjustWindow ::
    "channel \<Rightarrow> u32 \<Rightarrow> transport \<Rightarrow> go_error option \<times> channel \<times> transport" where
  "adjustWindow ch n t =
     (let ch' = adjust_credit ch n
      in ch_send ch' (WindowAdjustMessage (remoteId ch') n) t)"

section \<open>Reading\<close>

definition ch_Read ::
    "channel \<Rightarrow> nat \<Rightarrow> transport \<Rightarrow> (bytes \<times> go_error option) option \<times> channel \<times> transport" where
  "ch_Read ch n t =
     (case buffer_read (pending ch) n of
        (None, b) \<Rightarrow> (None, ch\<lparr>pending := b\<rparr>, t)
      | (Some (bs, err), b) \<Rightarrow>
          let ch1 = ch\<lparr>pending := b\<rparr> in
          if 0 < length bs then
            (case adjustWindow ch1 (of_nat (length bs)) t of
               (e, ch2, t2) \<Rightarrow> (Some (bs, if e = Some EOF then None else e), ch2, t2))
          else (Some (bs, err), ch1, t))"

section \<open>Writing\<close>

text \<open>
  One iteration of the loop of \<open>Write\<close>: reserve credit for at most \<open>maxRemotePayload\<close> bytes, send
  that much.  \<open>WPanic\<close> is the slice expression \<open>data[:space]\<close> out of range.
\<close>

datatype write_state =
    WContinue bytes nat
  | WReturn nat "go_error option"
  | WPark bytes nat
  | WPanic

definition write_iter ::
    "bytes \<Rightarrow> nat \<Rightarrow> channel \<Rightarrow> transport \<Rightarrow> write_state \<times> channel \<times> transport" where
  "write_iter data n ch t =
     (let space = min32 (maxRemotePayload ch) (length data) in
      case reserve (remoteWin ch) space of
        (None, w) \<Rightarrow> (WPark data n, ch\<lparr>remoteWin := w\<rparr>, t)
      | (Some (space, err), w) \<Rightarrow>
          let ch' = ch\<lparr>remoteWin := w\<rparr> in
          (case err of
             Some e \<Rightarrow> (WReturn n (Some e), ch', t)
           | None \<Rightarrow>
               (case slice_of data 0 (unat space) of
                  None \<Rightarrow> (WPanic, ch', t)
                | Some toSend \<Rightarrow>
                    (case Encode t (DataMessage (remoteId ch') (of_nat (length toSend)) toSend) of
                       (Some e, t') \<Rightarrow> (WReturn n (Some e), ch', t')
                     | (None, t') \<Rightarrow>
                         (WContinue (drop (length toSend) data) (n + length toSend), ch', t')))))"

partial_function (option) write_loop ::
    "bytes \<Rightarrow> nat \<Rightarrow> channel \<Rightarrow> transport \<Rightarrow> (write_state \<times> channel \<times> transport) option" where
  "write_loop data n ch t =
     (if data = [] then Some (WReturn n None, ch, t)
      else case write_iter data n ch t of (r, ch', t') \<Rightarrow>
        (case r of
           WContinue data' n' \<Rightarrow> write_loop data' n' ch' t'
         | WReturn n' e \<Rightarrow> Some (WReturn n' e, ch', t')
         | WPark data' n' \<Rightarrow> Some (WPark data' n', ch', t')
         | WPanic \<Rightarrow> Some (WPanic, ch', t')))"

definition ch_Write ::
    "channel \<Rightarrow> bytes \<Rightarrow> transport \<Rightarrow> (write_state \<times> channel \<times> transport) option" where
  "ch_Write ch data t =
     (if sentEOF ch then Some (WReturn 0 (Some EOF), ch, t) else write_loop data 0 ch t)"

section \<open>Closing and receiving\<close>

text \<open>The internal \<open>close\<close>; closing \<open>msg\<close> a second time panics.\<close>

definition ch_close :: "channel \<Rightarrow> channel option" where
  "ch_close ch =
     do { let ch = ch\<lparr>pending := buffer_eof (pending ch)\<rparr>;
          q \<leftarrow> chan_close (msgs ch);
          let ch = ch\<lparr>msgs := q, sentClose := True\<rparr>;
          Some (ch\<lparr>remoteWin := window_close (remoteWin ch)\<rparr>) }"

definition responseMessageReceived :: "channel \<Rightarrow> go_error option" where
  "responseMessageReceived ch =
     (if direction ch = channelInbound
      then Some (Errorf ''qmux: channel response message received on inbound channel'')
      else None)"

definition handleData :: "channel \<Rightarrow> u32 \<Rightarrow> bytes \<Rightarrow> go_error option \<times> channel" where
  "handleData ch len data =
     (if len > maxIncomingPayload ch
      then (Some (Errorf ''qmux: incoming packet exceeds maximum payload size''), ch)
      else if len \<noteq> of_nat (length data)
      then (Some (Errorf ''qmux: wrong packet length''), ch)
      else if myWindow ch < len
      then (Some (Errorf ''qmux: remote side wrote too much''), ch)
      else (None, ch\<lparr>myWindow := myWindow ch - len, pending := buffer_write (pending ch) data\<rparr>))"

text \<open>
  The branches of \<open>handle\<close> that carry the byte stream of an open channel and touch nothing but the
  channel; \<open>None\<close> for the other messages.
\<close>

fun handle_stream :: "channel \<Rightarrow> message \<Rightarrow> (go_error option \<times> channel) option" where
  "handle_stream ch (DataMessage cid len data) = Some (handleData ch len data)"
| "handle_stream ch (EOFMessage cid) = Some (None, ch\<lparr>pending := buffer_eof (pending ch)\<rparr>)"
| "handle_stream ch (WindowAdjustMessage cid n) =
     (case window_add (remoteWin ch) n of
        (ok, w) \<Rightarrow> Some
          (if ok then None
           else Some (Errorf (''qmux: invalid window update for '' @ u32_string n @ '' bytes'')),
           ch\<lparr>remoteWin := w\<rparr>))"
| "handle_stream ch _ = None"

section \<open>Control messages\<close>

lemma min32_eq: "b < 2 ^ 32 \<Longrightarrow> unat (min32 a b) = min (unat a) b"
  by (auto simp: min32_def word_less_nat_alt unat_of_nat)

lemma min32_le: "unat (min32 a b) \<le> b"
  using mod_less_eq_dividend [of b "2 ^ 32"]
  by (auto simp: min32_def word_less_nat_alt unat_of_nat)

lemma send_after_close: "sentClose ch \<Longrightarrow> ch_send ch m t = (Some EOF, ch, t)"
  by (simp add: ch_send_def)

lemma send_open:
  "\<not> sentClose ch \<Longrightarrow> ch_send ch m t =
     (fst (Encode t m), if is_CloseMessage m then ch\<lparr>sentClose := True\<rparr> else ch,
      snd (Encode t m))"
  by (cases m) (simp_all add: ch_send_def split_beta)

lemma ch_send_eq:
  "ch_send ch m t =
     (if sentClose ch then (Some EOF, ch, t)
      else (fst (Encode t m), if is_CloseMessage m then ch\<lparr>sentClose := True\<rparr> else ch,
            snd (Encode t m)))"
  by (simp add: send_after_close send_open)

lemma send_tin [simp]: "tin (snd (snd (ch_send ch m t))) = tin t"
  by (simp add: ch_send_eq)

lemma Close_sentClose: "ch_Close ch t = (e, ch', t') \<Longrightarrow> sentClose ch'"
  by (auto simp: ch_Close_def ch_send_eq split: if_splits)

text \<open>
  What \<open>ch_send\<close> may change in the channel: only \<open>sentClose\<close>.
\<close>

lemma send_channel:
  "fst (snd (ch_send ch m t)) = ch \<or> fst (snd (ch_send ch m t)) = ch\<lparr>sentClose := True\<rparr>"
  by (simp add: ch_send_eq)

section \<open>Receiving\<close>

lemma handleData_ok_iff:
  "fst (handleData ch len data) = None \<longleftrightarrow>
     len \<le> maxIncomingPayload ch \<and> len = of_nat (length data) \<and> len \<le> myWindow ch"
  by (auto simp: handleData_def)

lemma handleData_ok:
  "handleData ch len data = (None, ch') \<Longrightarrow>
     ch' = ch\<lparr>myWindow := myWindow ch - len, pending := buffer_write (pending ch) data\<rparr>
       \<and> unat (myWindow ch') = unat (myWindow ch) - unat len \<and> unat len \<le> unat (myWindow ch)"
  by (auto simp: handleData_def unat_sub_exact word_le_nat_alt not_less split: if_splits)

lemma handleData_error: "handleData ch len data = (Some e, ch') \<Longrightarrow> ch' = ch"
  by (auto simp: handleData_def split: if_splits)

lemma ch_close_Some: "ch_close ch \<noteq> None \<longleftrightarrow> \<not> qclosed (msgs ch)"
  by (auto simp: ch_close_def chan_close_def Let_def)

lemma ch_close_effect:
  "ch_close ch = Some ch' \<Longrightarrow>
     bclosed (pending ch') \<and> qclosed (msgs ch') \<and> sentClose ch' \<and> wclosed (remoteWin ch')
       \<and> buffer_content (pending ch') = buffer_content (pending ch)
       \<and> win (remoteWin ch') = win (remoteWin ch) \<and> myWindow ch' = myWindow ch"
  by (auto simp: ch_close_def chan_close_def window_close_def Let_def split: if_splits)

section \<open>What Write does\<close>

text \<open>The packets a list of chunks is sent as, on a transport that accepts everything.\<close>

definition data_packets :: "u32 \<Rightarrow> bytes list \<Rightarrow> bytes" where
  "data_packets rid ds = concat (map (\<lambda>d. wire (DataMessage rid (of_nat (length d)) d)) ds)"

definition free_transport :: "transport \<Rightarrow> bool" where
  "free_transport t \<longleftrightarrow> \<not> tclosed t \<and> tbudget t = None"

lemma Encode_free: "free_transport t \<Longrightarrow> Encode t m = (None, t\<lparr>tout := tout t @ wire m\<rparr>)"
  by (simp add: Encode_wire free_transport_def transport_write_unbounded)

lemma free_transport_tout [simp]: "free_transport (t\<lparr>tout := x\<rparr>) = free_transport t"
  by (simp add: free_transport_def)

lemma reserve_window:
  assumes "reserve w n = (Some (k, err), w')"
  shows "w' = w\<lparr>win := win w - k\<rparr>"
  using assms
  by (auto simp: reserve_def reserve_wake_def reserve_take_def Let_def split: if_splits)

text \<open>How much one iteration takes.\<close>

definition write_chunk :: "channel \<Rightarrow> bytes \<Rightarrow> nat" where
  "write_chunk ch data =
     min (unat (min32 (maxRemotePayload ch) (length data))) (unat (win (remoteWin ch)))"

lemma write_chunk_le: "write_chunk ch data \<le> length data"
  using min32_le [of "maxRemotePayload ch" "length data"] by (simp add: write_chunk_def)

definition took :: "channel \<Rightarrow> nat \<Rightarrow> channel" where
  "took ch k = ch\<lparr>remoteWin := (remoteWin ch)\<lparr>win := win (remoteWin ch) - of_nat k\<rparr>\<rparr>"

lemma took_simps [simp]:
  "maxRemotePayload (took ch k) = maxRemotePayload ch" "remoteId (took ch k) = remoteId ch"
  "wclosed (remoteWin (took ch k)) = wclosed (remoteWin ch)"
  "win (remoteWin (took ch k)) = win (remoteWin ch) - of_nat k"
  by (simp_all add: took_def)

lemma took_win:
  "k \<le> unat (win (remoteWin ch)) \<Longrightarrow>
     unat (win (remoteWin ch) - of_nat k) = unat (win (remoteWin ch)) - k"
proof -
  assume k: "k \<le> unat (win (remoteWin ch))"
  then have "unat (of_nat k :: u32) = k"
    using u32_lt [of "win (remoteWin ch)"] by (simp add: unat_of_nat)
  with k show ?thesis by (simp add: unat_sub word_le_nat_alt)
qed

lemma took_took: "took (took ch j) k = took ch (j + k)"
  by (simp add: took_def algebra_simps)

lemma took_0 [simp]: "took ch 0 = ch"
  by (simp add: took_def)

lemma write_iter_sends:
  assumes "\<not> wclosed (remoteWin ch)" "win (remoteWin ch) \<noteq> 0" "free_transport t"
    and "k = write_chunk ch data"
  shows "write_iter data n ch t =
    (WContinue (drop k data) (n + k), took ch k,
     t\<lparr>tout := tout t @ wire (DataMessage (remoteId ch) (of_nat k) (take k data))\<rparr>)"
proof -
  let ?w = "remoteWin ch" and ?s = "min32 (maxRemotePayload ch) (length data)"
  obtain g err w' where r: "reserve ?w ?s = (Some (g, err), w')"
    using reserve_parks [of ?w ?s] assms(1,2) by (cases "reserve ?w ?s") auto
  then have g: "unat g = k" "err = None"
    using reserve_grant [OF r] assms(1,4) by (auto simp: write_chunk_def)
  then have "g = of_nat k" by auto
  then have w': "ch\<lparr>remoteWin := w'\<rparr> = took ch k"
    using reserve_window [OF r] by (simp add: took_def)
  have "k \<le> length data" using assms(4) write_chunk_le by simp
  then show ?thesis
    using r g w' assms(3)
    by (simp add: write_iter_def Let_def Encode_free min_def)
qed

lemma write_iter_parks:
  assumes "\<not> wclosed (remoteWin ch)" "win (remoteWin ch) = 0"
  shows "\<exists>ch'. write_iter data n ch t = (WPark data n, ch', t)"
proof -
  let ?w = "remoteWin ch" and ?s = "min32 (maxRemotePayload ch) (length data)"
  have "fst (reserve ?w ?s) = None" using assms by (simp add: reserve_parks)
  then show ?thesis by (cases "reserve ?w ?s") (simp add: write_iter_def)
qed

lemma write_iter_closed:
  assumes "wclosed (remoteWin ch)"
  shows "\<exists>ch'. write_iter data n ch t = (WReturn n (Some EOF), ch', t)"
proof -
  let ?w = "remoteWin ch" and ?s = "min32 (maxRemotePayload ch) (length data)"
  obtain g err w' where r: "reserve ?w ?s = (Some (g, err), w')"
    using reserve_parks [of ?w ?s] assms by (cases "reserve ?w ?s") auto
  then show ?thesis
    using reserve_grant [OF r] assms by (simp add: write_iter_def Let_def)
qed

text \<open>
  The whole loop, alone on its channel, for data of fewer than \<open>2^32\<close> bytes: it sends as much as
  the window allows in chunks that respect the peer's packet size, and then it has either sent
  everything or is parked on an empty window with the rest.
\<close>

definition write_outcome :: "nat \<Rightarrow> bytes \<Rightarrow> nat \<Rightarrow> write_state" where
  "write_outcome n data k =
     (if k = length data then WReturn (n + k) None else WPark (drop k data) (n + k))"

lemma write_loop_result:
  assumes "length data < 2 ^ 32" "maxRemotePayload ch \<noteq> 0" "free_transport t"
    "\<not> wclosed (remoteWin ch)" "k = min (length data) (unat (win (remoteWin ch)))"
  shows "\<exists>ch' ds. write_loop data n ch t =
      Some (write_outcome n data k, ch', t\<lparr>tout := tout t @ data_packets (remoteId ch) ds\<rparr>)
    \<and> concat ds = take k data
    \<and> (\<forall>d \<in> set ds. d \<noteq> [] \<and> length d \<le> unat (maxRemotePayload ch))"
  using assms
proof (induction "length data" arbitrary: data n ch t k rule: less_induct)
  case less
  consider (empty) "data = []"
    | (park) "data \<noteq> []" "win (remoteWin ch) = 0"
    | (send) "data \<noteq> []" "win (remoteWin ch) \<noteq> 0" by blast
  then show ?case
  proof cases
    case empty
    then show ?thesis
      using less.prems(5)
      by (subst write_loop.simps)
        (auto simp: write_outcome_def data_packets_def intro!: exI [of _ "[]"])
  next
    case park
    obtain ch' where "write_iter data n ch t = (WPark data n, ch', t)"
      using write_iter_parks [OF less.prems(4) park(2)] by blast
    then show ?thesis
      using park less.prems(5)
      by (subst write_loop.simps)
        (auto simp: write_outcome_def data_packets_def intro!: exI [of _ "[]"])
  next
    case send
    define j where "j = write_chunk ch data"
    let ?d = "drop j data" and ?ch = "took ch j"
    let ?t = "t\<lparr>tout := tout t @ wire (DataMessage (remoteId ch) (of_nat j) (take j data))\<rparr>"
    have jv: "j = min (min (unat (maxRemotePayload ch)) (length data)) (unat (win (remoteWin ch)))"
      using less.prems(1) by (simp add: j_def write_chunk_def min32_eq)
    have "0 < unat (maxRemotePayload ch)" "0 < unat (win (remoteWin ch))"
      using less.prems(2) send(2) by (simp_all add: unat_gt_0)
    then have j0: "0 < j" using send(1) jv by simp
    have jd: "j \<le> length data" and jw: "j \<le> unat (win (remoteWin ch))"
      and jm: "j \<le> unat (maxRemotePayload ch)"
      using jv by auto
    have unf: "write_loop data n ch t = write_loop ?d (n + j) ?ch ?t"
      using write_iter_sends [OF less.prems(4) send(2) less.prems(3) j_def] send(1)
      by (subst write_loop.simps) simp
    have k': "k - j = min (length ?d) (unat (win (remoteWin ?ch)))"
      using less.prems(5) took_win [OF jw] by simp
    have jk: "j \<le> k" using less.prems(5) jd jw by simp
    have "\<exists>ch' ds. write_loop ?d (n + j) ?ch ?t =
          Some (write_outcome (n + j) ?d (k - j), ch',
                ?t\<lparr>tout := tout ?t @ data_packets (remoteId ?ch) ds\<rparr>)
        \<and> concat ds = take (k - j) ?d
        \<and> (\<forall>d \<in> set ds. d \<noteq> [] \<and> length d \<le> unat (maxRemotePayload ?ch))"
      by (rule less.hyps) (use less.prems j0 jd in simp_all, use k' in simp)
    then obtain ch' ds where ih: "write_loop ?d (n + j) ?ch ?t =
          Some (write_outcome (n + j) ?d (k - j), ch',
                ?t\<lparr>tout := tout ?t @ data_packets (remoteId ?ch) ds\<rparr>)"
        "concat ds = take (k - j) ?d"
        "\<forall>d \<in> set ds. d \<noteq> [] \<and> length d \<le> unat (maxRemotePayload ?ch)"
      by blast
    have out: "write_outcome (n + j) ?d (k - j) = write_outcome n data k"
      using jk jd by (auto simp: write_outcome_def)
    have "take j data @ take (k - j) ?d = take k data"
      using jk by (metis le_add_diff_inverse take_add)
    then show ?thesis
      unfolding unf
      using ih out j0 jd jm send(1)
      by (intro exI [of _ ch'] exI [of _ "take j data # ds"])
        (simp add: data_packets_def min_def)
  qed
qed

lemma write_loop_closed:
  assumes "wclosed (remoteWin ch)" "data \<noteq> []"
  shows "\<exists>ch'. write_loop data n ch t = Some (WReturn n (Some EOF), ch', t)"
proof -
  obtain ch' where "write_iter data n ch t = (WReturn n (Some EOF), ch', t)"
    using write_iter_closed [OF assms(1)] by blast
  with assms(2) show ?thesis by (subst write_loop.simps) simp
qed

text \<open>
  A write whose length is a multiple of \<open>2^32\<close> asks for zero bytes in every round: \<open>min\<close> converts
  the length to \<open>uint32\<close>.  On an open window with credit the loop then never ends.
\<close>

lemma min32_multiple: "2 ^ 32 dvd b \<Longrightarrow> min32 a b = 0"
proof -
  assume "2 ^ 32 dvd b"
  then have "(of_nat b :: u32) = 0" by (simp add: word_of_nat_eq_0_iff)
  then show ?thesis by (simp add: min32_def)
qed

lemma write_loop_stuck:
  assumes "2 ^ 32 dvd length data" "data \<noteq> []"
    and "\<not> wclosed (remoteWin ch)" "win (remoteWin ch) \<noteq> 0" "free_transport t"
  shows "write_loop data n ch t = None"
proof -
  define stuck where "stuck = (\<lambda>(data :: bytes) (ch :: channel) t.
    2 ^ 32 dvd length data \<and> data \<noteq> [] \<and> \<not> wclosed (remoteWin ch) \<and> win (remoteWin ch) \<noteq> 0
      \<and> free_transport t)"
  have ns: "\<not> stuck data ch t" if "write_loop data n ch t = Some r" for data n ch t r
  proof (rule write_loop.raw_induct [where P = "\<lambda>data n ch t r. \<not> stuck data ch t", OF _ that])
    fix f data n ch t r
    assume IH: "\<And>data n ch t r. f data n ch t = Some r \<Longrightarrow> \<not> stuck data ch t"
      and eq: "(if data = [] then Some (WReturn n None, ch, t)
        else case write_iter data n ch t of (r, ch', t') \<Rightarrow>
          (case r of
             WContinue data' n' \<Rightarrow> f data' n' ch' t'
           | WReturn n' e \<Rightarrow> Some (WReturn n' e, ch', t')
           | WPark data' n' \<Rightarrow> Some (WPark data' n', ch', t')
           | WPanic \<Rightarrow> Some (WPanic, ch', t'))) = Some r"
    show "\<not> stuck data ch t"
    proof
      assume st: "stuck data ch t"
      let ?t = "t\<lparr>tout := tout t @ wire (DataMessage (remoteId ch) (of_nat 0) (take 0 data))\<rparr>"
      have "0 = write_chunk ch data"
        using st by (simp add: stuck_def write_chunk_def min32_multiple)
      then have "write_iter data n ch t = (WContinue (drop 0 data) (n + 0), took ch 0, ?t)"
        using st by (intro write_iter_sends) (auto simp: stuck_def)
      then have "f data n ch ?t = Some r"
        using eq st by (simp add: stuck_def)
      then have "\<not> stuck data ch ?t" by (rule IH)
      then show False using st by (simp add: stuck_def)
    qed
  qed
  have "stuck data ch t" using assms by (simp add: stuck_def)
  then show ?thesis
    using ns [of data n ch t] by (cases "write_loop data n ch t") blast+
qed

section \<open>What Read does\<close>

text \<open>
  Reading gives back to our window what it takes out of the buffer, so the two together never
  change; \<open>handleData\<close> moves credit from the window into the buffer.
\<close>

definition credit :: "channel \<Rightarrow> nat" where
  "credit ch = unat (myWindow ch) + length (buffer_content (pending ch))"

lemma credit_handleData:
  assumes "handleData ch len data = (e, ch')" and "unat len = length data"
  shows "credit ch' = credit ch"
proof (cases e)
  case None
  with handleData_ok [of ch len data ch'] assms show ?thesis
    by (auto simp: credit_def rbuf.items_put)
next
  case (Some e')
  with handleData_error assms(1) have "ch' = ch" by blast
  then show ?thesis by simp
qed

lemma credit_adjust:
  assumes "unat (myWindow ch) + k < 2 ^ 32"
  shows "credit (adjust_credit ch (of_nat k)) = credit ch + k"
proof -
  have "unat (of_nat k :: u32) = k" using assms by (simp add: unat_of_nat)
  with assms show ?thesis
    by (simp add: credit_def adjust_credit_def unat_add_exact)
qed

text \<open>\<open>Read\<close> in terms of its two parts.\<close>

lemma credit_sentClose [simp]: "credit (ch\<lparr>sentClose := b\<rparr>) = credit ch"
  by (simp add: credit_def)

lemma ch_Read_credit:
  assumes "ch_Read ch n t = (r, ch', t')" and "credit ch < 2 ^ 32"
  shows "credit ch' = credit ch"
proof -
  obtain rr b where g: "buffer_read (pending ch) n = (rr, b)" by (cases "buffer_read (pending ch) n")
  have sent: "credit c' = credit c" if "ch_send c m t = (x, c', t')" for c m t x c' t'
    using send_channel [of c m t] that by auto
  show ?thesis
  proof (cases rr)
    case None
    then have "buffer_content b = []" "buffer_content (pending ch) = []"
      using rbuf.get_parks [of "pending ch" n] rbuf.get_items [of "pending ch" n] g by auto
    with None g assms(1) show ?thesis by (auto simp: ch_Read_def credit_def)
  next
    case (Some p)
    obtain bs e where p: "p = (bs, e)" by (cases p)
    have c: "buffer_content (pending ch) = bs @ buffer_content b"
      using rbuf.get_data [of "pending ch" n bs e b] g Some p by simp
    have small: "unat (myWindow ch) + length bs < 2 ^ 32"
      using assms(2) c by (simp add: credit_def)
    have "credit (adjust_credit (ch\<lparr>pending := b\<rparr>) (of_nat (length bs))) = credit ch"
      using credit_adjust [of "ch\<lparr>pending := b\<rparr>" "length bs"] small c by (simp add: credit_def)
    moreover have "bs = [] \<Longrightarrow> credit (ch\<lparr>pending := b\<rparr>) = credit ch"
      using c by (simp add: credit_def)
    ultimately show ?thesis
      using assms(1) g Some p
      by (auto simp: ch_Read_def adjustWindow_def Let_def dest: sent split: if_splits prod.splits)
  qed
qed

text \<open>The bytes a read returns, the parking case and the end of the stream.\<close>

lemma ch_Read_parks:
  "fst (ch_Read ch n t) = None \<longleftrightarrow> 0 < n \<and> buffer_content (pending ch) = [] \<and> \<not> bclosed (pending ch)"
  using rbuf.get_parks [of "pending ch" n]
  by (auto simp: ch_Read_def Let_def split: prod.splits option.splits if_splits)

lemma ch_Read_data:
  assumes "ch_Read ch n t = (Some (bs, e), ch', t')"
  shows "bs = take n (buffer_content (pending ch)) \<and> length bs \<le> n"
proof -
  obtain rr b where g: "buffer_read (pending ch) n = (rr, b)" by (cases "buffer_read (pending ch) n")
  with assms obtain e0 where "rr = Some (bs, e0)"
    by (auto simp: ch_Read_def Let_def split: prod.splits option.splits if_splits)
  with g rbuf.get_result [of "pending ch" n] rbuf.get_length [of "pending ch" n bs e0 b]
  show ?thesis by (auto split: if_splits)
qed

section \<open>Properties\<close>

text \<open>
  C24: \<open>Write\<close> of fewer than \<open>2^32\<close> bytes on an open channel terminates; the packets it sends
  carry, in order, the first \<open>k\<close> bytes of the data in non-empty chunks no larger than the peer's
  packet size, where \<open>k\<close> is all of the data or the whole credit of the window, whichever is less.
  It returns the full count without an error if it sent everything, and is parked with the unsent
  rest on an empty window if not.
\<close>

theorem write_sends_up_to_window:
  assumes "length data < 2 ^ 32" "maxRemotePayload ch \<noteq> 0" "free_transport t"
    "\<not> wclosed (remoteWin ch)" "\<not> sentEOF ch" "k = min (length data) (unat (win (remoteWin ch)))"
  shows "\<exists>ch' ds. ch_Write ch data t =
      Some (if k = length data then WReturn k None else WPark (drop k data) k,
            ch', t\<lparr>tout := tout t @ data_packets (remoteId ch) ds\<rparr>)
    \<and> concat ds = take k data
    \<and> (\<forall>d \<in> set ds. d \<noteq> [] \<and> length d \<le> unat (maxRemotePayload ch))"
  using write_loop_result [OF assms(1-4,6), of 0] assms(5)
  unfolding ch_Write_def write_outcome_def by (simp only: add_0 if_False)

definition sample_channel :: channel where
  "sample_channel = \<lparr>localId = 0, remoteId = 10, maxIncomingPayload = 0x8000,
     maxRemotePayload = 2, direction = channelOutbound, msgs = make_chan 16, sentEOF = False,
     remoteWin = \<lparr>win = 5, writeWaiters = 0, wclosed = False\<rparr>, pending = newBuffer,
     myWindow = 7, sentClose = False, packetBuf = []\<rparr>"

definition sample_transport :: transport where
  "sample_transport = \<lparr>tin = \<lparr>chunks = [], final = EOF\<rparr>, tout = [], tbudget = None, tclosed = False\<rparr>"

lemma free_sample [simp]: "free_transport sample_transport"
  by (simp add: free_transport_def sample_transport_def)

theorem write_sends_up_to_window_witness:
  "\<exists>ch' ds. ch_Write sample_channel [1, 2, 3, 4, 5, 6, 7] sample_transport =
      Some (WPark [6, 7] 5, ch', sample_transport\<lparr>tout := data_packets 10 ds\<rparr>)
    \<and> concat ds = [1, 2, 3, 4, 5] \<and> (\<forall>d \<in> set ds. d \<noteq> [] \<and> length d \<le> 2)"
  using write_sends_up_to_window [of "[1, 2, 3, 4, 5, 6, 7]" sample_channel sample_transport 5]
  by (simp add: sample_channel_def) (simp add: sample_transport_def)

text \<open>
  C40: \<open>Write\<close> of data whose length is a positive multiple of \<open>2^32\<close> never returns on an open window
  with credit: \<open>min\<close> converts the length to \<open>uint32\<close>, so every round reserves and sends zero bytes.
\<close>

theorem write_of_4GiB_diverges:
  assumes "2 ^ 32 dvd length data" "data \<noteq> []" "\<not> sentEOF ch"
    "\<not> wclosed (remoteWin ch)" "win (remoteWin ch) \<noteq> 0" "free_transport t"
  shows "ch_Write ch data t = None"
  using write_loop_stuck [OF assms(1,2,4-6)] assms(3) by (simp add: ch_Write_def)

theorem write_of_4GiB_diverges_witness:
  "ch_Write sample_channel (replicate (2 ^ 32) 0) sample_transport = None"
  by (rule write_of_4GiB_diverges)
    (simp_all only: length_replicate dvd_refl free_sample, simp_all add: sample_channel_def)

text \<open>
  \<open>Read\<close> with room for \<open>n > 0\<close> bytes on a channel that holds data returns the first \<open>n\<close> of its
  bytes (or all, if there are fewer) without an error, leaves the rest, adds exactly their number
  to our window, and sends the peer one window update of that number.
\<close>

theorem read_returns_credit:
  assumes "buffer_content (pending ch) \<noteq> []" "0 < n" "free_transport t" "\<not> sentClose ch"
    and "credit ch < 2 ^ 32"
  shows "\<exists>ch'. ch_Read ch n t = (Some (take n (buffer_content (pending ch)), None), ch',
      t\<lparr>tout := tout t @ wire (WindowAdjustMessage (remoteId ch)
                   (of_nat (min n (length (buffer_content (pending ch))))))\<rparr>)
    \<and> buffer_content (pending ch') = drop n (buffer_content (pending ch))
    \<and> unat (myWindow ch') = unat (myWindow ch) + min n (length (buffer_content (pending ch)))"
proof -
  let ?c = "buffer_content (pending ch)"
  obtain b where g: "buffer_read (pending ch) n = (Some (take n ?c, None), b)"
    using rbuf.get_result [of "pending ch" n] assms(1,2) by (cases "buffer_read (pending ch) n") auto
  have b: "buffer_content b = drop n ?c" using rbuf.get_items [of "pending ch" n] g by simp
  let ?k = "min n (length ?c)"
  have k: "unat (myWindow ch) + ?k < 2 ^ 32" using assms(5) by (simp add: credit_def)
  then have "unat (of_nat ?k :: u32) = ?k" by (simp add: unat_of_nat)
  with k have "unat (myWindow ch + of_nat ?k) = unat (myWindow ch) + ?k"
    by (simp add: unat_add_exact)
  moreover have "length (take n ?c) = ?k" "0 < ?k" using assms(1,2) by auto
  ultimately show ?thesis
    using g b assms(3,4)
    by (simp add: ch_Read_def adjustWindow_def adjust_credit_def Let_def send_open Encode_free
        del: wire.simps)
qed

theorem read_returns_credit_witness:
  "\<exists>ch'. ch_Read (sample_channel\<lparr>pending := buffer_write newBuffer [1, 2, 3]\<rparr>) 2 sample_transport
      = (Some ([1, 2], None), ch', sample_transport\<lparr>tout := wire (WindowAdjustMessage 10 2)\<rparr>)
    \<and> buffer_content (pending ch') = [3] \<and> unat (myWindow ch') = 9"
proof -
  have "credit (sample_channel\<lparr>pending := buffer_write newBuffer [1, 2, 3]\<rparr>) = 10"
    by (simp add: credit_def sample_channel_def)
  then show ?thesis
    using read_returns_credit [of "sample_channel\<lparr>pending := buffer_write newBuffer [1, 2, 3]\<rparr>" 2
        sample_transport]
    by (simp add: sample_channel_def del: wire.simps) (simp add: sample_transport_def del: wire.simps)
qed

end
