(* ===== verification/Session.thy ===== *)
theory Session
  imports ChanList Channel
begin

text \<open>
  A session (session/session.go and the parts of session/channel.go that touch it): the state of a
  \<open>Session\<close>, its constructor, \<open>Open\<close>, \<open>Accept\<close>, \<open>Wait\<close>, \<open>Close\<close>, and the receive loop with its
  packet handlers.  Channels are pointers shared between the channel table, the inbox and user
  code; the model keeps them in \<open>heap\<close> and a pointer is an index into it.  A method is split where
  its goroutine can park: the loop on a full Go channel, \<open>Open\<close> and \<open>Accept\<close> on an empty one.
\<close>

section \<open>State\<close>

abbreviation minPacketLength :: u32 where "minPacketLength \<equiv> 9"
abbreviation maxPacketLength :: u32 where "maxPacketLength \<equiv> 0x80000000"
abbreviation channelMaxPacket :: u32 where "channelMaxPacket \<equiv> 0x8000"
abbreviation channelWindowSize :: u32 where "channelWindowSize \<equiv> 64 * channelMaxPacket"
abbreviation chanSize :: nat where "chanSize \<equiv> 16"

record session =
  trans :: transport
  heap :: "channel list"
  chans :: "nat chan_list"
  inbox :: "nat gochan"
  closeCh :: "bool gochan"
  serr :: "go_error option"

definition set_chan :: "session \<Rightarrow> nat \<Rightarrow> channel \<Rightarrow> session" where
  "set_chan s p ch = s\<lparr>heap := (heap s)[p := ch]\<rparr>"

text \<open>\<open>New\<close> on a nil transport returns nil.\<close>

definition session_New :: "transport option \<Rightarrow> session option" where
  "session_New t = (case t of
       None \<Rightarrow> None
     | Some t \<Rightarrow> Some \<lparr>trans = t, heap = [], chans = [], inbox = make_chan chanSize,
                       closeCh = make_chan 1, serr = None\<rparr>)"

definition new_chan :: "channelDirection \<Rightarrow> channel" where
  "new_chan dir = \<lparr>localId = 0, remoteId = 0, maxIncomingPayload = 0, maxRemotePayload = 0,
     direction = dir, msgs = make_chan chanSize, sentEOF = False, remoteWin = new_window,
     pending = newBuffer, myWindow = channelWindowSize, sentClose = False, packetBuf = []\<rparr>"

definition newChannel :: "session \<Rightarrow> channelDirection \<Rightarrow> nat \<times> session" where
  "newChannel s dir =
     (let p = length (heap s) in
      case chans_add (chans s) p of
        (i, cs) \<Rightarrow> (p, s\<lparr>heap := heap s @ [(new_chan dir)\<lparr>localId := i\<rparr>], chans := cs\<rparr>))"

section \<open>Open, Accept, Wait, Close\<close>

text \<open>
  \<open>Open\<close> up to the select: allocate the channel and send the request.  A failed write leaves the
  channel in the table.
\<close>

definition Open_start :: "session \<Rightarrow> go_error option \<times> nat \<times> session" where
  "Open_start s =
     (case newChannel s channelOutbound of
        (p, s1) \<Rightarrow>
          let ch = (heap s1 ! p)\<lparr>maxIncomingPayload := channelMaxPacket\<rparr>;
              s2 = set_chan s1 p ch
          in case Encode (trans s2) (OpenMessage (localId ch) (myWindow ch) (maxIncomingPayload ch)) of
               (e, t) \<Rightarrow> (e, p, s2\<lparr>trans := t\<rparr>))"

text \<open>
  The rest of \<open>Open\<close>: wait for the context or for a message on the channel's queue; \<open>None\<close> parks.
\<close>

definition Open_finish ::
    "session \<Rightarrow> nat \<Rightarrow> go_error option \<Rightarrow> (go_error + nat) option \<times> session" where
  "Open_finish s p ctx =
     (case ctx of
        Some e \<Rightarrow> (Some (Inl e), s)
      | None \<Rightarrow>
          (case chan_recv (msgs (heap s ! p)) of
             RecvBlocks \<Rightarrow> (None, s)
           | RecvClosed \<Rightarrow> (Some (Inl (Errorf ''qmux: channel closed early during open'')), s)
           | Received m q \<Rightarrow>
               (case m of
                  OpenConfirmMessage _ _ _ _ \<Rightarrow> Some (Inr p)
                | OpenFailureMessage _ \<Rightarrow>
                    Some (Inl (Errorf ''qmux: channel open failed on remote side''))
                | _ \<Rightarrow> Some (Inl (Errorf
                    (''qmux: unexpected packet in response to channel open: '' @ msg_String m))),
                set_chan s p ((heap s ! p)\<lparr>msgs := q\<rparr>))))"

text \<open>
  \<open>Accept\<close>: Go's select takes either ready branch, so the choice is an argument; \<open>None\<close> parks.
\<close>

definition Accept :: "session \<Rightarrow> bool \<Rightarrow> (go_error + nat) option \<times> session" where
  "Accept s prefer_inbox =
     (case (chan_recv (inbox s), chan_recv (closeCh s)) of
        (Received p q, Received _ q') \<Rightarrow>
          if prefer_inbox then (Some (Inr p), s\<lparr>inbox := q\<rparr>)
          else (Some (Inl EOF), s\<lparr>closeCh := q'\<rparr>)
      | (Received p q, _) \<Rightarrow> (Some (Inr p), s\<lparr>inbox := q\<rparr>)
      | (_, Received _ q') \<Rightarrow> (Some (Inl EOF), s\<lparr>closeCh := q'\<rparr>)
      | _ \<Rightarrow> (None, s))"

text \<open>\<open>Wait\<close> parks while there is no error.\<close>

definition session_Wait :: "session \<Rightarrow> go_error option" where
  "session_Wait s = serr s"

definition session_Close :: "session \<Rightarrow> session" where
  "session_Close s = s\<lparr>trans := transport_close (trans s)\<rparr>"

section \<open>Handling a packet\<close>

text \<open>
  What a handler on the loop's goroutine does: it returns an error or nil, it parks on a channel's
  message queue or on the inbox, or it panics.
\<close>

datatype handled =
    Handled "go_error option"
  | BlockedMsg nat message
  | BlockedInbox nat
  | Panicked

definition deliver :: "session \<Rightarrow> nat \<Rightarrow> message \<Rightarrow> handled \<times> session" where
  "deliver s p m =
     (case chan_send (msgs (heap s ! p)) m of
        Sent q \<Rightarrow> (Handled None, set_chan s p ((heap s ! p)\<lparr>msgs := q\<rparr>))
      | SendBlocks \<Rightarrow> (BlockedMsg p m, s)
      | SendPanics \<Rightarrow> (Panicked, s))"

definition handle_close :: "session \<Rightarrow> nat \<Rightarrow> handled \<times> session" where
  "handle_close s p =
     (let ch = heap s ! p in
      case ch_send ch (CloseMessage (remoteId ch)) (trans s) of
        (_, ch1, t) \<Rightarrow>
          let s1 = (set_chan s p ch1)\<lparr>trans := t\<rparr>;
              s2 = s1\<lparr>chans := chans_remove (chans s1) (localId ch1)\<rparr>
          in (case ch_close ch1 of
                None \<Rightarrow> (Panicked, s2)
              | Some ch2 \<Rightarrow> (Handled None, set_chan s2 p ch2)))"

fun handle :: "session \<Rightarrow> nat \<Rightarrow> message \<Rightarrow> handled \<times> session" where
  "handle s p (DataMessage cid len data) =
     (case handleData (heap s ! p) len data of (e, ch) \<Rightarrow> (Handled e, set_chan s p ch))"
| "handle s p (CloseMessage cid) = handle_close s p"
| "handle s p (EOFMessage cid) =
     (Handled None, set_chan s p ((heap s ! p)\<lparr>pending := buffer_eof (pending (heap s ! p))\<rparr>))"
| "handle s p (WindowAdjustMessage cid n) =
     (case window_add (remoteWin (heap s ! p)) n of
        (ok, w) \<Rightarrow>
          (Handled (if ok then None
             else Some (Errorf (''qmux: invalid window update for '' @ u32_string n @ '' bytes''))),
           set_chan s p ((heap s ! p)\<lparr>remoteWin := w\<rparr>)))"
| "handle s p (OpenConfirmMessage cid sid ws mp) =
     (let ch = heap s ! p in
      case responseMessageReceived ch of
        Some e \<Rightarrow> (Handled (Some e), s)
      | None \<Rightarrow>
          if mp < minPacketLength \<or> mp > maxPacketLength
          then (Handled (Some (Errorf
                  (''qmux: invalid MaxPacketSize '' @ u32_string mp @ '' from peer''))), s)
          else deliver
            (set_chan s p (ch\<lparr>remoteId := sid, maxRemotePayload := mp,
                              remoteWin := snd (window_add (remoteWin ch) ws)\<rparr>))
            p (OpenConfirmMessage cid sid ws mp))"
| "handle s p (OpenFailureMessage cid) =
     (case responseMessageReceived (heap s ! p) of
        Some e \<Rightarrow> (Handled (Some e), s)
      | None \<Rightarrow>
          deliver (s\<lparr>chans := chans_remove (chans s) cid\<rparr>) p (OpenFailureMessage cid))"
| "handle s p (OpenMessage sid ws mp) =
     (Handled (Some (Errorf (''qmux: invalid channel message '' @ msg_String (OpenMessage sid ws mp)))), s)"

text \<open>\<open>handleOpen\<close>, split at the send to the inbox.\<close>

definition confirm_open :: "session \<Rightarrow> nat \<Rightarrow> handled \<times> session" where
  "confirm_open s p =
     (let c = heap s ! p in
      case Encode (trans s) (OpenConfirmMessage (remoteId c) (localId c) (myWindow c)
             (maxIncomingPayload c)) of
        (e, t) \<Rightarrow> (Handled e, s\<lparr>trans := t\<rparr>))"

definition enqueue_open :: "session \<Rightarrow> nat \<Rightarrow> handled \<times> session" where
  "enqueue_open s p =
     (case chan_send (inbox s) p of
        Sent q \<Rightarrow> confirm_open (s\<lparr>inbox := q\<rparr>) p
      | SendBlocks \<Rightarrow> (BlockedInbox p, s)
      | SendPanics \<Rightarrow> (Panicked, s))"

definition handleOpen :: "session \<Rightarrow> u32 \<Rightarrow> u32 \<Rightarrow> u32 \<Rightarrow> handled \<times> session" where
  "handleOpen s sid ws mp =
     (if mp < minPacketLength \<or> mp > maxPacketLength then
        (case Encode (trans s) (OpenFailureMessage sid) of (e, t) \<Rightarrow> (Handled e, s\<lparr>trans := t\<rparr>))
      else
        (case newChannel s channelInbound of
           (p, s1) \<Rightarrow>
             let c = heap s1 ! p;
                 c' = c\<lparr>remoteId := sid, maxRemotePayload := mp,
                        remoteWin := snd (window_add (remoteWin c) ws),
                        maxIncomingPayload := channelMaxPacket\<rparr>
             in enqueue_open (set_chan s1 p c') p))"

text \<open>\<open>onePacket\<close>; the type assertion on a message without a channel id panics when it fails.\<close>

definition dispatch :: "session \<Rightarrow> message \<Rightarrow> handled \<times> session" where
  "dispatch s m =
     (case msg_Channel m of (i, isChan) \<Rightarrow>
        if \<not> isChan then
          (case m of OpenMessage sid ws mp \<Rightarrow> handleOpen s sid ws mp | _ \<Rightarrow> (Panicked, s))
        else
          (case getChan (chans s) i of
             None \<Rightarrow> (Handled (Some (Errorf (''qmux: invalid channel '' @ u32_string i))), s)
           | Some p \<Rightarrow> handle s p m))"

definition onePacket :: "session \<Rightarrow> handled \<times> session" where
  "onePacket s =
     (case Decode transport_read (trans s) of
        (Err e, t) \<Rightarrow> (Handled (Some e), s\<lparr>trans := t\<rparr>)
      | (Panic, t) \<Rightarrow> (Panicked, s\<lparr>trans := t\<rparr>)
      | (Ok m, t) \<Rightarrow> dispatch (s\<lparr>trans := t\<rparr>) m)"

section \<open>The loop\<close>

text \<open>
  The end of \<open>loop\<close>: drop and close every channel in the table, close the transport, signal
  \<open>Accept\<close> and \<open>Wait\<close>.  \<open>None\<close> is a panic, or a send that parks on a full \<open>closeCh\<close>.
\<close>

fun close_all :: "channel list \<Rightarrow> nat list \<Rightarrow> channel list option" where
  "close_all h [] = Some h"
| "close_all h (p # ps) =
     (case ch_close (h ! p) of None \<Rightarrow> None | Some ch \<Rightarrow> close_all (h[p := ch]) ps)"

definition shutdown :: "session \<Rightarrow> go_error \<Rightarrow> session option" where
  "shutdown s e =
     (case chans_dropAll (chans s) of
        (ps, cs) \<Rightarrow>
          (case close_all (heap s) ps of
             None \<Rightarrow> None
           | Some h \<Rightarrow>
               (case chan_send (closeCh s) True of
                  Sent q \<Rightarrow> Some (s\<lparr>heap := h, chans := cs, trans := transport_close (trans s),
                                   closeCh := q, serr := Some e\<rparr>)
                | _ \<Rightarrow> None)))"

datatype loop_state =
    Running
  | OnMsg nat message
  | OnInbox nat
  | Ended
  | Crashed

definition after_packet :: "handled \<times> session \<Rightarrow> loop_state \<times> session" where
  "after_packet r =
     (case r of
        (Handled None, s) \<Rightarrow> (Running, s)
      | (Handled (Some e), s) \<Rightarrow>
          (case shutdown s e of None \<Rightarrow> (Crashed, s) | Some s' \<Rightarrow> (Ended, s'))
      | (BlockedMsg p m, s) \<Rightarrow> (OnMsg p m, s)
      | (BlockedInbox p, s) \<Rightarrow> (OnInbox p, s)
      | (Panicked, s) \<Rightarrow> (Crashed, s))"

text \<open>One step of the loop's goroutine; a parked goroutine retries its send.\<close>

fun loop_step :: "loop_state \<times> session \<Rightarrow> loop_state \<times> session" where
  "loop_step (Running, s) = after_packet (onePacket s)"
| "loop_step (OnMsg p m, s) = after_packet (deliver s p m)"
| "loop_step (OnInbox p, s) = after_packet (enqueue_open s p)"
| "loop_step (Ended, s) = (Ended, s)"
| "loop_step (Crashed, s) = (Crashed, s)"

section \<open>Branches of the handler\<close>

lemma handle_stream_handle:
  "handle_stream (heap s ! p) m = Some (e, ch) \<Longrightarrow> handle s p m = (Handled e, set_chan s p ch)"
  by (cases m) (auto split: prod.splits)

end
