(* ===== verification/SessionInv.thy ===== *)
theory SessionInv
  imports Session
begin

text \<open>
  The invariant of a session.  Any number of goroutines use a session at once: the receive loop and
  the callers of the channel and session methods.  \<open>session_step\<close> is their interleaving, one method
  (or one part of a method between two points where it can park) per step, with a network that may
  deliver anything.  The lemmas show, handler by handler, that the loop never panics, that the
  table and the channels agree, and that every channel accounts for its whole flow-control window.
\<close>

section \<open>The invariant\<close>

definition window_size :: nat where
  "window_size = unat channelWindowSize"

lemma window_size_value: "window_size = 2097152"
  by (simp add: window_size_def)

definition chan_ok :: "channel \<Rightarrow> bool" where
  "chan_ok ch \<longleftrightarrow> credit ch = window_size \<and> qcap (msgs ch) = chanSize
     \<and> (qclosed (msgs ch) \<longrightarrow> sentClose ch \<and> wclosed (remoteWin ch) \<and> bclosed (pending ch))"

definition tab_ok :: "session \<Rightarrow> bool" where
  "tab_ok s \<longleftrightarrow> length (chans s) \<le> length (heap s) \<and>
     (\<forall>i p. getChan (chans s) i = Some p \<longrightarrow>
        p < length (heap s) \<and> localId (heap s ! p) = i \<and> \<not> qclosed (msgs (heap s ! p)))"

definition queues_ok :: "session \<Rightarrow> bool" where
  "queues_ok s \<longleftrightarrow> \<not> qclosed (inbox s) \<and> qcap (inbox s) = chanSize
     \<and> (\<forall>p \<in> set (qbuf (inbox s)). p < length (heap s))
     \<and> \<not> qclosed (closeCh s) \<and> qcap (closeCh s) = 1"

definition core_inv :: "session \<Rightarrow> bool" where
  "core_inv s \<longleftrightarrow> (\<forall>ch \<in> set (heap s). chan_ok ch) \<and> tab_ok s \<and> queues_ok s
     \<and> length (heap s) < 2 ^ 32"

definition handled_ok :: "handled \<Rightarrow> session \<Rightarrow> bool" where
  "handled_ok h s \<longleftrightarrow> (case h of
       Handled _ \<Rightarrow> True
     | BlockedMsg p m \<Rightarrow> p < length (heap s) \<and> \<not> qclosed (msgs (heap s ! p))
     | BlockedInbox p \<Rightarrow> p < length (heap s)
     | Panicked \<Rightarrow> False)"

text \<open>What no handler changes.\<close>

definition keeps :: "session \<Rightarrow> session \<Rightarrow> bool" where
  "keeps s s' \<longleftrightarrow> closeCh s' = closeCh s \<and> serr s' = serr s \<and> length (heap s) \<le> length (heap s')
     \<and> tclosed (trans s') = tclosed (trans s)"

lemma keeps_refl [simp]: "keeps s s"
  by (simp add: keeps_def)

lemma keeps_trans: "keeps s s' \<Longrightarrow> keeps s' s'' \<Longrightarrow> keeps s s''"
  by (simp add: keeps_def)

lemma core_inv_trans [simp]: "core_inv (s\<lparr>trans := t\<rparr>) = core_inv s"
  by (simp add: core_inv_def tab_ok_def queues_ok_def)

lemma core_small: "core_inv s \<Longrightarrow> small (chans s)"
  by (simp add: core_inv_def tab_ok_def small_def)

lemma core_heap: "core_inv s \<Longrightarrow> p < length (heap s) \<Longrightarrow> chan_ok (heap s ! p)"
  by (simp add: core_inv_def)

lemma core_table:
  "core_inv s \<Longrightarrow> getChan (chans s) i = Some p \<Longrightarrow>
     p < length (heap s) \<and> localId (heap s ! p) = i \<and> \<not> qclosed (msgs (heap s ! p))"
  by (simp add: core_inv_def tab_ok_def)

section \<open>Updating one channel\<close>

lemma set_chan_simps [simp]:
  "heap (set_chan s p ch) = (heap s)[p := ch]" "trans (set_chan s p ch) = trans s"
  "chans (set_chan s p ch) = chans s" "inbox (set_chan s p ch) = inbox s"
  "closeCh (set_chan s p ch) = closeCh s" "serr (set_chan s p ch) = serr s"
  by (simp_all add: set_chan_def)

lemma keeps_set_chan [simp]: "keeps s (set_chan s p ch)"
  by (simp add: keeps_def)

lemma core_set_chan:
  assumes "core_inv s" "p < length (heap s)" "chan_ok ch"
    and "localId ch = localId (heap s ! p)"
    and "qclosed (msgs ch) \<Longrightarrow> qclosed (msgs (heap s ! p)) \<or> (\<forall>i. getChan (chans s) i \<noteq> Some p)"
  shows "core_inv (set_chan s p ch)"
  using assms
  by (auto simp: core_inv_def tab_ok_def queues_ok_def nth_list_update
      dest!: subsetD [OF set_update_subset_insert])

lemma core_remove: "core_inv s \<Longrightarrow> core_inv (s\<lparr>chans := chans_remove (chans s) i\<rparr>)"
proof -
  assume c: "core_inv s"
  have "length (chans_remove (chans s) i) = length (chans s)" by (simp add: chans_remove_def)
  moreover have "getChan (chans_remove (chans s) i) j = (if j = i then None else getChan (chans s) j)" for j
    by (rule getChan_remove [OF core_small [OF c]])
  ultimately show ?thesis
    using c by (auto simp: core_inv_def tab_ok_def queues_ok_def split: if_splits)
qed

text \<open>The updates of one channel that keep \<open>chan_ok\<close>.\<close>

lemma chan_ok_new: "chan_ok ((new_chan dir)\<lparr>localId := i\<rparr>)"
  by (simp add: chan_ok_def new_chan_def credit_def window_size_def)

lemma chan_ok_set_ids [simp]:
  "chan_ok (ch\<lparr>remoteId := x\<rparr>) = chan_ok ch" "chan_ok (ch\<lparr>maxRemotePayload := x\<rparr>) = chan_ok ch"
  "chan_ok (ch\<lparr>maxIncomingPayload := x\<rparr>) = chan_ok ch" "chan_ok (ch\<lparr>sentEOF := b\<rparr>) = chan_ok ch"
  by (simp_all add: chan_ok_def credit_def)

lemma chan_ok_sentClose: "chan_ok ch \<Longrightarrow> chan_ok (ch\<lparr>sentClose := True\<rparr>)"
  by (simp add: chan_ok_def)

lemma chan_ok_eof: "chan_ok ch \<Longrightarrow> chan_ok (ch\<lparr>pending := buffer_eof (pending ch)\<rparr>)"
  by (simp add: chan_ok_def credit_def rbuf.items_shut)

lemma chan_ok_window:
  "chan_ok ch \<Longrightarrow> wclosed w = wclosed (remoteWin ch) \<Longrightarrow> chan_ok (ch\<lparr>remoteWin := w\<rparr>)"
  by (simp add: chan_ok_def credit_def)

lemma chan_ok_msgs:
  "chan_ok ch \<Longrightarrow> qcap q = qcap (msgs ch) \<Longrightarrow> qclosed q = qclosed (msgs ch) \<Longrightarrow> chan_ok (ch\<lparr>msgs := q\<rparr>)"
  by (simp add: chan_ok_def credit_def)

lemma chan_ok_close: "chan_ok ch \<Longrightarrow> ch_close ch = Some ch' \<Longrightarrow> chan_ok ch' \<and> localId ch' = localId ch"
  by (auto simp: chan_ok_def credit_def ch_close_def chan_close_def window_close_def
      rbuf.items_shut Let_def split: if_splits)

lemma chan_ok_handleData:
  assumes "chan_ok ch" "handleData ch len data = (e, ch')" "unat len = length data"
  shows "chan_ok ch' \<and> localId ch' = localId ch \<and> msgs ch' = msgs ch"
  using assms credit_handleData [OF assms(2,3)]
  by (auto simp: chan_ok_def handleData_def rbuf.shut_put split: if_splits)

lemma send_same:
  assumes "ch_send ch m t = (e, ch', t')"
  shows "(ch' = ch \<or> ch' = ch\<lparr>sentClose := True\<rparr>) \<and> tclosed t' = tclosed t"
  using assms by (auto simp: ch_send_eq split: if_splits)

lemma chan_ok_send:
  assumes "ch_send ch m t = (e, ch', t')" "chan_ok ch"
  shows "chan_ok ch' \<and> localId ch' = localId ch \<and> msgs ch' = msgs ch \<and> remoteId ch' = remoteId ch"
  using send_same [OF assms(1)] chan_ok_sentClose [OF assms(2)] assms(2) by auto

section \<open>The handlers\<close>

lemma deliver_ok:
  assumes "core_inv s" "p < length (heap s)" "\<not> qclosed (msgs (heap s ! p))"
    and "deliver s p m = (h, s')"
  shows "core_inv s' \<and> handled_ok h s' \<and> keeps s s'"
proof (cases "chan_send (msgs (heap s ! p)) m")
  case (Sent q)
  then have q: "\<not> qclosed q" "qcap q = qcap (msgs (heap s ! p))" using assms(3)
    by (auto simp: chan_send_Sent)
  have "core_inv (set_chan s p ((heap s ! p)\<lparr>msgs := q\<rparr>))"
    by (rule core_set_chan [OF assms(1,2)])
      (use q assms(3) core_heap [OF assms(1,2)] in \<open>auto intro: chan_ok_msgs\<close>)
  then show ?thesis using Sent assms(4) by (auto simp: deliver_def handled_ok_def)
next
  case SendBlocks
  then show ?thesis using assms by (auto simp: deliver_def handled_ok_def)
next
  case SendPanics
  then show ?thesis using assms(3) by (simp add: chan_send_panics)
qed

lemma handle_close_ok:
  assumes "core_inv s" "getChan (chans s) i = Some p" "handle_close s p = (h, s')"
  shows "core_inv s' \<and> handled_ok h s' \<and> keeps s s'"
proof -
  let ?ch = "heap s ! p"
  note tab = core_table [OF assms(1,2)]
  obtain e ch1 t where snd: "ch_send ?ch (CloseMessage (remoteId ?ch)) (trans s) = (e, ch1, t)"
    by (cases "ch_send ?ch (CloseMessage (remoteId ?ch)) (trans s)")
  have c1: "chan_ok ch1" "localId ch1 = i" "msgs ch1 = msgs ?ch" "tclosed t = tclosed (trans s)"
    using chan_ok_send [OF snd core_heap] send_same [OF snd] assms(1) tab by auto
  define s2 where "s2 = ((set_chan s p ch1)\<lparr>trans := t\<rparr>)\<lparr>chans := chans_remove (chans s) i\<rparr>"
  have "core_inv ((set_chan s p ch1)\<lparr>trans := t\<rparr>)"
    unfolding core_inv_trans by (rule core_set_chan [OF assms(1)]) (use c1 tab in auto)
  from core_remove [OF this, of i] have s2: "core_inv s2"
    by (simp add: s2_def)
  obtain ch2 where ch2: "ch_close ch1 = Some ch2"
    using ch_close_Some [of ch1] c1(3) tab by auto
  have nin: "getChan (chans s2) j \<noteq> Some p" for j
    using core_table [OF assms(1), of j p] tab getChan_remove [OF core_small [OF assms(1)], of i j]
    by (auto simp: s2_def)
  have "core_inv (set_chan s2 p ch2)"
    by (rule core_set_chan [OF s2])
      (use tab nin chan_ok_close [OF c1(1) ch2] in \<open>auto simp: s2_def\<close>)
  moreover have "(h, s') = (Handled None, set_chan s2 p ch2)"
    using assms(3) snd ch2 c1(2) by (simp add: handle_close_def Let_def s2_def)
  ultimately show ?thesis
    using c1(4) by (simp add: handled_ok_def keeps_def s2_def)
qed

lemma handle_ok:
  assumes "core_inv s" "getChan (chans s) i = Some p" "wf_msg m" "handle s p m = (h, s')"
  shows "core_inv s' \<and> handled_ok h s' \<and> keeps s s'"
proof -
  note tab = core_table [OF assms(1,2)]
  then have p: "p < length (heap s)" and opn: "\<not> qclosed (msgs (heap s ! p))" by auto
  note ok = core_heap [OF assms(1) p]
  show ?thesis
  proof (cases m)
    case (DataMessage cid len data)
    obtain e ch where hd: "handleData (heap s ! p) len data = (e, ch)"
      by (cases "handleData (heap s ! p) len data")
    have c: "chan_ok ch \<and> localId ch = localId (heap s ! p) \<and> msgs ch = msgs (heap s ! p)"
      using chan_ok_handleData [OF ok hd] assms(3) DataMessage by simp
    have "core_inv (set_chan s p ch)"
      by (rule core_set_chan [OF assms(1) p]) (use c in auto)
    then show ?thesis using assms(4) DataMessage hd by (auto simp: handled_ok_def)
  next
    case (CloseMessage cid)
    then show ?thesis using handle_close_ok assms by simp
  next
    case (EOFMessage cid)
    have "core_inv (set_chan s p ((heap s ! p)\<lparr>pending := buffer_eof (pending (heap s ! p))\<rparr>))"
      by (rule core_set_chan [OF assms(1) p]) (use ok chan_ok_eof in auto)
    then show ?thesis using assms(4) EOFMessage by (auto simp: handled_ok_def)
  next
    case (WindowAdjustMessage cid n)
    obtain b w where w: "window_add (remoteWin (heap s ! p)) n = (b, w)"
      by (cases "window_add (remoteWin (heap s ! p)) n")
    have "wclosed w = wclosed (remoteWin (heap s ! p))"
      using window_add_frame(1) [of "remoteWin (heap s ! p)" n] w by simp
    then have "core_inv (set_chan s p ((heap s ! p)\<lparr>remoteWin := w\<rparr>))"
      by (intro core_set_chan [OF assms(1) p]) (use ok chan_ok_window in auto)
    then show ?thesis using assms(4) WindowAdjustMessage w by (auto simp: handled_ok_def)
  next
    case (OpenConfirmMessage cid sid ws mp)
    let ?ch = "(heap s ! p)\<lparr>remoteId := sid, maxRemotePayload := mp,
       remoteWin := snd (window_add (remoteWin (heap s ! p)) ws)\<rparr>"
    have c: "chan_ok ?ch"
      using ok chan_ok_window [of "(heap s ! p)\<lparr>remoteId := sid, maxRemotePayload := mp\<rparr>"] by simp
    have s1: "core_inv (set_chan s p ?ch)"
      by (rule core_set_chan [OF assms(1) p c]) auto
    show ?thesis
      using assms(1,4) OpenConfirmMessage p opn deliver_ok [OF s1, of p] keeps_trans [OF keeps_set_chan]
      by (auto simp: handled_ok_def Let_def split: option.splits if_splits) blast+
  next
    case (OpenFailureMessage cid)
    have s1: "core_inv (s\<lparr>chans := chans_remove (chans s) cid\<rparr>)" by (rule core_remove [OF assms(1)])
    have "keeps s (s\<lparr>chans := chans_remove (chans s) cid\<rparr>)" by (simp add: keeps_def)
    then show ?thesis
      using assms(1,4) OpenFailureMessage p opn deliver_ok [OF s1, of p] keeps_trans
      by (auto simp: handled_ok_def split: option.splits)
  next
    case (OpenMessage sid ws mp)
    then show ?thesis using assms(1,4) by (auto simp: handled_ok_def)
  qed
qed

section \<open>Allocating channels\<close>

lemma newChannel_ok:
  assumes "core_inv s" "length (heap s) + 1 < 2 ^ 32" "newChannel s dir = (p, s')"
  shows "core_inv s' \<and> keeps s s' \<and> p = length (heap s) \<and> length (heap s') = Suc p
    \<and> heap s' ! p = (new_chan dir)\<lparr>localId := localId (heap s' ! p)\<rparr>
    \<and> getChan (chans s') (localId (heap s' ! p)) = Some p
    \<and> (\<forall>q < length (heap s). heap s' ! q = heap s ! q) \<and> trans s' = trans s \<and> inbox s' = inbox s"
proof -
  obtain i cs where add: "chans_add (chans s) (length (heap s)) = (i, cs)"
    by (cases "chans_add (chans s) (length (heap s))")
  have len: "length (chans s) \<le> length (heap s)"
    using assms(1) by (simp add: core_inv_def tab_ok_def)
  then have room: "length (chans s) + 1 < 2 ^ 32" using assms(2) by simp
  have s': "s' = s\<lparr>heap := heap s @ [(new_chan dir)\<lparr>localId := i\<rparr>], chans := cs\<rparr>"
    and p: "p = length (heap s)"
    using assms(3) add by (simp_all add: newChannel_def Let_def)
  have look: "getChan cs j = (if j = i then Some p else getChan (chans s) j)" for j
    using ctab.find_insert [OF room, of p j] add p by simp
  have "length cs \<le> Suc (length (heap s))"
    using length_add [of "chans s" p] add len p by simp
  then have "core_inv s'"
    using assms(1,2) look chan_ok_new [of i dir]
    by (auto simp: core_inv_def tab_ok_def queues_ok_def s' p nth_append new_chan_def less_Suc_eq)
  then show ?thesis
    using look by (simp add: s' p keeps_def nth_append)
qed

lemma confirm_open_ok:
  "core_inv s \<Longrightarrow> confirm_open s p = (h, s') \<Longrightarrow> core_inv s' \<and> handled_ok h s' \<and> keeps s s'"
  by (auto simp: confirm_open_def handled_ok_def keeps_def Let_def dest: Encode_tclosedD
      split: prod.splits)

lemma core_inbox:
  "core_inv s \<Longrightarrow> qcap q = qcap (inbox s) \<Longrightarrow> \<not> qclosed q \<Longrightarrow>
     \<forall>p \<in> set (qbuf q). p < length (heap s) \<Longrightarrow> core_inv (s\<lparr>inbox := q\<rparr>)"
  by (simp add: core_inv_def tab_ok_def queues_ok_def)

lemma enqueue_open_ok:
  assumes "core_inv s" "p < length (heap s)" "enqueue_open s p = (h, s')"
  shows "core_inv s' \<and> handled_ok h s' \<and> keeps s s'"
proof (cases "chan_send (inbox s) p")
  case (Sent q)
  then have "core_inv (s\<lparr>inbox := q\<rparr>)"
    using assms(1,2) by (intro core_inbox) (auto simp: chan_send_Sent core_inv_def queues_ok_def)
  from confirm_open_ok [OF this, of p h s'] Sent assms(3) show ?thesis
    by (simp add: enqueue_open_def keeps_def)
next
  case SendBlocks
  then show ?thesis using assms by (auto simp: enqueue_open_def handled_ok_def)
next
  case SendPanics
  then show ?thesis using assms(1) by (simp add: chan_send_panics core_inv_def queues_ok_def)
qed

lemma handleOpen_ok:
  assumes "core_inv s" "length (heap s) + 1 < 2 ^ 32" "handleOpen s sid ws mp = (h, s')"
  shows "core_inv s' \<and> handled_ok h s' \<and> keeps s s'"
proof (cases "mp < minPacketLength \<or> mp > maxPacketLength")
  case True
  then show ?thesis
    using assms(1,3) Encode_tclosed [of "trans s" "OpenFailureMessage sid"]
    by (cases "Encode (trans s) (OpenFailureMessage sid)")
      (auto simp: handleOpen_def handled_ok_def keeps_def)
next
  case False
  obtain p s1 where nc: "newChannel s channelInbound = (p, s1)"
    by (cases "newChannel s channelInbound")
  note n = newChannel_ok [OF assms(1,2) nc]
  let ?c = "(heap s1 ! p)\<lparr>remoteId := sid, maxRemotePayload := mp,
     remoteWin := snd (window_add (remoteWin (heap s1 ! p)) ws), maxIncomingPayload := channelMaxPacket\<rparr>"
  have ok: "chan_ok (heap s1 ! p)" using n core_heap by auto
  have "chan_ok ?c"
    using chan_ok_window [of "(heap s1 ! p)\<lparr>remoteId := sid, maxRemotePayload := mp\<rparr>"] ok by simp
  then have s2: "core_inv (set_chan s1 p ?c)"
    using n by (intro core_set_chan) auto
  have eq: "enqueue_open (set_chan s1 p ?c) p = (h, s')"
    using assms(3) False nc by (auto simp: handleOpen_def Let_def)
  have "keeps s (set_chan s1 p ?c)"
    using n keeps_trans [OF _ keeps_set_chan] by blast
  then show ?thesis
    using enqueue_open_ok [OF s2 _ eq] n keeps_trans by auto
qed

lemma dispatch_ok:
  assumes "core_inv s" "length (heap s) + 1 < 2 ^ 32" "wf_msg m" "dispatch s m = (h, s')"
  shows "core_inv s' \<and> handled_ok h s' \<and> keeps s s'"
proof (cases "getChan (chans s) (fst (msg_Channel m))")
  case None
  then show ?thesis
    using assms handleOpen_ok [OF assms(1,2)]
    by (cases m) (auto simp: dispatch_def handled_ok_def)
next
  case (Some p)
  then show ?thesis
    using assms handleOpen_ok [OF assms(1,2)] handle_ok [OF assms(1) Some assms(3)]
    by (cases m) (auto simp: dispatch_def simp del: handle.simps)
qed

lemma onePacket_ok:
  assumes "core_inv s" "length (heap s) + 1 < 2 ^ 32" "onePacket s = (h, s')"
  shows "core_inv s' \<and> handled_ok h s' \<and> keeps s s'"
proof -
  obtain res t where d: "Decode transport_read (trans s) = (res, t)"
    by (cases "Decode transport_read (trans s)")
  have tc: "tclosed t = tclosed (trans s)"
    using d transport_read_frame
    by (auto simp: Decode_def readPacket_def read_into_def Let_def
        split: prod.splits option.splits if_splits result.splits)
  have k: "keeps s (s\<lparr>trans := t\<rparr>)" using tc by (simp add: keeps_def)
  show ?thesis
  proof (cases res)
    case (Ok m)
    with d conn.Decode_wf have "wf_msg m" by blast
    then show ?thesis
      using dispatch_ok [of "s\<lparr>trans := t\<rparr>" m h s'] assms Ok d k keeps_trans
      by (auto simp: onePacket_def)
  next
    case (Err e)
    then show ?thesis using assms d k by (auto simp: onePacket_def handled_ok_def)
  next
    case Panic
    then show ?thesis using conn.Decode_never_panics [of "trans s"] d by simp
  qed
qed

section \<open>Shutting down\<close>

lemma close_all_ok:
  assumes "distinct ps" "\<forall>p \<in> set ps. p < length h \<and> \<not> qclosed (msgs (h ! p))"
  shows "\<exists>h'. close_all h ps = Some h' \<and> length h' = length h \<and>
    (\<forall>p < length h. if p \<in> set ps then ch_close (h ! p) = Some (h' ! p) else h' ! p = h ! p)"
  using assms
proof (induction ps arbitrary: h)
  case Nil
  then show ?case by simp
next
  case (Cons q ps)
  then obtain ch where ch: "ch_close (h ! q) = Some ch"
    using ch_close_Some [of "h ! q"] by auto
  from Cons.prems have "\<forall>p \<in> set ps. p < length (h[q := ch]) \<and> \<not> qclosed (msgs (h[q := ch] ! p))"
    by (auto simp: nth_list_update)
  with Cons.IH [of "h[q := ch]"] Cons.prems(1) obtain h' where
    h': "close_all (h[q := ch]) ps = Some h'" "length h' = length h"
      "\<forall>p < length h. if p \<in> set ps then ch_close (h[q := ch] ! p) = Some (h' ! p)
          else h' ! p = h[q := ch] ! p"
    by auto
  have "if p \<in> set (q # ps) then ch_close (h ! p) = Some (h' ! p) else h' ! p = h ! p"
    if "p < length h" for p
  proof (cases "p = q")
    case True
    with h'(3) that Cons.prems(1) ch show ?thesis by simp
  next
    case False
    then have "h[q := ch] ! p = h ! p" by simp
    with h'(3) that False show ?thesis by (cases "p \<in> set ps") auto
  qed
  with h'(1,2) ch show ?case by simp
qed

lemma drop_distinct:
  assumes "core_inv s"
  shows "distinct (fst (chans_dropAll (chans s)))"
proof -
  let ?cs = "chans s"
  note sm = core_small [OF assms]
  have idx: "getChan ?cs (of_nat i) = ?cs ! i" "unat (of_nat i :: u32) = i" if "i < length ?cs" for i
    using that sm getChan_nth [OF sm, of "of_nat i"] by (simp_all add: small_def unat_of_nat)
  have "distinct (List.map_filter id ?cs)"
  proof (rule live_distinct)
    fix i j p
    assume ij: "i < length ?cs" "j < length ?cs" "?cs ! i = Some p" "?cs ! j = Some p"
    have "getChan ?cs (of_nat i) = Some p" "getChan ?cs (of_nat j) = Some p"
      using idx(1) [OF ij(1)] idx(1) [OF ij(2)] ij(3,4) by simp_all
    from this [THEN core_table [OF assms]] have "(of_nat i :: u32) = of_nat j"
      by (elim conjE) (rule trans [OF sym])
    then have "unat (of_nat i :: u32) = unat (of_nat j :: u32)" by (rule arg_cong)
    then show "i = j" by (simp only: idx(2) [OF ij(1)] idx(2) [OF ij(2)])
  qed
  then show ?thesis by (simp add: chans_dropAll_def)
qed

definition shut_down :: "session \<Rightarrow> session \<Rightarrow> go_error \<Rightarrow> bool" where
  "shut_down s s' e \<longleftrightarrow> chans s' = [] \<and> tclosed (trans s') \<and> serr s' = Some e
     \<and> qbuf (closeCh s') = [True] \<and> length (heap s') = length (heap s)
     \<and> (\<forall>p < length (heap s).
          if \<exists>i. getChan (chans s) i = Some p then ch_close (heap s ! p) = Some (heap s' ! p)
          else heap s' ! p = heap s ! p)"

lemma shutdown_ok:
  assumes "core_inv s" "qbuf (closeCh s) = []"
  shows "\<exists>s'. shutdown s e = Some s' \<and> core_inv s' \<and> shut_down s s' e"
proof -
  obtain ps where ps: "chans_dropAll (chans s) = (ps, [])" by (auto simp: chans_dropAll_def)
  have dd: "distinct ps" using drop_distinct [OF assms(1)] ps by simp
  have in_ps: "p \<in> set ps \<longleftrightarrow> (\<exists>i. getChan (chans s) i = Some p)" for p
    using dropAll_getChan [OF core_small [OF assms(1)], of p] ps by simp
  have "\<forall>p \<in> set ps. p < length (heap s) \<and> \<not> qclosed (msgs (heap s ! p))"
    using in_ps core_table [OF assms(1)] by blast
  from close_all_ok [OF dd this] obtain h where
    h: "close_all (heap s) ps = Some h" "length h = length (heap s)"
      "\<forall>p < length (heap s). if p \<in> set ps then ch_close (heap s ! p) = Some (h ! p) else h ! p = heap s ! p"
    by blast
  have "chan_ok (h ! p)" if "p < length (heap s)" for p
  proof (cases "p \<in> set ps")
    case True
    then have "ch_close (heap s ! p) = Some (h ! p)" using h(3) that by simp
    from chan_ok_close [OF core_heap [OF assms(1) that] this] show ?thesis by simp
  next
    case False
    then have "h ! p = heap s ! p" using h(3) that by simp
    then show ?thesis using core_heap [OF assms(1) that] by simp
  qed
  then have hok: "\<forall>ch \<in> set h. chan_ok ch" using h(2) by (auto simp: in_set_conv_nth)
  define q where "q = (closeCh s)\<lparr>qbuf := [True]\<rparr>"
  have q: "chan_send (closeCh s) True = Sent q" "qbuf q = [True]" "\<not> qclosed q" "qcap q = 1"
    using assms by (simp_all add: q_def chan_send_def core_inv_def queues_ok_def)
  let ?s = "s\<lparr>heap := h, chans := [], trans := transport_close (trans s), closeCh := q, serr := Some e\<rparr>"
  have "shutdown s e = Some ?s" using ps h(1) q(1) by (simp add: shutdown_def)
  moreover have "core_inv ?s"
    using assms(1) hok h(2) q
    by (auto simp: core_inv_def tab_ok_def queues_ok_def getChan_def)
  moreover have "shut_down s ?s e"
    using h(2,3) q(2) in_ps by (simp add: shut_down_def transport_close_def)
  ultimately show ?thesis by blast
qed

end
