(* ===== verification/SessionSteps.thy ===== *)
theory SessionSteps
  imports SessionInv
begin

text \<open>
  A session in use: the receive loop, any number of goroutines calling the methods of the session
  and of its channels, and the network, one step at a time; the invariant of \<open>SessionInv\<close> holds in
  every reachable state.  The second half runs the loop alone: on any finite input it ends or
  parks, and how it leaves the session when it ends.
\<close>

section \<open>Methods of a channel, on the session\<close>

definition s_Read :: "session \<Rightarrow> nat \<Rightarrow> nat \<Rightarrow> (bytes \<times> go_error option) option \<times> session" where
  "s_Read s p n =
     (case ch_Read (heap s ! p) n (trans s) of (r, ch, t) \<Rightarrow> (r, (set_chan s p ch)\<lparr>trans := t\<rparr>))"

definition s_write_iter :: "session \<Rightarrow> nat \<Rightarrow> bytes \<Rightarrow> nat \<Rightarrow> write_state \<times> session" where
  "s_write_iter s p data n =
     (case write_iter data n (heap s ! p) (trans s) of
        (r, ch, t) \<Rightarrow> (r, (set_chan s p ch)\<lparr>trans := t\<rparr>))"

definition s_CloseWrite :: "session \<Rightarrow> nat \<Rightarrow> go_error option \<times> session" where
  "s_CloseWrite s p =
     (case CloseWrite (heap s ! p) (trans s) of (e, ch, t) \<Rightarrow> (e, (set_chan s p ch)\<lparr>trans := t\<rparr>))"

definition s_Close :: "session \<Rightarrow> nat \<Rightarrow> go_error option \<times> session" where
  "s_Close s p =
     (case ch_Close (heap s ! p) (trans s) of (e, ch, t) \<Rightarrow> (e, (set_chan s p ch)\<lparr>trans := t\<rparr>))"

section \<open>Interleaving\<close>

inductive session_step :: "loop_state \<times> session \<Rightarrow> loop_state \<times> session \<Rightarrow> bool" where
  packet: "session_step (st, s) (loop_step (st, s))"
| network: "session_step (st, s) (st, s\<lparr>trans := (trans s)\<lparr>tin := i, tbudget := b\<rparr>\<rparr>)"
| user_open: "Open_start s = (e, p, s') \<Longrightarrow> session_step (st, s) (st, s')"
| user_opened: "p < length (heap s) \<Longrightarrow> Open_finish s p ctx = (r, s') \<Longrightarrow>
     session_step (st, s) (st, s')"
| user_accept: "Accept s b = (r, s') \<Longrightarrow> session_step (st, s) (st, s')"
| user_read: "p < length (heap s) \<Longrightarrow> s_Read s p n = (r, s') \<Longrightarrow> session_step (st, s) (st, s')"
| user_write: "p < length (heap s) \<Longrightarrow> s_write_iter s p data n = (r, s') \<Longrightarrow>
     session_step (st, s) (st, s')"
| user_closewrite: "p < length (heap s) \<Longrightarrow> s_CloseWrite s p = (e, s') \<Longrightarrow>
     session_step (st, s) (st, s')"
| user_close: "p < length (heap s) \<Longrightarrow> s_Close s p = (e, s') \<Longrightarrow> session_step (st, s) (st, s')"
| user_session_close: "session_step (st, s) (st, session_Close s)"

text \<open>
  The states a session reaches from \<open>New\<close>, as long as fewer than \<open>2^32 - 1\<close> channels have been
  allocated (the table's ids are 32 bits wide).
\<close>

inductive session_reachable :: "loop_state \<times> session \<Rightarrow> bool" where
  start: "session_New (Some t) = Some s \<Longrightarrow> session_reachable (Running, s)"
| step: "session_reachable c \<Longrightarrow> session_step c c' \<Longrightarrow> length (heap (snd c')) + 1 < 2 ^ 32 \<Longrightarrow>
     session_reachable c'"

definition loop_ok :: "loop_state \<Rightarrow> session \<Rightarrow> bool" where
  "loop_ok st s \<longleftrightarrow> (case st of
       Running \<Rightarrow> qbuf (closeCh s) = [] \<and> serr s = None
     | OnMsg p m \<Rightarrow> qbuf (closeCh s) = [] \<and> serr s = None
         \<and> p < length (heap s) \<and> \<not> qclosed (msgs (heap s ! p))
     | OnInbox p \<Rightarrow> qbuf (closeCh s) = [] \<and> serr s = None \<and> p < length (heap s)
     | Ended \<Rightarrow> serr s \<noteq> None \<and> tclosed (trans s)
     | Crashed \<Rightarrow> False)"

definition sess_inv :: "loop_state \<times> session \<Rightarrow> bool" where
  "sess_inv c \<longleftrightarrow> core_inv (snd c) \<and> loop_ok (fst c) (snd c) \<and> length (heap (snd c)) + 1 < 2 ^ 32"

section \<open>The loop keeps the invariant\<close>

lemma after_packet_ok:
  assumes "core_inv s" "handled_ok h s" "qbuf (closeCh s) = []" "serr s = None"
    and "after_packet (h, s) = (st, s')"
  shows "core_inv s' \<and> loop_ok st s'"
proof (cases h)
  case (Handled e)
  show ?thesis
  proof (cases e)
    case None
    with Handled assms show ?thesis by (auto simp: after_packet_def loop_ok_def)
  next
    case (Some err)
    obtain s2 where "shutdown s err = Some s2" "core_inv s2" "shut_down s s2 err"
      using shutdown_ok [OF assms(1,3)] by blast
    with Handled Some assms(5) show ?thesis
      by (auto simp: after_packet_def loop_ok_def shut_down_def)
  qed
next
  case (BlockedMsg p m)
  with assms show ?thesis by (auto simp: after_packet_def loop_ok_def handled_ok_def)
next
  case (BlockedInbox p)
  with assms show ?thesis by (auto simp: after_packet_def loop_ok_def handled_ok_def)
next
  case Panicked
  with assms show ?thesis by (simp add: handled_ok_def)
qed

lemma loop_step_ok:
  assumes "sess_inv (st, s)" "loop_step (st, s) = (st', s')"
  shows "core_inv s' \<and> loop_ok st' s'"
proof -
  have c: "core_inv s" "length (heap s) + 1 < 2 ^ 32" "loop_ok st s"
    using assms(1) by (simp_all add: sess_inv_def)
  have go: "core_inv s' \<and> loop_ok st' s'"
    if "core_inv s1 \<and> handled_ok h s1 \<and> keeps s s1" "qbuf (closeCh s) = []" "serr s = None"
      "after_packet (h, s1) = (st', s')" for h s1
    using after_packet_ok [of s1 h st' s'] that by (simp add: keeps_def)
  show ?thesis
  proof (cases st)
    case Running
    obtain h s1 where op: "onePacket s = (h, s1)" by (cases "onePacket s")
    have "qbuf (closeCh s) = []" "serr s = None"
      using c(3) Running by (simp_all add: loop_ok_def)
    then show ?thesis
      using go [OF onePacket_ok [OF c(1,2) op]] op assms(2) Running by simp
  next
    case (OnMsg p m)
    obtain h s1 where op: "deliver s p m = (h, s1)" by (cases "deliver s p m")
    have "qbuf (closeCh s) = []" "serr s = None" "p < length (heap s)" "\<not> qclosed (msgs (heap s ! p))"
      using c(3) OnMsg by (simp_all add: loop_ok_def)
    then show ?thesis
      using go [OF deliver_ok [OF c(1) _ _ op]] op assms(2) OnMsg by simp
  next
    case (OnInbox p)
    obtain h s1 where op: "enqueue_open s p = (h, s1)" by (cases "enqueue_open s p")
    have "qbuf (closeCh s) = []" "serr s = None" "p < length (heap s)"
      using c(3) OnInbox by (simp_all add: loop_ok_def)
    then show ?thesis
      using go [OF enqueue_open_ok [OF c(1) _ op]] op assms(2) OnInbox by simp
  next
    case Ended
    with c assms(2) show ?thesis by auto
  next
    case Crashed
    with c(3) show ?thesis by (simp add: loop_ok_def)
  qed
qed

section \<open>The methods keep the invariant\<close>

text \<open>
  What a method may do to the session besides changing channels: the loop's own conditions survive.
\<close>

definition user_keeps :: "session \<Rightarrow> session \<Rightarrow> bool" where
  "user_keeps s s' \<longleftrightarrow> core_inv s' \<and> serr s' = serr s \<and> length (heap s) \<le> length (heap s')
     \<and> (qbuf (closeCh s) = [] \<longrightarrow> qbuf (closeCh s') = []) \<and> (tclosed (trans s) \<longrightarrow> tclosed (trans s'))
     \<and> (\<forall>p < length (heap s). qclosed (msgs (heap s' ! p)) = qclosed (msgs (heap s ! p)))"

lemma user_keeps_loop: "user_keeps s s' \<Longrightarrow> loop_ok st s \<Longrightarrow> loop_ok st s'"
  by (cases st) (auto simp: user_keeps_def loop_ok_def)

lemma user_keeps_chan:
  assumes "core_inv s" "p < length (heap s)" "chan_ok ch" "localId ch = localId (heap s ! p)"
    and "qclosed (msgs ch) = qclosed (msgs (heap s ! p))" "tclosed t = tclosed (trans s)"
  shows "user_keeps s ((set_chan s p ch)\<lparr>trans := t\<rparr>)"
proof -
  have "core_inv (set_chan s p ch)"
    by (rule core_set_chan) (use assms in auto)
  then show ?thesis
    using assms by (auto simp: user_keeps_def nth_list_update)
qed

lemma send_keeps:
  assumes "core_inv s" "p < length (heap s)" "ch_send ch m (trans s) = (e, ch', t)"
    and "chan_ok ch" "localId ch = localId (heap s ! p)" "msgs ch = msgs (heap s ! p)"
  shows "user_keeps s ((set_chan s p ch')\<lparr>trans := t\<rparr>)"
  using user_keeps_chan [OF assms(1,2), of ch' t] chan_ok_send [OF assms(3,4)]
    send_same [OF assms(3)] assms(5,6) by simp

lemma Open_start_keeps:
  assumes "core_inv s" "length (heap s) + 1 < 2 ^ 32" "Open_start s = (e, p, s')"
  shows "user_keeps s s'"
proof -
  obtain q s1 where nc: "newChannel s channelOutbound = (q, s1)"
    by (cases "newChannel s channelOutbound")
  note n = newChannel_ok [OF assms(1,2) nc]
  let ?ch = "(heap s1 ! q)\<lparr>maxIncomingPayload := channelMaxPacket\<rparr>"
  obtain e1 t where enc: "Encode (trans s1)
      (OpenMessage (localId ?ch) (myWindow ?ch) (maxIncomingPayload ?ch)) = (e1, t)"
    by (cases "Encode (trans s1) (OpenMessage (localId ?ch) (myWindow ?ch) (maxIncomingPayload ?ch))")
  have s': "s' = (set_chan s1 q ?ch)\<lparr>trans := t\<rparr>"
    using assms(3) nc enc by (auto simp: Open_start_def Let_def)
  have "user_keeps s1 s'"
    unfolding s' using n core_heap [of s1 q] Encode_tclosedD [OF enc]
    by (intro user_keeps_chan) auto
  then show ?thesis
    using n by (auto simp: user_keeps_def keeps_def)
qed

lemma Open_finish_keeps:
  assumes "core_inv s" "p < length (heap s)" "Open_finish s p ctx = (r, s')"
  shows "user_keeps s s'"
proof -
  have "user_keeps s (set_chan s p ((heap s ! p)\<lparr>msgs := q\<rparr>))"
    if "chan_recv (msgs (heap s ! p)) = Received m q" for m q
  proof -
    have "qcap q = qcap (msgs (heap s ! p))" "qclosed q = qclosed (msgs (heap s ! p))"
      using that by (auto simp: chan_recv_def split: list.splits if_splits)
    with user_keeps_chan [OF assms(1,2), of "(heap s ! p)\<lparr>msgs := q\<rparr>" "trans s"]
      core_heap [OF assms(1,2)] chan_ok_msgs
    show ?thesis by (simp add: set_chan_def)
  qed
  moreover have "user_keeps s s" using assms(1) by (simp add: user_keeps_def)
  ultimately show ?thesis
    using assms(3)
    by (cases ctx) (auto simp: Open_finish_def split: chan_recv.splits message.splits)
qed

lemma Accept_keeps:
  assumes "core_inv s" "Accept s b = (r, s')"
  shows "user_keeps s s'"
proof -
  have "s' = s \<or> (\<exists>x xs. qbuf (inbox s) = x # xs \<and> s' = s\<lparr>inbox := (inbox s)\<lparr>qbuf := xs\<rparr>\<rparr>)
      \<or> (\<exists>x xs. qbuf (closeCh s) = x # xs \<and> s' = s\<lparr>closeCh := (closeCh s)\<lparr>qbuf := xs\<rparr>\<rparr>)"
    using assms(2) by (auto simp: Accept_def chan_recv_def split: list.splits if_splits)
  then show ?thesis
    using assms(1) by (auto simp: user_keeps_def core_inv_def tab_ok_def queues_ok_def)
qed

lemma s_Read_keeps:
  assumes "core_inv s" "p < length (heap s)" "s_Read s p n = (r, s')"
  shows "user_keeps s s'"
proof -
  obtain r ch t where rd: "ch_Read (heap s ! p) n (trans s) = (r, ch, t)"
    by (cases "ch_Read (heap s ! p) n (trans s)")
  have ok: "chan_ok (heap s ! p)" by (rule core_heap [OF assms(1,2)])
  then have cr: "credit ch = credit (heap s ! p)"
    using ch_Read_credit [OF rd] by (simp add: chan_ok_def window_size_value)
  have sh: "bclosed b = bclosed (pending (heap s ! p))"
    if "buffer_read (pending (heap s ! p)) n = (x, b)" for x b
    using rbuf.get_shut [of "pending (heap s ! p)" n] that by simp
  have "localId ch = localId (heap s ! p) \<and> msgs ch = msgs (heap s ! p)
      \<and> bclosed (pending ch) = bclosed (pending (heap s ! p))
      \<and> wclosed (remoteWin ch) = wclosed (remoteWin (heap s ! p))
      \<and> (sentClose (heap s ! p) \<longrightarrow> sentClose ch) \<and> tclosed t = tclosed (trans s)"
    using rd
    by (auto simp: ch_Read_def adjustWindow_def adjust_credit_def Let_def ch_send_eq
        dest!: sh split: prod.splits option.splits if_splits)
  then show ?thesis
    using assms user_keeps_chan [OF assms(1,2), of ch t] ok cr rd
    by (auto simp: s_Read_def chan_ok_def)
qed

lemma write_iter_frame:
  assumes "write_iter data n ch t = (r, ch', t')"
  shows "\<exists>w. ch' = ch\<lparr>remoteWin := w\<rparr> \<and> wclosed w = wclosed (remoteWin ch) \<and> tclosed t' = tclosed t"
proof -
  obtain g w where r: "reserve (remoteWin ch) (min32 (maxRemotePayload ch) (length data)) = (g, w)"
    by (cases "reserve (remoteWin ch) (min32 (maxRemotePayload ch) (length data))")
  have "wclosed w = wclosed (remoteWin ch)"
    using r reserve_parked reserve_grant by (cases g) fastforce+
  then show ?thesis
    using assms r
    by (auto simp: write_iter_def Let_def dest: Encode_tclosedD
        split: option.splits prod.splits intro!: exI [of _ w])
qed

lemma user_step_keeps:
  assumes "session_step (st, s) (st', s')" "core_inv s" "length (heap s) + 1 < 2 ^ 32"
  shows "(st', s') = loop_step (st, s) \<or> (st' = st \<and> user_keeps s s')"
  using assms(1)
proof (cases rule: session_step.cases)
  case packet
  then show ?thesis by simp
next
  case (network i b)
  then show ?thesis using assms(2) by (simp add: user_keeps_def)
next
  case (user_open e p)
  then show ?thesis using Open_start_keeps assms by blast
next
  case (user_opened p ctx r)
  then show ?thesis using Open_finish_keeps assms by blast
next
  case (user_accept b r)
  then show ?thesis using Accept_keeps assms by blast
next
  case (user_read p n r)
  then show ?thesis using s_Read_keeps assms by blast
next
  case (user_write p data n r)
  obtain r1 ch t where w: "write_iter data n (heap s ! p) (trans s) = (r1, ch, t)"
    by (cases "write_iter data n (heap s ! p) (trans s)")
  then have "user_keeps s ((set_chan s p ch)\<lparr>trans := t\<rparr>)"
    using write_iter_frame [OF w] core_heap [OF assms(2) user_write(2)]
    by (auto intro!: user_keeps_chan [OF assms(2) user_write(2)] chan_ok_window)
  then show ?thesis using user_write w by (simp add: s_write_iter_def)
next
  case (user_closewrite p e)
  obtain e1 ch t where w: "CloseWrite (heap s ! p) (trans s) = (e1, ch, t)"
    by (cases "CloseWrite (heap s ! p) (trans s)")
  have "user_keeps s ((set_chan s p ch)\<lparr>trans := t\<rparr>)"
    by (rule send_keeps [OF assms(2) user_closewrite(2) w [unfolded CloseWrite_def Let_def]])
      (use core_heap [OF assms(2) user_closewrite(2)] in auto)
  then show ?thesis using user_closewrite w by (simp add: s_CloseWrite_def)
next
  case (user_close p e)
  obtain e1 ch t where w: "ch_Close (heap s ! p) (trans s) = (e1, ch, t)"
    by (cases "ch_Close (heap s ! p) (trans s)")
  have "user_keeps s ((set_chan s p ch)\<lparr>trans := t\<rparr>)"
    by (rule send_keeps [OF assms(2) user_close(2) w [unfolded ch_Close_def]])
      (use core_heap [OF assms(2) user_close(2)] in auto)
  then show ?thesis using user_close w by (simp add: s_Close_def)
next
  case user_session_close
  then show ?thesis
    using assms(2) by (simp add: user_keeps_def session_Close_def transport_close_def)
qed

lemma session_step_inv:
  assumes "session_step c c'" "sess_inv c" "length (heap (snd c')) + 1 < 2 ^ 32"
  shows "sess_inv c'"
proof -
  obtain st s st' s' where c: "c = (st, s)" "c' = (st', s')" by (cases c, cases c')
  have ci: "core_inv s" "length (heap s) + 1 < 2 ^ 32" "loop_ok st s"
    using assms(2) c by (simp_all add: sess_inv_def)
  from user_step_keeps [OF assms(1) [unfolded c] ci(1,2)] show ?thesis
  proof
    assume "(st', s') = loop_step (st, s)"
    then have "core_inv s' \<and> loop_ok st' s'"
      by (intro loop_step_ok [OF assms(2) [unfolded c]]) (rule sym)
    with assms(3) show ?thesis unfolding c by (simp add: sess_inv_def)
  next
    assume "st' = st \<and> user_keeps s s'"
    then show ?thesis
      using user_keeps_loop [of s s' st] ci(3) assms(3) c by (simp add: sess_inv_def user_keeps_def)
  qed
qed

lemma session_New_inv: "session_New (Some t) = Some s \<Longrightarrow> sess_inv (Running, s)"
  by (auto simp: session_New_def sess_inv_def core_inv_def tab_ok_def queues_ok_def loop_ok_def
      getChan_def)

lemma session_reachable_inv: "session_reachable c \<Longrightarrow> sess_inv c"
  by (induction rule: session_reachable.induct) (auto intro: session_New_inv session_step_inv)

section \<open>The loop alone\<close>

text \<open>No handler reads from the transport.\<close>

lemma tin_deliver: "deliver s p m = (h, s') \<Longrightarrow> tin (trans s') = tin (trans s)"
  by (auto simp: deliver_def split: chan_send.splits)

lemma tin_send: "ch_send ch m t = (e, ch', t') \<Longrightarrow> tin t' = tin t"
  using send_tin [of ch m t] by simp

lemma tin_enqueue: "enqueue_open s p = (h, s') \<Longrightarrow> tin (trans s') = tin (trans s)"
  by (auto simp: enqueue_open_def confirm_open_def Let_def dest: Encode_tinD
      split: chan_send.splits prod.splits)

lemma tin_handle: "handle s p m = (h, s') \<Longrightarrow> tin (trans s') = tin (trans s)"
proof (cases m)
  case (CloseMessage cid)
  then show "handle s p m = (h, s') \<Longrightarrow> tin (trans s') = tin (trans s)"
    by (auto simp: handle_close_def Let_def dest: tin_send split: prod.splits option.splits)
qed (auto simp: Let_def dest!: tin_deliver split: prod.splits option.splits if_splits)

lemma newChannel_trans: "newChannel s dir = (p, s') \<Longrightarrow> trans s' = trans s"
  by (auto simp: newChannel_def Let_def split: prod.splits)

lemma tin_dispatch: "dispatch s m = (h, s') \<Longrightarrow> tin (trans s') = tin (trans s)"
  by (cases m)
    (auto simp: dispatch_def handleOpen_def Let_def simp del: handle.simps
      dest!: tin_handle tin_enqueue newChannel_trans dest: Encode_tinD
      split: prod.splits option.splits if_splits)

lemma Decode_size:
  assumes "Decode transport_read t = (Ok m, t')"
  shows "stream_size (tin t') < stream_size (tin t)"
proof -
  have le: "stream_size (tin t') \<le> stream_size (tin t)" if "read_into transport_read t n = (b, e, t')"
    for t n b e t'
    using that transport_read_size_le by (auto simp: read_into_def split: prod.splits)
  obtain b e1 t1 where r1: "read_into transport_read t 1 = (b, e1, t1)"
    by (cases "read_into transport_read t 1")
  with assms have "e1 = None"
    by (cases e1) (auto simp: Decode_def readPacket_def simp del: One_nat_def)
  then have "stream_size (tin t1) < stream_size (tin t)"
    using r1 transport_read_size [of t 1] by (auto simp: read_into_def split: prod.splits)
  moreover have "stream_size (tin t') \<le> stream_size (tin t1)"
    using assms r1
    by (auto simp: Decode_def readPacket_def Let_def simp del: One_nat_def dest!: le
        split: prod.splits option.splits if_splits result.splits)
  ultimately show ?thesis by simp
qed

lemma loop_step_size:
  assumes "loop_step (Running, s) = (Running, s')"
  shows "stream_size (tin (trans s')) < stream_size (tin (trans s))"
proof -
  obtain h s1 where op: "onePacket s = (h, s1)" by (cases "onePacket s")
  with assms have "h = Handled None" "s1 = s'"
    by (auto simp: after_packet_def split: handled.splits option.splits)
  then obtain m t where "Decode transport_read (trans s) = (Ok m, t)"
    "dispatch (s\<lparr>trans := t\<rparr>) m = (Handled None, s')"
    using op by (auto simp: onePacket_def split: prod.splits result.splits)
  then show ?thesis using Decode_size tin_dispatch by fastforce
qed

text \<open>
  \<open>loop\<close> run by itself on the input that has arrived: until it ends, parks or crashes.
\<close>

function loop_run :: "session \<Rightarrow> loop_state \<times> session" where
  "loop_run s = (case loop_step (Running, s) of (st, s') \<Rightarrow>
     if st = Running then loop_run s' else (st, s'))"
  by pat_completeness auto
termination
  by (relation "measure (\<lambda>s. stream_size (tin (trans s)))") (auto intro: loop_step_size)

declare loop_run.simps [simp del]

lemma loop_run_stops: "fst (loop_run s) \<noteq> Running"
proof (induction s rule: loop_run.induct)
  case (1 s)
  then show ?case
    by (subst loop_run.simps) (cases "loop_step (Running, s)", simp)
qed

text \<open>Any run of the loop is a run of the step relation, while ids last.\<close>

lemma loop_step_heap:
  assumes "sess_inv (Running, s)"
  shows "length (heap s) \<le> length (heap (snd (loop_step (Running, s))))"
proof -
  obtain h s1 where op: "onePacket s = (h, s1)" by (cases "onePacket s")
  have k: "core_inv s1" "keeps s s1" "qbuf (closeCh s1) = []"
    using onePacket_ok [OF _ _ op] assms
    by (auto simp: sess_inv_def loop_ok_def keeps_def)
  show ?thesis
  proof (cases "\<exists>e. h = Handled (Some e)")
    case True
    then obtain e where h: "h = Handled (Some e)" by blast
    obtain s2 where "shutdown s1 e = Some s2" "shut_down s1 s2 e"
      using shutdown_ok [OF k(1,3)] by blast
    with op h k(2) show ?thesis by (simp add: after_packet_def shut_down_def keeps_def)
  next
    case False
    with op k(2) show ?thesis
      by (auto simp: after_packet_def keeps_def split: handled.splits option.splits)
  qed
qed

text \<open>How an error in a packet ends the loop.\<close>

lemma loop_ends:
  assumes "sess_inv (Running, s)" "onePacket s = (Handled (Some e), s1)"
  shows "\<exists>s'. loop_step (Running, s) = (Ended, s') \<and> shut_down s1 s' e \<and> core_inv s'"
proof -
  have c: "core_inv s" "length (heap s) + 1 < 2 ^ 32" "qbuf (closeCh s) = []"
    using assms(1) by (auto simp: sess_inv_def loop_ok_def)
  have "core_inv s1" "qbuf (closeCh s1) = []"
    using onePacket_ok [OF c(1,2) assms(2)] c(3) by (auto simp: keeps_def)
  then obtain s' where "shutdown s1 e = Some s'" "core_inv s'" "shut_down s1 s' e"
    using shutdown_ok by blast
  then show ?thesis using assms(2) by (auto simp: after_packet_def)
qed

section \<open>Properties\<close>

text \<open>Sessions to apply the properties to.\<close>

definition fresh_session :: session where
  "fresh_session = \<lparr>trans = sample_transport, heap = [], chans = [], inbox = make_chan chanSize,
     closeCh = make_chan 1, serr = None\<rparr>"

lemma fresh_reachable: "session_reachable (Running, fresh_session)"
  by (rule session_reachable.start [of sample_transport])
    (simp add: session_New_def fresh_session_def)

definition opened_session :: session where
  "opened_session = fresh_session\<lparr>
     trans := sample_transport\<lparr>tout := wire (OpenMessage 0 channelWindowSize channelMaxPacket)\<rparr>,
     heap := [(new_chan channelOutbound)\<lparr>maxIncomingPayload := channelMaxPacket\<rparr>],
     chans := [Some 0]\<rparr>"

lemma opened_session_simps [simp]:
  "heap opened_session = [(new_chan channelOutbound)\<lparr>maxIncomingPayload := channelMaxPacket\<rparr>]"
  "getChan (chans opened_session) 0 = Some 0" "tin (trans opened_session) = tin sample_transport"
  "tclosed (trans opened_session) = False"
  by (simp_all add: opened_session_def getChan_def sample_transport_def)

lemma Open_fresh: "Open_start fresh_session = (None, 0, opened_session)"
  by (simp add: Open_start_def newChannel_def fresh_session_def opened_session_def chans_add_def
      Let_def Encode_free set_chan_def new_chan_def del: wire.simps)
    (simp add: sample_transport_def)

lemma opened_reachable: "session_reachable (Running, opened_session)"
  by (rule session_reachable.step [OF fresh_reachable session_step.user_open [OF Open_fresh]]) simp





text \<open>
  C25: In every reachable state every channel accounts for its whole receive window: the credit the
  peer still has and the bytes received and not yet read add up to \<open>channelWindowSize\<close>, so a peer
  can never make the session buffer more than that for one channel.
\<close>

theorem receive_window_accounted:
  assumes "session_reachable (st, s)" "p < length (heap s)"
  shows "unat (myWindow (heap s ! p)) + length (buffer_content (pending (heap s ! p)))
    = unat channelWindowSize"
  using session_reachable_inv [OF assms(1)] core_heap [OF _ assms(2)]
  by (simp add: sess_inv_def chan_ok_def credit_def window_size_def)

theorem receive_window_accounted_witness: "unat (myWindow (heap opened_session ! 0)) \<le> 2097152"
  using receive_window_accounted [OF opened_reachable, of 0] by simp

text \<open>
  C27: On any finite input the receive loop stops: after finitely many packets it has ended, or is
  parked on a full queue, or (outside the reachable states) has crashed.  From a state of a running
  session no packet is handled without consuming input.
\<close>

theorem loop_stops_on_finite_input:
  "fst (loop_run s) \<noteq> Running \<and>
   (fst (loop_step (Running, s)) = Running \<longrightarrow>
      stream_size (tin (trans (snd (loop_step (Running, s))))) < stream_size (tin (trans s)))"
  using loop_run_stops [of s] loop_step_size [of s "snd (loop_step (Running, s))"]
  by (metis prod.collapse)

theorem loop_stops_on_finite_input_witness: "fst (loop_run opened_session) \<noteq> Running"
  using loop_stops_on_finite_input [of opened_session] by simp



text \<open>
  After the loop has ended with no channel waiting, exactly one call of \<open>Accept\<close> returns
  (\<open>io.EOF\<close>); the next one parks, and no later step of the loop wakes it.
\<close>

theorem second_accept_parks:
  assumes "session_reachable (Running, s)" "onePacket s = (Handled (Some e), s1)"
    and "qbuf (inbox s1) = []"
  shows "\<exists>s2 s3. loop_step (Running, s) = (Ended, s2) \<and> Accept s2 b = (Some (Inl EOF), s3)
    \<and> (\<forall>n. (loop_step ^^ n) (Ended, s3) = (Ended, s3)) \<and> Accept s3 b' = (None, s3)"
proof -
  note inv = session_reachable_inv [OF assms(1)]
  obtain s2 where s2: "loop_step (Running, s) = (Ended, s2)" "shut_down s1 s2 e" "core_inv s2"
    using loop_ends [OF inv assms(2)] by blast
  have "shutdown s1 e = Some s2"
    using s2(1) assms(2) by (auto simp: after_packet_def split: option.splits)
  then have "inbox s2 = inbox s1"
    by (auto simp: shutdown_def split: prod.splits option.splits chan_send.splits)
  then have in2: "qbuf (inbox s2) = []" "\<not> qclosed (inbox s2)" "\<not> qclosed (closeCh s2)"
    "qbuf (closeCh s2) = [True]"
    using assms(3) s2(2,3) by (simp_all add: core_inv_def queues_ok_def shut_down_def)
  let ?s3 = "s2\<lparr>closeCh := (closeCh s2)\<lparr>qbuf := []\<rparr>\<rparr>"
  have "Accept s2 b = (Some (Inl EOF), ?s3)" "Accept ?s3 b' = (None, ?s3)"
    using in2 by (simp_all add: Accept_def chan_recv_def)
  moreover have "(loop_step ^^ n) (Ended, ?s3) = (Ended, ?s3)" for n
    by (induction n) simp_all
  ultimately show ?thesis using s2(1) by blast
qed

theorem second_accept_parks_witness:
  "\<exists>s2 s3. loop_step (Running, opened_session) = (Ended, s2)
    \<and> Accept s2 True = (Some (Inl EOF), s3) \<and> Accept s3 True = (None, s3)"
proof -
  obtain t where "Decode transport_read (trans opened_session) = (Err EOF, t)"
    by (simp add: Decode_def readPacket_def read_into_def transport_read_def sample_transport_def
        stream_read_def map_reset_def del: One_nat_def)
  then have 1: "onePacket opened_session = (Handled (Some EOF), opened_session\<lparr>trans := t\<rparr>)"
    by (simp add: onePacket_def)
  have "qbuf (inbox (opened_session\<lparr>trans := t\<rparr>)) = []"
    by (simp add: opened_session_def fresh_session_def make_chan_def)
  from second_accept_parks [OF opened_reachable 1 this] show ?thesis by blast
qed

text \<open>
  \<open>Open\<close> does not give its channel id back when it fails: after a failed write of the request,
  and after the context has ended the wait, the new channel is still in the table, with nobody left
  to close it.
\<close>

theorem failed_open_leaks_id:
  assumes "session_reachable (st, s)" "Open_start s = (e, p, s1)"
  shows "\<exists>i. getChan (chans s) i = None \<and> getChan (chans s1) i = Some p
    \<and> (e = None \<longrightarrow> (\<forall>err s2. Open_finish s1 p (Some err) = (Some (Inl err), s2) \<longrightarrow>
          getChan (chans s2) i = Some p))"
proof -
  have inv: "core_inv s" "length (heap s) + 1 < 2 ^ 32"
    using session_reachable_inv [OF assms(1)] by (simp_all add: sess_inv_def)
  obtain q s0 where nc: "newChannel s channelOutbound = (q, s0)"
    by (cases "newChannel s channelOutbound")
  note n = newChannel_ok [OF inv nc]
  have "p = q" "chans s1 = chans s0"
    using assms(2) nc by (auto simp: Open_start_def Let_def split: prod.splits)
  moreover have "getChan (chans s0) (localId (heap s0 ! q)) = Some q" using n by blast
  ultimately have "getChan (chans s1) (localId (heap s0 ! q)) = Some p" by simp
  moreover have "getChan (chans s) (localId (heap s0 ! q)) = None"
  proof (cases "chans_add (chans s) q")
    case (Pair i cs)
    have "q = length (heap s)" "i = localId (heap s0 ! q)"
      using nc Pair by (auto simp: newChannel_def Let_def split: prod.splits)
    then show ?thesis using ctab.insert_fresh [OF core_small [OF inv(1)], of q] Pair by simp
  qed
  ultimately show ?thesis by (auto simp: Open_finish_def)
qed

theorem failed_open_leaks_id_witness: "\<exists>i. getChan (chans opened_session) i = Some 0"
  using failed_open_leaks_id [OF fresh_reachable Open_fresh] by blast

end
