(* ===== verification/ChannelPair.thy ===== *)
theory ChannelPair
  imports Channel
begin

text \<open>
  Both ends of one direction of an open channel: a writer on one end, a reader on the other, the
  bytes in flight between the two sessions, and the goroutines of both ends interleaved at every
  point where the code releases a lock.  Packets are really marshalled and decoded; the network
  keeps the order and does not split a packet over two reads.  The lemmas are the promises of the
  \<open>mux.Channel\<close> interface: the stream is ordered and reliable, flow control never makes an end fail,
  and writers do not wait for ever on a reader that reads.
\<close>

section \<open>State and steps\<close>

text \<open>
  \<open>todo\<close> is what the running \<open>Write\<close> still has to send and \<open>held\<close> the chunk it has reserved credit
  for and not yet encoded; \<open>owed\<close> counts the bytes a running \<open>Read\<close> has taken out of the buffer and
  not yet added to \<open>myWindow\<close>, and \<open>unsent\<close> is the window update it has still to send.  \<open>written\<close>
  and \<open>got\<close> record what was given to \<open>Write\<close> and returned by \<open>Read\<close>; \<open>failed\<close> is the error of a
  packet handler, which would end its session.
\<close>

record pair =
  sch :: channel
  rch :: channel
  sout :: transport
  rout :: transport
  todo :: bytes
  held :: "bytes option"
  owed :: nat
  unsent :: "u32 option"
  written :: bytes
  got :: bytes
  failed :: "go_error option"

text \<open>The next packet on a wire.\<close>

definition next_packet :: "transport \<Rightarrow> (message \<times> transport) option" where
  "next_packet t = (case Decode bytesbuf_read (tout t) of
       (Ok m, rest) \<Rightarrow> Some (m, t\<lparr>tout := rest\<rparr>) | _ \<Rightarrow> None)"

text \<open>The steps the two ends and the network take by themselves.\<close>

inductive pair_move :: "pair \<Rightarrow> pair \<Rightarrow> bool" where
  reserve: "todo s \<noteq> [] \<Longrightarrow> held s = None \<Longrightarrow>
     reserve (remoteWin (sch s)) (min32 (maxRemotePayload (sch s)) (length (todo s)))
       = (Some (k, None), w) \<Longrightarrow>
     pair_move s (s\<lparr>sch := (sch s)\<lparr>remoteWin := w\<rparr>, held := Some (take (unat k) (todo s)),
                    todo := drop (unat k) (todo s)\<rparr>)"
| encode: "held s = Some d \<Longrightarrow>
     Encode (sout s) (DataMessage (remoteId (sch s)) (of_nat (length d)) d) = (None, t) \<Longrightarrow>
     pair_move s (s\<lparr>sout := t, held := None\<rparr>)"
| receive: "failed s = None \<Longrightarrow> next_packet (sout s) = Some (m, t) \<Longrightarrow>
     handle_stream (rch s) m = Some (e, ch) \<Longrightarrow>
     pair_move s (s\<lparr>sout := t, rch := ch, failed := e\<rparr>)"
| take_bytes: "owed s = 0 \<Longrightarrow> unsent s = None \<Longrightarrow> 0 < n \<Longrightarrow>
     buffer_read (pending (rch s)) n = (Some (bs, None), b) \<Longrightarrow>
     pair_move s (s\<lparr>rch := (rch s)\<lparr>pending := b\<rparr>, owed := length bs, got := got s @ bs\<rparr>)"
| credit: "0 < owed s \<Longrightarrow>
     pair_move s (s\<lparr>rch := adjust_credit (rch s) (of_nat (owed s)), owed := 0,
                    unsent := Some (of_nat (owed s))\<rparr>)"
| adjust: "unsent s = Some n \<Longrightarrow>
     ch_send (rch s) (WindowAdjustMessage (remoteId (rch s)) n) (rout s) = (e, ch, t) \<Longrightarrow>
     pair_move s (s\<lparr>rch := ch, rout := t, unsent := None\<rparr>)"
| refill: "failed s = None \<Longrightarrow> next_packet (rout s) = Some (m, t) \<Longrightarrow>
     handle_stream (sch s) m = Some (e, ch) \<Longrightarrow>
     pair_move s (s\<lparr>rout := t, sch := ch, failed := e\<rparr>)"

text \<open>The steps of the program that uses the writing end.\<close>

inductive pair_call :: "pair \<Rightarrow> pair \<Rightarrow> bool" where
  submit: "todo s = [] \<Longrightarrow> held s = None \<Longrightarrow> \<not> sentEOF (sch s) \<Longrightarrow> length data < 2 ^ 32 \<Longrightarrow>
     pair_call s (s\<lparr>todo := data, written := written s @ data\<rparr>)"
| finish: "todo s = [] \<Longrightarrow> held s = None \<Longrightarrow> \<not> sentEOF (sch s) \<Longrightarrow>
     CloseWrite (sch s) (sout s) = (e, ch, t) \<Longrightarrow> pair_call s (s\<lparr>sch := ch, sout := t\<rparr>)"

text \<open>What an opened channel looks like at both ends.\<close>

definition full_window :: nat where
  "full_window = 2097152"

definition pair_init :: "pair \<Rightarrow> bool" where
  "pair_init s \<longleftrightarrow>
     unat (win (remoteWin (sch s))) = full_window \<and> unat (myWindow (rch s)) = full_window
     \<and> \<not> wclosed (remoteWin (sch s)) \<and> \<not> sentClose (sch s) \<and> \<not> sentClose (rch s)
     \<and> \<not> sentEOF (sch s) \<and> pending (rch s) = newBuffer
     \<and> maxRemotePayload (sch s) = maxIncomingPayload (rch s) \<and> maxIncomingPayload (rch s) \<noteq> 0
     \<and> free_transport (sout s) \<and> free_transport (rout s) \<and> tout (sout s) = [] \<and> tout (rout s) = []
     \<and> todo s = [] \<and> held s = None \<and> owed s = 0 \<and> unsent s = None
     \<and> written s = [] \<and> got s = [] \<and> failed s = None"

inductive pair_reachable :: "pair \<Rightarrow> bool" where
  start: "pair_init s \<Longrightarrow> pair_reachable s"
| move: "pair_reachable s \<Longrightarrow> pair_move s s' \<Longrightarrow> pair_reachable s'"
| call: "pair_reachable s \<Longrightarrow> pair_call s s' \<Longrightarrow> pair_reachable s'"

section \<open>The invariant\<close>

fun payload :: "message \<Rightarrow> bytes" where
  "payload (DataMessage cid n d) = d"
| "payload _ = []"

fun is_data :: "u32 \<Rightarrow> message \<Rightarrow> bool" where
  "is_data mx (DataMessage cid n d) = (unat n = length d \<and> n \<le> mx \<and> d \<noteq> [])"
| "is_data mx _ = False"

fun adjustment :: "message \<Rightarrow> nat" where
  "adjustment (WindowAdjustMessage cid n) = unat n"
| "adjustment _ = 0"

definition bytes_held :: "pair \<Rightarrow> bytes" where
  "bytes_held s = (case held s of None \<Rightarrow> [] | Some d \<Rightarrow> d)"

definition update_unsent :: "pair \<Rightarrow> nat" where
  "update_unsent s = (case unsent s of None \<Rightarrow> 0 | Some n \<Rightarrow> unat n)"

text \<open>
  \<open>pair_inv s ds es cs\<close>: \<open>ds\<close> are the data packets on the wire, \<open>es\<close> the end-of-stream packet after
  them if it is on its way, \<open>cs\<close> the window updates on the wire back.
\<close>

definition pair_inv :: "pair \<Rightarrow> message list \<Rightarrow> message list \<Rightarrow> message list \<Rightarrow> bool" where
  "pair_inv s ds es cs \<longleftrightarrow>
     tout (sout s) = concat (map wire (ds @ es)) \<and> tout (rout s) = concat (map wire cs)
     \<and> free_transport (sout s) \<and> free_transport (rout s)
     \<and> list_all (is_data (maxIncomingPayload (rch s))) ds
     \<and> list_all (\<lambda>m. is_WindowAdjustMessage m \<and> 0 < adjustment m) cs
     \<and> (if sentEOF (sch s)
        then todo s = [] \<and> held s = None
          \<and> (if bclosed (pending (rch s)) then ds = [] \<and> es = []
             else \<exists>cid. es = [EOFMessage cid])
        else es = [] \<and> \<not> bclosed (pending (rch s)))
     \<and> written s = got s @ buffer_content (pending (rch s)) @ concat (map payload ds)
         @ bytes_held s @ todo s
     \<and> unat (myWindow (rch s)) + length (buffer_content (pending (rch s))) + owed s = full_window
     \<and> unat (win (remoteWin (sch s))) + length (bytes_held s) + length (concat (map payload ds))
         + length (buffer_content (pending (rch s))) + owed s + update_unsent s
         + sum_list (map adjustment cs) = full_window
     \<and> (\<forall>d. held s = Some d \<longrightarrow> d \<noteq> [] \<and> length d \<le> unat (maxIncomingPayload (rch s)))
     \<and> (\<forall>n. unsent s = Some n \<longrightarrow> n \<noteq> 0 \<and> owed s = 0)
     \<and> length (todo s) < 2 ^ 32
     \<and> \<not> wclosed (remoteWin (sch s)) \<and> \<not> sentClose (sch s) \<and> \<not> sentClose (rch s)
     \<and> maxRemotePayload (sch s) = maxIncomingPayload (rch s) \<and> maxIncomingPayload (rch s) \<noteq> 0
     \<and> failed s = None"

lemma pair_init_inv: "pair_init s \<Longrightarrow> pair_inv s [] [] []"
  by (simp add: pair_init_def pair_inv_def bytes_held_def update_unsent_def)

lemma next_packet_wire:
  assumes "tout t = concat (map wire (m # ms))" "wf_msg m"
  shows "next_packet t = Some (m, t\<lparr>tout := concat (map wire ms)\<rparr>)"
  using bytesbuf.Decode_wire [of "tout t" m "concat (map wire ms)"] assms
  by (auto simp: next_packet_def)

lemma next_packet_empty: "tout t = [] \<Longrightarrow> next_packet t = None"
  by (simp add: next_packet_def Decode_def readPacket_def read_into_def bytesbuf_read_def)

section \<open>Every step keeps it\<close>

lemma reserve_chunk:
  assumes "reserve w (min32 mx l) = (Some (k, None), w')" "mx \<noteq> 0" "0 < l" "l < 2 ^ 32"
  shows "0 < unat k" "unat k \<le> l" "unat k \<le> unat mx" "unat k \<le> unat (win w)"
    "unat (win w') = unat (win w) - unat k" "\<not> wclosed w'"
proof -
  note g = reserve_grant [OF assms(1)]
  then have open_w: "\<not> wclosed w" "win w \<noteq> 0" by (auto split: if_splits)
  have "unat k = min (min (unat mx) l) (unat (win w))"
    using g min32_eq [OF assms(4)] by simp
  moreover have "0 < unat mx" "0 < unat (win w)"
    using assms(2) open_w(2) by (simp_all add: unat_gt_0)
  ultimately show "0 < unat k" "unat k \<le> l" "unat k \<le> unat mx" "unat k \<le> unat (win w)"
    using assms(3) by auto
  show "unat (win w') = unat (win w) - unat k" "\<not> wclosed w'"
    using g open_w(1) by auto
qed

lemma inv_reserve:
  assumes inv: "pair_inv s ds es cs" and "todo s \<noteq> []" "held s = None"
    and r: "reserve (remoteWin (sch s)) (min32 (maxRemotePayload (sch s)) (length (todo s)))
       = (Some (k, None), w)"
  shows "pair_inv (s\<lparr>sch := (sch s)\<lparr>remoteWin := w\<rparr>, held := Some (take (unat k) (todo s)),
                    todo := drop (unat k) (todo s)\<rparr>) ds es cs"
proof -
  have "maxRemotePayload (sch s) \<noteq> 0" "length (todo s) < 2 ^ 32"
    "maxRemotePayload (sch s) = maxIncomingPayload (rch s)"
    using inv by (auto simp: pair_inv_def)
  note c = reserve_chunk [OF r this(1) _ this(2)] this(3)
  have "0 < length (todo s)" using assms(2) by simp
  with c have k: "0 < unat k" "unat k \<le> length (todo s)" "unat k \<le> unat (maxIncomingPayload (rch s))"
    "unat k \<le> unat (win (remoteWin (sch s)))"
    "unat (win w) = unat (win (remoteWin (sch s))) - unat k" "\<not> wclosed w"
    by auto
  have "\<not> sentEOF (sch s)" using inv assms(2) by (auto simp: pair_inv_def split: if_splits)
  then show ?thesis
    using inv k assms(2,3) by (auto simp: pair_inv_def bytes_held_def update_unsent_def)
qed

lemma inv_encode:
  assumes inv: "pair_inv s ds es cs" and h: "held s = Some d"
    and e: "Encode (sout s) (DataMessage (remoteId (sch s)) (of_nat (length d)) d) = (None, t)"
  shows "pair_inv (s\<lparr>sout := t, held := None\<rparr>)
    (ds @ [DataMessage (remoteId (sch s)) (of_nat (length d)) d]) es cs"
proof -
  have f: "free_transport (sout s)" "d \<noteq> []" "length d \<le> unat (maxIncomingPayload (rch s))"
    "\<not> sentEOF (sch s)"
    using inv h by (auto simp: pair_inv_def split: if_splits)
  have "length d < 2 ^ 32" using f(3) u32_lt by (rule le_less_trans)
  then have u: "unat (of_nat (length d) :: u32) = length d" by (simp add: unat_of_nat)
  have le: "(of_nat (length d) :: u32) \<le> maxIncomingPayload (rch s)"
    unfolding word_le_nat_alt u by (rule f(3))
  have t: "t = (sout s)\<lparr>tout := tout (sout s)
      @ wire (DataMessage (remoteId (sch s)) (of_nat (length d)) d)\<rparr>"
    using e Encode_free [OF f(1)] by simp
  have "es = []" using inv f(4) by (simp add: pair_inv_def)
  then show ?thesis
    using inv h f u le t
    by (simp add: pair_inv_def bytes_held_def update_unsent_def del: wire.simps)
qed

lemma inv_receive:
  assumes inv: "pair_inv s ds es cs" and np: "next_packet (sout s) = Some (m, t)"
    and hs: "handle_stream (rch s) m = Some (e, ch)"
  shows "e = None \<and> (\<exists>ds' es'. pair_inv (s\<lparr>sout := t, rch := ch, failed := e\<rparr>) ds' es' cs
    \<and> length (ds' @ es') < length (ds @ es) \<and> (ds \<noteq> [] \<longrightarrow> es' = es \<and> (\<exists>d. d \<noteq> [] \<and>
          concat (map payload ds) = d @ concat (map payload ds') \<and>
          buffer_content (pending ch) = buffer_content (pending (rch s)) @ d)))"
proof (cases ds)
  case Nil
  show ?thesis
  proof (cases es)
    case Nil
    with \<open>ds = []\<close> inv have "tout (sout s) = []" by (simp add: pair_inv_def)
    then show ?thesis using np next_packet_empty by simp
  next
    case (Cons m' es')
    then obtain cid where es: "es = [EOFMessage cid]" and eof: "sentEOF (sch s)"
      using inv by (auto simp: pair_inv_def split: if_splits)
    have "next_packet (sout s) = Some (EOFMessage cid, (sout s)\<lparr>tout := concat (map wire [])\<rparr>)"
      by (rule next_packet_wire) (use inv es \<open>ds = []\<close> in \<open>simp_all add: pair_inv_def\<close>)
    with np hs have "e = None" "ch = (rch s)\<lparr>pending := buffer_eof (pending (rch s))\<rparr>"
      "t = (sout s)\<lparr>tout := []\<rparr>" by auto
    then have "e = None \<and> pair_inv (s\<lparr>sout := t, rch := ch, failed := e\<rparr>) [] [] cs"
      using inv es eof \<open>ds = []\<close>
      by (auto simp: pair_inv_def bytes_held_def update_unsent_def rbuf.items_shut rbuf.shut_shut)
    then show ?thesis using es \<open>ds = []\<close> by (intro conjI exI [of _ "[]"]) auto
  qed
next
  case (Cons m' ds')
  then obtain cid n d where m': "m' = DataMessage cid n d" "unat n = length d"
    "n \<le> maxIncomingPayload (rch s)" "d \<noteq> []"
    using inv by (cases m') (auto simp: pair_inv_def)
  have "next_packet (sout s) = Some (m', (sout s)\<lparr>tout := concat (map wire (ds' @ es))\<rparr>)"
    by (rule next_packet_wire)
      (use inv Cons m' in \<open>simp_all add: pair_inv_def del: wire.simps\<close>)
  with np have m: "m = m'" "t = (sout s)\<lparr>tout := concat (map wire (ds' @ es))\<rparr>" by simp_all
  have sum: "length d + length (buffer_content (pending (rch s))) + owed s \<le> full_window"
    "unat (myWindow (rch s)) + length (buffer_content (pending (rch s))) + owed s = full_window"
    using inv Cons m'(1) by (simp_all add: pair_inv_def)
  then have "n \<le> myWindow (rch s)" using m'(2) by (simp add: word_le_nat_alt)
  moreover have "n = of_nat (length d)" using m'(2) by (metis of_nat_unat ucast_id)
  ultimately have "fst (handleData (rch s) n d) = None"
    using m'(3) by (simp add: handleData_ok_iff)
  then have e: "e = None" and hd: "handleData (rch s) n d = (None, ch)"
    using hs m(1) m'(1) by (auto simp: prod_eq_iff)
  note ch = handleData_ok [OF hd]
  have "pair_inv (s\<lparr>sout := t, rch := ch, failed := e\<rparr>) ds' es cs"
    using inv Cons m'(1,2) m(2) ch e sum
    by (auto simp: pair_inv_def bytes_held_def update_unsent_def rbuf.items_put rbuf.shut_put
        simp del: wire.simps split: if_splits)
  then show ?thesis
    using e Cons m' ch by (auto simp: rbuf.items_put intro!: exI [of _ ds'] exI [of _ d])
qed

lemma inv_take:
  assumes inv: "pair_inv s ds es cs" and "owed s = 0" "unsent s = None" "0 < n"
    and r: "buffer_read (pending (rch s)) n = (Some (bs, None), b)"
  shows "pair_inv (s\<lparr>rch := (rch s)\<lparr>pending := b\<rparr>, owed := length bs, got := got s @ bs\<rparr>) ds es cs
    \<and> bs \<noteq> [] \<and> buffer_content (pending (rch s)) = bs @ buffer_content b"
proof -
  have c: "buffer_content (pending (rch s)) = bs @ buffer_content b"
    by (rule rbuf.get_data [OF r])
  have cl: "bclosed b = bclosed (pending (rch s))"
    using rbuf.get_shut [of "pending (rch s)" n] r by simp
  have "bs \<noteq> []"
    using rbuf.get_result [of "pending (rch s)" n] r assms(4) by (auto split: if_splits)
  then show ?thesis
    using inv assms(2,3) c cl
    by (auto simp: pair_inv_def bytes_held_def update_unsent_def split: if_splits)
qed

lemma inv_credit:
  assumes inv: "pair_inv s ds es cs" and "0 < owed s"
  shows "pair_inv (s\<lparr>rch := adjust_credit (rch s) (of_nat (owed s)), owed := 0,
           unsent := Some (of_nat (owed s))\<rparr>) ds es cs
    \<and> unat (of_nat (owed s) :: u32) = owed s"
proof -
  have le: "unat (myWindow (rch s)) + owed s \<le> full_window" and us: "unsent s = None"
    using inv assms(2) by (auto simp: pair_inv_def)
  then have u: "unat (of_nat (owed s) :: u32) = owed s"
    by (simp add: unat_of_nat full_window_def)
  have "unat (myWindow (rch s)) + unat (of_nat (owed s) :: u32) < 2 ^ 32"
    using le u by (simp add: full_window_def)
  then have w: "unat (myWindow (rch s) + of_nat (owed s)) = unat (myWindow (rch s)) + owed s"
    using unat_add_exact u by simp
  have nz: "(of_nat (owed s) :: u32) \<noteq> 0" using u assms(2) by auto
  show ?thesis
    using inv assms(2) u w nz us
    by (auto simp: pair_inv_def bytes_held_def update_unsent_def adjust_credit_def split: if_splits)
qed

lemma inv_adjust:
  assumes inv: "pair_inv s ds es cs" and us: "unsent s = Some n"
    and snd: "ch_send (rch s) (WindowAdjustMessage (remoteId (rch s)) n) (rout s) = (e, ch, t)"
  shows "pair_inv (s\<lparr>rch := ch, rout := t, unsent := None\<rparr>) ds es
    (cs @ [WindowAdjustMessage (remoteId (rch s)) n])"
proof -
  let ?m = "WindowAdjustMessage (remoteId (rch s)) n"
  have f: "free_transport (rout s)" "\<not> sentClose (rch s)" "n \<noteq> 0"
    using inv us by (auto simp: pair_inv_def)
  have "ch = rch s" "t = (rout s)\<lparr>tout := tout (rout s) @ wire ?m\<rparr>"
    using snd f(2) by (auto simp: ch_send_eq Encode_free [OF f(1)] simp del: wire.simps)
  moreover have "0 < unat n" using f(3) by (simp add: unat_gt_0)
  ultimately show ?thesis
    using inv us f by (simp add: pair_inv_def bytes_held_def update_unsent_def del: wire.simps)
qed

lemma inv_refill:
  assumes inv: "pair_inv s ds es cs" and np: "next_packet (rout s) = Some (m, t)"
    and hs: "handle_stream (sch s) m = Some (e, ch)"
  shows "e = None \<and> (\<exists>c cs'. cs = c # cs' \<and> 0 < adjustment c \<and>
    pair_inv (s\<lparr>rout := t, sch := ch, failed := e\<rparr>) ds es cs')"
proof (cases cs)
  case Nil
  with inv have "tout (rout s) = []" by (simp add: pair_inv_def)
  then show ?thesis using np next_packet_empty by simp
next
  case (Cons c cs')
  then obtain cid n where c: "c = WindowAdjustMessage cid n" "0 < unat n"
    using inv by (cases c) (auto simp: pair_inv_def)
  have "next_packet (rout s) = Some (c, (rout s)\<lparr>tout := concat (map wire cs')\<rparr>)"
    by (rule next_packet_wire) (use inv Cons c in \<open>simp_all add: pair_inv_def del: wire.simps\<close>)
  with np have m: "m = c" "t = (rout s)\<lparr>tout := concat (map wire cs')\<rparr>" by simp_all
  obtain b w where w: "window_add (remoteWin (sch s)) n = (b, w)"
    by (cases "window_add (remoteWin (sch s)) n")
  have "unat (win (remoteWin (sch s))) + unat n \<le> full_window"
    using inv Cons c(1) by (simp add: pair_inv_def)
  then have b: "b" "unat (win w) = unat (win (remoteWin (sch s))) + unat n"
    "wclosed w = wclosed (remoteWin (sch s))"
    using window_add_True [of "remoteWin (sch s)" n] window_add_win [of "remoteWin (sch s)" n]
      window_add_frame(1) [of "remoteWin (sch s)" n] w
    by (auto simp: full_window_def)
  have e: "e = None" "ch = (sch s)\<lparr>remoteWin := w\<rparr>"
    using hs m(1) c(1) w b(1) by auto
  have "pair_inv (s\<lparr>rout := t, sch := ch, failed := e\<rparr>) ds es cs'"
    using inv Cons c m(2) e b
    by (simp add: pair_inv_def bytes_held_def update_unsent_def del: wire.simps)
  with Cons c e show ?thesis by simp
qed

section \<open>Reachable pairs\<close>

lemma inv_call:
  assumes "pair_inv s ds es cs" "pair_call s s'"
  shows "\<exists>es'. pair_inv s' ds es' cs"
  using assms(2)
proof (cases rule: pair_call.cases)
  case (submit data)
  with assms(1) show ?thesis
    by (intro exI [of _ es]) (auto simp: pair_inv_def bytes_held_def update_unsent_def)
next
  case (finish e ch t)
  have f: "free_transport (sout s)" "\<not> sentClose (sch s)" "es = []" "\<not> bclosed (pending (rch s))"
    using assms(1) finish by (auto simp: pair_inv_def)
  let ?m = "EOFMessage (remoteId (sch s))"
  have "ch = (sch s)\<lparr>sentEOF := True\<rparr>" "t = (sout s)\<lparr>tout := tout (sout s) @ wire ?m\<rparr>"
    using finish(5) f(2)
    by (auto simp: CloseWrite_def ch_send_eq Encode_free [OF f(1)] simp del: wire.simps)
  then show ?thesis
    using assms(1) finish f
    by (intro exI [of _ "[?m]"])
      (auto simp: pair_inv_def bytes_held_def update_unsent_def simp del: wire.simps)
qed

lemma inv_move:
  assumes "pair_inv s ds es cs" "pair_move s s'"
  shows "\<exists>ds' es' cs'. pair_inv s' ds' es' cs'"
  using assms(2)
proof (cases rule: pair_move.cases)
  case reserve
  then show ?thesis using inv_reserve [OF assms(1)] by blast
next
  case encode
  then show ?thesis using inv_encode [OF assms(1)] by blast
next
  case receive
  then show ?thesis using inv_receive [OF assms(1)] by blast
next
  case take_bytes
  then show ?thesis using inv_take [OF assms(1)] by blast
next
  case credit
  then show ?thesis using inv_credit [OF assms(1)] by blast
next
  case adjust
  then show ?thesis using inv_adjust [OF assms(1)] by blast
next
  case refill
  then show ?thesis using inv_refill [OF assms(1)] by blast
qed

lemma pair_reachable_inv: "pair_reachable s \<Longrightarrow> \<exists>ds es cs. pair_inv s ds es cs"
  by (induction rule: pair_reachable.induct) (blast dest: pair_init_inv inv_move inv_call)+

section \<open>Progress\<close>

text \<open>
  Every byte passes through seven places: waiting in \<open>Write\<close>, reserved, on the wire, in the receive
  buffer, taken by \<open>Read\<close>, in an update not yet sent, in an update on the wire.  Every step moves
  some bytes one place on.
\<close>

definition pair_measure :: "pair \<Rightarrow> message list \<Rightarrow> message list \<Rightarrow> message list \<Rightarrow> nat" where
  "pair_measure s ds es cs =
     7 * length (todo s) + 6 * length (bytes_held s) + 5 * length (concat (map payload ds))
       + length es + 4 * length (buffer_content (pending (rch s))) + 3 * owed s
       + 2 * update_unsent s + sum_list (map adjustment cs)"

lemma move_decreases:
  assumes "pair_inv s ds es cs" "pair_move s s'"
  shows "\<exists>ds' es' cs'. pair_inv s' ds' es' cs' \<and> pair_measure s' ds' es' cs' < pair_measure s ds es cs"
  using assms(2)
proof (cases rule: pair_move.cases)
  case (reserve k w)
  have "maxRemotePayload (sch s) \<noteq> 0" "length (todo s) < 2 ^ 32"
    using assms(1) by (auto simp: pair_inv_def)
  with reserve_chunk [OF reserve(4)] reserve(2) have "0 < unat k" "unat k \<le> length (todo s)"
    by auto
  then have "pair_measure s' ds es cs < pair_measure s ds es cs"
    using reserve by (simp add: pair_measure_def bytes_held_def update_unsent_def)
  then show ?thesis using inv_reserve [OF assms(1)] reserve by blast
next
  case (encode d t)
  have "d \<noteq> []" using assms(1) encode by (auto simp: pair_inv_def)
  then have "pair_measure s' (ds @ [DataMessage (remoteId (sch s)) (of_nat (length d)) d]) es cs
      < pair_measure s ds es cs"
    using encode by (simp add: pair_measure_def bytes_held_def update_unsent_def)
  then show ?thesis using inv_encode [OF assms(1)] encode by blast
next
  case (receive m t e ch)
  obtain ds' es' where r: "pair_inv s' ds' es' cs" "length (ds' @ es') < length (ds @ es)"
    "ds \<noteq> [] \<longrightarrow> es' = es \<and> (\<exists>d. d \<noteq> [] \<and> concat (map payload ds) = d @ concat (map payload ds')
      \<and> buffer_content (pending ch) = buffer_content (pending (rch s)) @ d)"
    using inv_receive [OF assms(1) receive(3,4)] receive(1) by blast
  have "pair_measure s' ds' es' cs < pair_measure s ds es cs"
  proof (cases ds)
    case Nil
    have "next_packet (sout s) \<noteq> None" using receive(3) by simp
    then have "es \<noteq> []"
      using assms(1) Nil next_packet_empty by (auto simp: pair_inv_def)
    then obtain cid where es: "es = [EOFMessage cid]"
      using assms(1) by (auto simp: pair_inv_def split: if_splits)
    have "next_packet (sout s) = Some (EOFMessage cid, (sout s)\<lparr>tout := concat (map wire [])\<rparr>)"
      by (rule next_packet_wire) (use assms(1) es Nil in \<open>simp_all add: pair_inv_def\<close>)
    then have "buffer_content (pending ch) = buffer_content (pending (rch s))"
      using receive(3,4) by (auto simp: rbuf.items_shut)
    then show ?thesis
      using receive r(2) es Nil by (simp add: pair_measure_def bytes_held_def update_unsent_def)
  next
    case (Cons x xs)
    then obtain d where "es' = es" "d \<noteq> []" "concat (map payload ds) = d @ concat (map payload ds')"
      "buffer_content (pending ch) = buffer_content (pending (rch s)) @ d"
      using r(3) by blast
    then show ?thesis
      using receive(1)
      by (simp add: pair_measure_def bytes_held_def update_unsent_def del: length_concat)
  qed
  with r(1) show ?thesis by blast
next
  case (take_bytes n bs b)
  note t = inv_take [OF assms(1) take_bytes(2,3,4,5)]
  then have "pair_measure s' ds es cs < pair_measure s ds es cs"
    using take_bytes by (simp add: pair_measure_def bytes_held_def update_unsent_def)
  with t take_bytes(1) show ?thesis by blast
next
  case credit
  note t = inv_credit [OF assms(1) credit(2)]
  have "unsent s = None" using assms(1) credit(2) by (auto simp: pair_inv_def)
  with t have "pair_measure s' ds es cs < pair_measure s ds es cs"
    using credit by (simp add: pair_measure_def bytes_held_def update_unsent_def adjust_credit_def)
  with t credit(1) show ?thesis by blast
next
  case (adjust n e ch t)
  have "0 < unat n" using assms(1) adjust(2) by (auto simp: pair_inv_def unat_gt_0)
  moreover have "pending ch = pending (rch s)"
    using send_channel [of "rch s" "WindowAdjustMessage (remoteId (rch s)) n" "rout s"] adjust(3)
    by auto
  ultimately have "pair_measure s' ds es (cs @ [WindowAdjustMessage (remoteId (rch s)) n])
      < pair_measure s ds es cs"
    using adjust by (simp add: pair_measure_def bytes_held_def update_unsent_def)
  with inv_adjust [OF assms(1) adjust(2,3)] adjust(1) show ?thesis by blast
next
  case (refill m t e ch)
  obtain c cs' where r: "cs = c # cs'" "0 < adjustment c" "pair_inv s' ds es cs'"
    using inv_refill [OF assms(1) refill(3,4)] refill(1) by blast
  then have "pair_measure s' ds es cs' < pair_measure s ds es cs"
    using refill by (simp add: pair_measure_def bytes_held_def update_unsent_def)
  with r(3) show ?thesis by blast
qed

text \<open>As long as a written byte has not been read, some step is possible.\<close>

lemma pair_progress:
  assumes inv: "pair_inv s ds es cs" and "got s \<noteq> written s"
  shows "\<exists>s'. pair_move s s'"
proof -
  have free: "free_transport (sout s)" "free_transport (rout s)" "failed s = None"
    "\<not> sentClose (rch s)"
    using inv by (simp_all add: pair_inv_def)
  consider (held) d where "held s = Some d"
    | (wire) m ds' where "ds = m # ds'"
    | (owed) "0 < owed s"
    | (update) n where "unsent s = Some n"
    | (upd) c cs' where "cs = c # cs'"
    | (buffer) "buffer_content (pending (rch s)) \<noteq> []" "owed s = 0" "unsent s = None"
    | (rest) "held s = None" "ds = []" "owed s = 0" "unsent s = None" "cs = []"
        "buffer_content (pending (rch s)) = []"
    by (cases "held s"; cases ds; cases "owed s"; cases "unsent s"; cases cs) auto
  then show ?thesis
  proof cases
    case (held d)
    then show ?thesis using pair_move.encode [OF held] Encode_free [OF free(1)] by blast
  next
    case (wire m ds')
    then have m: "is_data (maxIncomingPayload (rch s)) m" using inv by (simp add: pair_inv_def)
    then have "wf_msg m" "handle_stream (rch s) m \<noteq> None" by (cases m; simp)+
    moreover have "next_packet (sout s) = Some (m, (sout s)\<lparr>tout := concat (map wire (ds' @ es))\<rparr>)"
      by (rule next_packet_wire) (use inv wire \<open>wf_msg m\<close> in \<open>simp_all add: pair_inv_def\<close>)
    ultimately show ?thesis using pair_move.receive [OF free(3)] by fast
  next
    case owed
    then show ?thesis using pair_move.credit by blast
  next
    case (update n)
    then show ?thesis using pair_move.adjust [OF update] by (metis prod_cases3)
  next
    case (upd c cs')
    then have m: "is_WindowAdjustMessage c" using inv by (simp add: pair_inv_def)
    then have "wf_msg c" "handle_stream (sch s) c \<noteq> None"
      by (cases c; simp add: split_beta)+
    moreover have "next_packet (rout s) = Some (c, (rout s)\<lparr>tout := concat (map wire cs')\<rparr>)"
      by (rule next_packet_wire) (use inv upd \<open>wf_msg c\<close> in \<open>simp_all add: pair_inv_def\<close>)
    ultimately show ?thesis using pair_move.refill [OF free(3)] by fast
  next
    case buffer
    obtain bs b where "buffer_read (pending (rch s)) 1 = (Some (bs, None), b)"
      using rbuf.get_progress [OF buffer(1), of 1] by auto
    then show ?thesis using pair_move.take_bytes [OF buffer(2,3)] by (metis zero_less_one)
  next
    case rest
    then have t: "todo s \<noteq> []" using inv assms(2) by (auto simp: pair_inv_def bytes_held_def)
    have "unat (win (remoteWin (sch s))) = full_window" "\<not> wclosed (remoteWin (sch s))"
      using inv rest by (simp_all add: pair_inv_def bytes_held_def update_unsent_def)
    then have "win (remoteWin (sch s)) \<noteq> 0" by (auto simp: full_window_def)
    let ?n = "min32 (maxRemotePayload (sch s)) (length (todo s))"
    obtain k err w where r: "reserve (remoteWin (sch s)) ?n = (Some (k, err), w)"
      using reserve_parks [of "remoteWin (sch s)" ?n] \<open>win (remoteWin (sch s)) \<noteq> 0\<close>
      by (cases "reserve (remoteWin (sch s)) ?n") auto
    then have "err = None"
      using reserve_grant [OF r] \<open>\<not> wclosed (remoteWin (sch s))\<close> by simp
    with r show ?thesis using pair_move.reserve [OF t rest(1)] by blast
  qed
qed

section \<open>Properties\<close>

text \<open>A run to apply them to: an opened channel, a write of three bytes, the end of the stream.\<close>

definition sample_pair :: pair where
  "sample_pair = \<lparr>
     sch = sample_channel\<lparr>maxRemotePayload := 0x8000,
             remoteWin := \<lparr>win = 0x200000, writeWaiters = 0, wclosed = False\<rparr>\<rparr>,
     rch = sample_channel\<lparr>myWindow := 0x200000\<rparr>,
     sout = sample_transport, rout = sample_transport, todo = [], held = None, owed = 0,
     unsent = None, written = [], got = [], failed = None\<rparr>"

lemma sample_pair_reachable: "pair_reachable sample_pair"
  by (rule pair_reachable.start)
    (simp add: pair_init_def sample_pair_def sample_channel_def full_window_def,
     simp add: sample_transport_def)

definition written_pair :: pair where
  "written_pair = sample_pair\<lparr>todo := [1, 2, 3], written := [1, 2, 3]\<rparr>"

lemma written_pair_reachable: "pair_reachable written_pair"
proof (rule pair_reachable.call [OF sample_pair_reachable])
  have "pair_call sample_pair (sample_pair\<lparr>todo := [1, 2, 3], written := written sample_pair @ [1, 2, 3]\<rparr>)"
    by (rule pair_call.submit) (simp_all add: sample_pair_def sample_channel_def)
  then show "pair_call sample_pair written_pair"
    by (simp add: written_pair_def sample_pair_def)
qed

text \<open>
  The byte stream of a channel is ordered and loses, repeats and alters nothing: in every
  interleaving of writer, reader, receive loops and network, what \<open>Read\<close> has returned so far is a
  prefix of what was given to \<open>Write\<close>.
\<close>

theorem stream_in_order:
  assumes "pair_reachable s"
  shows "\<exists>rest. written s = got s @ rest"
  using pair_reachable_inv [OF assms] by (auto simp: pair_inv_def)

theorem stream_in_order_witness: "\<exists>rest. written written_pair = got written_pair @ rest"
  using stream_in_order [OF written_pair_reachable] .

text \<open>
  C15: Two ends that both run this code never violate each other's flow control: in no interleaving
  does a packet handler fail, so neither \<open>remote side wrote too much\<close> nor an overflow of the
  writer's window nor an oversized packet ever ends the session; the reader's buffer, what a \<open>Read\<close>
  has just taken and the credit left always make up exactly one window, and the writer never believes
  to have more credit than that.
\<close>

theorem flow_control_never_fails:
  assumes "pair_reachable s"
  shows "failed s = None \<and> length (buffer_content (pending (rch s))) + unat (myWindow (rch s)) + owed s
      = 2097152 \<and> unat (win (remoteWin (sch s))) \<le> unat (myWindow (rch s)) + owed s
          + length (buffer_content (pending (rch s)))"
  using pair_reachable_inv [OF assms] by (auto simp: pair_inv_def full_window_def)

theorem flow_control_never_fails_witness: "failed written_pair = None"
  using flow_control_never_fails [OF written_pair_reachable] by simp

text \<open>
  \<open>Read\<close> reports \<open>io.EOF\<close> only after the whole stream: if the reader finds the buffer at its
  end, everything given to \<open>Write\<close> has been returned, and the writer has called \<open>CloseWrite\<close>.
\<close>

theorem eof_only_at_end:
  assumes "pair_reachable s" "buffer_read (pending (rch s)) n = (Some (bs, Some e), b)"
  shows "e = EOF \<and> got s = written s \<and> sentEOF (sch s)"
proof -
  obtain ds es cs where inv: "pair_inv s ds es cs" using pair_reachable_inv [OF assms(1)] by blast
  have e: "e = EOF" "buffer_content (pending (rch s)) = []" "bclosed (pending (rch s))"
    using rbuf.get_eof [OF assms(2)] by auto
  then have "sentEOF (sch s)" using inv by (auto simp: pair_inv_def split: if_splits)
  with inv e show ?thesis by (simp add: pair_inv_def bytes_held_def)
qed

text \<open>
  C2: Every written byte is delivered, whatever the schedule: from any reachable state the two ends
  and the network can take only boundedly many steps without a new call, and when no step is left
  every byte given to \<open>Write\<close> has been returned by \<open>Read\<close>.  No writer waits for ever on a reader
  that reads.
\<close>

theorem every_byte_delivered:
  assumes "pair_reachable s"
  shows "(\<exists>N. \<forall>k s'. (pair_move ^^ k) s s' \<longrightarrow> k \<le> N)
    \<and> (\<forall>s'. pair_move\<^sup>*\<^sup>* s s' \<longrightarrow> (\<nexists>s''. pair_move s' s'') \<longrightarrow> got s' = written s')"
proof
  obtain ds es cs where inv: "pair_inv s ds es cs" using pair_reachable_inv [OF assms] by blast
  have "\<exists>ds' es' cs'. pair_inv s' ds' es' cs' \<and> k + pair_measure s' ds' es' cs' \<le> pair_measure s ds es cs"
    if "(pair_move ^^ k) s s'" for k s'
    using that
  proof (induction k arbitrary: s')
    case 0
    then show ?case using inv by auto
  next
    case (Suc k)
    then obtain s1 where "(pair_move ^^ k) s s1" and m: "pair_move s1 s'" by auto
    then obtain ds1 es1 cs1 where i: "pair_inv s1 ds1 es1 cs1"
      "k + pair_measure s1 ds1 es1 cs1 \<le> pair_measure s ds es cs" using Suc.IH by blast
    from move_decreases [OF i(1) m] obtain ds2 es2 cs2 where
      "pair_inv s' ds2 es2 cs2" "pair_measure s' ds2 es2 cs2 < pair_measure s1 ds1 es1 cs1" by blast
    with i(2) show ?case by (intro exI [of _ ds2] exI [of _ es2] exI [of _ cs2]) simp
  qed
  then show "\<exists>N. \<forall>k s'. (pair_move ^^ k) s s' \<longrightarrow> k \<le> N"
    by (intro exI [of _ "pair_measure s ds es cs"] allI impI) (meson add_leD1)
  show "\<forall>s'. pair_move\<^sup>*\<^sup>* s s' \<longrightarrow> (\<nexists>s''. pair_move s' s'') \<longrightarrow> got s' = written s'"
  proof (intro allI impI)
    fix s' assume run: "pair_move\<^sup>*\<^sup>* s s'" and stuck: "\<nexists>s''. pair_move s' s''"
    from run have "pair_reachable s'"
      by (induction rule: rtranclp_induct) (use assms pair_reachable.move in blast)+
    then show "got s' = written s'" using pair_reachable_inv pair_progress stuck by blast
  qed
qed

theorem every_byte_delivered_witness:
  "\<exists>N. \<forall>k s'. (pair_move ^^ k) written_pair s' \<longrightarrow> k \<le> N"
  using every_byte_delivered [OF written_pair_reachable] by blast

text \<open>The witness for the end of the stream: an empty stream, closed and received.\<close>

definition ended_pair :: pair where
  "ended_pair = sample_pair\<lparr>sch := (sch sample_pair)\<lparr>sentEOF := True\<rparr>,
     rch := (rch sample_pair)\<lparr>pending := buffer_eof newBuffer\<rparr>\<rparr>"

lemma ended_pair_reachable: "pair_reachable ended_pair"
proof -
  let ?m = "EOFMessage 10"
  let ?s = "sample_pair\<lparr>sch := (sch sample_pair)\<lparr>sentEOF := True\<rparr>,
      sout := sample_transport\<lparr>tout := wire ?m\<rparr>\<rparr>"
  have cw: "CloseWrite (sch sample_pair) (sout sample_pair) =
      (None, (sch sample_pair)\<lparr>sentEOF := True\<rparr>, sample_transport\<lparr>tout := wire ?m\<rparr>)"
    by (simp add: CloseWrite_def send_open sample_pair_def sample_channel_def Encode_free
        del: wire.simps) (simp add: sample_transport_def)
  have "pair_call sample_pair ?s"
    by (rule pair_call.finish [OF _ _ _ cw]) (simp_all add: sample_pair_def sample_channel_def)
  then have r: "pair_reachable ?s" by (rule pair_reachable.call [OF sample_pair_reachable])
  have "next_packet (sout ?s) = Some (?m, (sout ?s)\<lparr>tout := concat (map wire [])\<rparr>)"
    by (rule next_packet_wire) simp_all
  then have np: "next_packet (sout ?s) = Some (?m, sample_transport)"
    by (simp add: sample_transport_def)
  have "pair_move ?s (?s\<lparr>sout := sample_transport,
      rch := (rch ?s)\<lparr>pending := buffer_eof (pending (rch ?s))\<rparr>, failed := None\<rparr>)"
    by (rule pair_move.receive [OF _ np]) (simp_all add: sample_pair_def)
  also have "?s\<lparr>sout := sample_transport,
      rch := (rch ?s)\<lparr>pending := buffer_eof (pending (rch ?s))\<rparr>, failed := None\<rparr> = ended_pair"
    by (simp add: ended_pair_def sample_pair_def sample_channel_def)
  finally show ?thesis by (rule pair_reachable.move [OF r])
qed

theorem eof_only_at_end_witness: "got ended_pair = written ended_pair \<and> sentEOF (sch ended_pair)"
proof -
  have "fst (buffer_read (pending (rch ended_pair)) 1) = Some ([], Some EOF)"
    by (simp add: buffer_read_result ended_pair_def)
  then obtain b where "buffer_read (pending (rch ended_pair)) 1 = (Some ([], Some EOF), b)"
    by (cases "buffer_read (pending (rch ended_pair)) 1") auto
  from eof_only_at_end [OF ended_pair_reachable this] show ?thesis by simp
qed

end
