(* ===== verification/SessionPair.thy ===== *)
theory SessionPair
  imports SessionSteps ChannelPair
begin

text \<open>
  Two sessions over one connection: what one writes arrives at the other.  The handshake that opens
  a channel, step by step through both sessions, ends in the state from which \<open>ChannelPair\<close>
  starts; and data written to a channel after its \<open>Close\<close> ends the session of the peer.
\<close>

section \<open>What arrives\<close>

text \<open>The network hands over \<open>bs\<close> in one piece; \<open>sent s s'\<close> is what \<open>s\<close> wrote to become \<open>s'\<close>.\<close>

definition arrive :: "session \<Rightarrow> bytes \<Rightarrow> session" where
  "arrive s bs = s\<lparr>trans := (trans s)\<lparr>tin := \<lparr>chunks = [bs], final = EOF\<rparr>\<rparr>\<rparr>"

definition sent :: "session \<Rightarrow> session \<Rightarrow> bytes" where
  "sent s s' = drop (length (tout (trans s))) (tout (trans s'))"

lemma Decode_frame:
  assumes "Decode transport_read t = (res, t')"
  shows "tout t' = tout t \<and> tbudget t' = tbudget t \<and> tclosed t' = tclosed t"
proof -
  have fr: "tout t' = tout t \<and> tbudget t' = tbudget t \<and> tclosed t' = tclosed t"
    if "read_into transport_read t n = (b, e, t')" for t n b e t'
    using that transport_read_frame by (auto simp: read_into_def split: prod.splits)
  show ?thesis
    using assms
    by (auto simp: Decode_def readPacket_def Let_def simp del: One_nat_def dest!: fr
        split: prod.splits option.splits if_splits result.splits)
qed

lemma onePacket_arrive:
  assumes "free_transport (trans s)" "wf_msg m"
  shows "\<exists>t. onePacket (arrive s (wire m)) = dispatch (s\<lparr>trans := t\<rparr>) m
    \<and> free_transport t \<and> tout t = tout (trans s)"
proof -
  let ?t = "trans (arrive s (wire m))"
  have "\<not> tclosed ?t \<and> length (chunks (tin ?t)) \<le> 1" "stream_content (tin ?t) = wire m @ []"
    using assms(1) by (simp_all add: arrive_def free_transport_def stream_content_def)
  from conn.Decode_wire [OF this assms(2)] obtain t where d: "Decode transport_read ?t = (Ok m, t)"
    by blast
  have "free_transport t \<and> tout t = tout (trans s)"
    using Decode_frame [OF d] assms(1) by (simp add: arrive_def free_transport_def)
  moreover have "onePacket (arrive s (wire m)) = dispatch (s\<lparr>trans := t\<rparr>) m"
    using d by (simp add: onePacket_def) (simp add: arrive_def)
  ultimately show ?thesis by blast
qed

section \<open>Opening a channel\<close>

lemma Open_start_sends:
  assumes "core_inv a" "length (heap a) + 1 < 2 ^ 32" "free_transport (trans a)"
  shows "\<exists>p a1 lid. Open_start a = (None, p, a1) \<and> p < length (heap a1) \<and> core_inv a1
    \<and> getChan (chans a1) lid = Some p
    \<and> heap a1 ! p = (new_chan channelOutbound)\<lparr>localId := lid, maxIncomingPayload := channelMaxPacket\<rparr>
    \<and> sent a a1 = wire (OpenMessage lid channelWindowSize channelMaxPacket)
    \<and> free_transport (trans a1)"
proof -
  obtain p s1 where nc: "newChannel a channelOutbound = (p, s1)"
    by (cases "newChannel a channelOutbound")
  note n = newChannel_ok [OF assms(1,2) nc]
  define lid where "lid = localId (heap s1 ! p)"
  have ch: "heap s1 ! p = (new_chan channelOutbound)\<lparr>localId := lid\<rparr>"
    unfolding lid_def using n by blast
  have s1: "core_inv s1" "p = length (heap a)" "length (heap s1) = Suc p"
    "getChan (chans s1) lid = Some p" "trans s1 = trans a"
    using n unfolding lid_def by blast+
  let ?ch = "(new_chan channelOutbound)\<lparr>localId := lid, maxIncomingPayload := channelMaxPacket\<rparr>"
  let ?m = "OpenMessage lid channelWindowSize channelMaxPacket"
  let ?a1 = "(set_chan s1 p ?ch)\<lparr>trans := (trans a)\<lparr>tout := tout (trans a) @ wire ?m\<rparr>\<rparr>"
  have m: "OpenMessage (localId ?ch) (myWindow ?ch) (maxIncomingPayload ?ch) = ?m"
    by (simp add: new_chan_def)
  have "Open_start a = (None, p, ?a1)"
    using nc s1 ch m by (simp add: Open_start_def Let_def Encode_free [OF assms(3)] del: wire.simps)
  moreover have "core_inv (set_chan s1 p ?ch)"
  proof (rule core_set_chan [OF s1(1)])
    show "chan_ok ?ch" using chan_ok_new [of lid channelOutbound] by simp
  qed (use s1 ch in \<open>simp_all add: new_chan_def\<close>)
  ultimately show ?thesis
    using s1 assms(3)
    by (intro exI [of _ p] exI [of _ ?a1] exI [of _ lid]) (simp add: sent_def del: wire.simps)
qed

text \<open>The answering side, with room in its inbox.\<close>

lemma dispatch_open:
  assumes "core_inv b" "length (heap b) + 1 < 2 ^ 32" "free_transport (trans b)"
    and "length (qbuf (inbox b)) < chanSize" "minPacketLength \<le> mp" "mp \<le> maxPacketLength"
  shows "\<exists>q b1 rid. dispatch b (OpenMessage sid ws mp) = (Handled None, b1) \<and> core_inv b1
    \<and> getChan (chans b1) rid = Some q \<and> qbuf (inbox b1) = qbuf (inbox b) @ [q]
    \<and> heap b1 ! q = (new_chan channelInbound)\<lparr>localId := rid, remoteId := sid,
         maxRemotePayload := mp, remoteWin := new_window\<lparr>win := ws\<rparr>,
         maxIncomingPayload := channelMaxPacket\<rparr>
    \<and> sent b b1 = wire (OpenConfirmMessage sid rid channelWindowSize channelMaxPacket)"
proof -
  obtain q s1 where nc: "newChannel b channelInbound = (q, s1)"
    by (cases "newChannel b channelInbound")
  note n = newChannel_ok [OF assms(1,2) nc]
  define rid where "rid = localId (heap s1 ! q)"
  have ch: "heap s1 ! q = (new_chan channelInbound)\<lparr>localId := rid\<rparr>"
    unfolding rid_def using n by blast
  have s1: "length (heap s1) = Suc q" "getChan (chans s1) rid = Some q" "trans s1 = trans b"
    "inbox s1 = inbox b"
    using n unfolding rid_def by blast+
  have win: "snd (window_add new_window ws) = new_window\<lparr>win := ws\<rparr>"
    by (simp add: window_add_def new_window_def)
  let ?c = "(new_chan channelInbound)\<lparr>localId := rid, remoteId := sid, maxRemotePayload := mp,
      remoteWin := new_window\<lparr>win := ws\<rparr>, maxIncomingPayload := channelMaxPacket\<rparr>"
  let ?m = "OpenConfirmMessage sid rid channelWindowSize channelMaxPacket"
  let ?q = "(inbox b)\<lparr>qbuf := qbuf (inbox b) @ [q]\<rparr>"
  let ?b1 = "(set_chan s1 q ?c)\<lparr>inbox := ?q, trans := (trans b)\<lparr>tout := tout (trans b) @ wire ?m\<rparr>\<rparr>"
  have snd: "chan_send (inbox b) q = Sent ?q"
    using assms(1,4) by (simp add: chan_send_def core_inv_def queues_ok_def)
  have c: "(heap s1 ! q)\<lparr>remoteId := sid, maxRemotePayload := mp,
      remoteWin := snd (window_add (remoteWin (heap s1 ! q)) ws),
      maxIncomingPayload := channelMaxPacket\<rparr> = ?c"
    using ch win by (simp add: new_chan_def)
  have step: "dispatch b (OpenMessage sid ws mp) = (Handled None, ?b1)"
    using assms(5,6) nc s1 c snd
    by (simp add: dispatch_def handleOpen_def Let_def not_less enqueue_open_def confirm_open_def
        Encode_free [OF assms(3)] new_chan_def del: wire.simps)
  have "core_inv ?b1"
    using dispatch_ok [OF assms(1,2) _ step] by simp
  with step show ?thesis
    using s1
    by (intro exI [of _ q] exI [of _ ?b1] exI [of _ rid]) (simp add: sent_def del: wire.simps)
qed

text \<open>The confirmation at the opening side.\<close>

lemma dispatch_confirm:
  assumes "getChan (chans a) lid = Some p" "p < length (heap a)"
    and "heap a ! p = (new_chan channelOutbound)\<lparr>localId := lid, maxIncomingPayload := channelMaxPacket\<rparr>"
    and "minPacketLength \<le> mp" "mp \<le> maxPacketLength"
  shows "\<exists>a2 a3. dispatch a (OpenConfirmMessage lid rid ws mp) = (Handled None, a2)
    \<and> Open_finish a2 p None = (Some (Inr p), a3)
    \<and> heap a3 ! p = (heap a ! p)\<lparr>remoteId := rid, maxRemotePayload := mp,
         remoteWin := new_window\<lparr>win := ws\<rparr>\<rparr>"
proof -
  let ?m = "OpenConfirmMessage lid rid ws mp"
  have win: "snd (window_add new_window ws) = new_window\<lparr>win := ws\<rparr>"
    by (simp add: window_add_def new_window_def)
  let ?c = "(heap a ! p)\<lparr>remoteId := rid, maxRemotePayload := mp, remoteWin := new_window\<lparr>win := ws\<rparr>\<rparr>"
  let ?q = "(make_chan chanSize)\<lparr>qbuf := [?m]\<rparr>"
  let ?a2 = "set_chan (set_chan a p ?c) p (?c\<lparr>msgs := ?q\<rparr>)"
  have c: "(heap a ! p)\<lparr>remoteId := rid, maxRemotePayload := mp,
      remoteWin := snd (window_add (remoteWin (heap a ! p)) ws)\<rparr> = ?c"
    using assms(3) win by (simp add: new_chan_def)
  have q: "msgs ?c = make_chan chanSize" using assms(3) by (simp add: new_chan_def)
  have "responseMessageReceived (heap a ! p) = None"
    using assms(3) by (simp add: responseMessageReceived_def new_chan_def)
  moreover have "deliver (set_chan a p ?c) p ?m = (Handled None, ?a2)"
    using assms(2) q by (simp add: deliver_def chan_send_def)
  ultimately have d: "dispatch a ?m = (Handled None, ?a2)"
    using assms(1,4,5) c by (simp add: dispatch_def Let_def not_less)
  let ?a3 = "set_chan ?a2 p (?c\<lparr>msgs := ?q, msgs := ?q\<lparr>qbuf := []\<rparr>\<rparr>)"
  have "Open_finish ?a2 p None = (Some (Inr p), ?a3)"
    using assms(2) by (simp add: Open_finish_def chan_recv_def)
  moreover have "heap ?a3 ! p = ?c"
    using assms(2,3) q by (simp add: make_chan_def)
  ultimately show ?thesis using d by blast
qed

text \<open>The two ends of one direction of a fresh channel, before anything is sent on it.\<close>

definition pair_of :: "channel \<Rightarrow> channel \<Rightarrow> pair" where
  "pair_of x y =
     (let t = \<lparr>tin = \<lparr>chunks = [], final = EOF\<rparr>, tout = [], tbudget = None, tclosed = False\<rparr>
      in \<lparr>sch = x, rch = y, sout = t, rout = t, todo = [], held = None, owed = 0, unsent = None,
          written = [], got = [], failed = None\<rparr>)"

lemma pair_of_init:
  assumes "win (remoteWin x) = channelWindowSize" "myWindow y = channelWindowSize"
    "\<not> wclosed (remoteWin x)" "\<not> sentClose x" "\<not> sentClose y" "\<not> sentEOF x" "pending y = newBuffer"
    "maxRemotePayload x = maxIncomingPayload y" "maxIncomingPayload y = channelMaxPacket"
  shows "pair_init (pair_of x y)"
  using assms by (simp add: pair_init_def pair_of_def Let_def full_window_def free_transport_def)

lemma handshake_run:
  assumes "core_inv a" "length (heap a) + 1 < 2 ^ 32" "free_transport (trans a)"
    and "core_inv b" "length (heap b) + 1 < 2 ^ 32" "free_transport (trans b)"
    and "length (qbuf (inbox b)) < chanSize"
  shows "\<exists>p a1 b1 a2 a3 q. Open_start a = (None, p, a1)
    \<and> onePacket (arrive b (sent a a1)) = (Handled None, b1)
    \<and> onePacket (arrive a1 (sent b b1)) = (Handled None, a2)
    \<and> Open_finish a2 p None = (Some (Inr p), a3)
    \<and> qbuf (inbox b1) = qbuf (inbox b) @ [q]
    \<and> remoteId (heap a3 ! p) = localId (heap b1 ! q) \<and> remoteId (heap b1 ! q) = localId (heap a3 ! p)
    \<and> getChan (chans b1) (remoteId (heap a3 ! p)) = Some q
    \<and> pair_init (pair_of (heap a3 ! p) (heap b1 ! q)) \<and> pair_init (pair_of (heap b1 ! q) (heap a3 ! p))"
proof -
  obtain p a1 lid where a1: "Open_start a = (None, p, a1)" "p < length (heap a1)"
    "getChan (chans a1) lid = Some p"
    "heap a1 ! p = (new_chan channelOutbound)\<lparr>localId := lid, maxIncomingPayload := channelMaxPacket\<rparr>"
    "sent a a1 = wire (OpenMessage lid channelWindowSize channelMaxPacket)"
    "free_transport (trans a1)"
    using Open_start_sends [OF assms(1-3)] by blast
  obtain t where t: "onePacket (arrive b (sent a a1)) =
        dispatch (b\<lparr>trans := t\<rparr>) (OpenMessage lid channelWindowSize channelMaxPacket)"
      "free_transport t" "tout t = tout (trans b)"
    using onePacket_arrive [OF assms(6), of "OpenMessage lid channelWindowSize channelMaxPacket"] a1(5)
    by auto
  have "\<exists>q b1 rid. dispatch (b\<lparr>trans := t\<rparr>) (OpenMessage lid channelWindowSize channelMaxPacket)
        = (Handled None, b1) \<and> core_inv b1 \<and> getChan (chans b1) rid = Some q
      \<and> qbuf (inbox b1) = qbuf (inbox (b\<lparr>trans := t\<rparr>)) @ [q]
      \<and> heap b1 ! q = (new_chan channelInbound)\<lparr>localId := rid, remoteId := lid,
         maxRemotePayload := channelMaxPacket, remoteWin := new_window\<lparr>win := channelWindowSize\<rparr>,
         maxIncomingPayload := channelMaxPacket\<rparr>
      \<and> sent (b\<lparr>trans := t\<rparr>) b1 = wire (OpenConfirmMessage lid rid channelWindowSize channelMaxPacket)"
    by (rule dispatch_open) (use assms(4,5,7) t(2) in simp_all)
  then obtain q b1 rid where b1: "onePacket (arrive b (sent a a1)) = (Handled None, b1)"
    "getChan (chans b1) rid = Some q" "qbuf (inbox b1) = qbuf (inbox b) @ [q]"
    "heap b1 ! q = (new_chan channelInbound)\<lparr>localId := rid, remoteId := lid,
         maxRemotePayload := channelMaxPacket, remoteWin := new_window\<lparr>win := channelWindowSize\<rparr>,
         maxIncomingPayload := channelMaxPacket\<rparr>"
    "sent b b1 = wire (OpenConfirmMessage lid rid channelWindowSize channelMaxPacket)"
    using t(1,3) by (auto simp: sent_def)
  obtain t' where t': "onePacket (arrive a1 (sent b b1)) =
      dispatch (a1\<lparr>trans := t'\<rparr>) (OpenConfirmMessage lid rid channelWindowSize channelMaxPacket)"
    using onePacket_arrive [OF a1(6), of "OpenConfirmMessage lid rid channelWindowSize channelMaxPacket"]
      b1(5) by auto
  have "\<exists>a2 a3. dispatch (a1\<lparr>trans := t'\<rparr>) (OpenConfirmMessage lid rid channelWindowSize channelMaxPacket)
        = (Handled None, a2) \<and> Open_finish a2 p None = (Some (Inr p), a3)
      \<and> heap a3 ! p = (heap (a1\<lparr>trans := t'\<rparr>) ! p)\<lparr>remoteId := rid,
          maxRemotePayload := channelMaxPacket, remoteWin := new_window\<lparr>win := channelWindowSize\<rparr>\<rparr>"
    by (rule dispatch_confirm) (use a1(2-4) in simp_all)
  then obtain a2 a3 where a3: "onePacket (arrive a1 (sent b b1)) = (Handled None, a2)"
    "Open_finish a2 p None = (Some (Inr p), a3)"
    "heap a3 ! p = (heap a1 ! p)\<lparr>remoteId := rid, maxRemotePayload := channelMaxPacket,
        remoteWin := new_window\<lparr>win := channelWindowSize\<rparr>\<rparr>"
    using t' by auto
  have "pair_init (pair_of (heap a3 ! p) (heap b1 ! q))"
    by (rule pair_of_init) (simp_all add: a3(3) a1(4) b1(4) new_chan_def new_window_def)
  moreover have "pair_init (pair_of (heap b1 ! q) (heap a3 ! p))"
    by (rule pair_of_init) (simp_all add: a3(3) a1(4) b1(4) new_chan_def new_window_def)
  ultimately show ?thesis
    using a1(1,4) b1 a3
    by (intro exI [of _ p] exI [of _ a1] exI [of _ b1] exI [of _ a2] exI [of _ a3] exI [of _ q])
      (simp add: new_chan_def)
qed

section \<open>Data after close\<close>

lemma handle_close_removes:
  assumes "core_inv s" "getChan (chans s) i = Some p" "handle_close s p = (h, s')"
  shows "getChan (chans s') i = None"
proof -
  note tab = core_table [OF assms(1,2)]
  obtain e ch1 t where snd: "ch_send (heap s ! p) (CloseMessage (remoteId (heap s ! p))) (trans s)
      = (e, ch1, t)"
    by (cases "ch_send (heap s ! p) (CloseMessage (remoteId (heap s ! p))) (trans s)")
  have "localId ch1 = i" using send_same [OF snd] tab by auto
  then have "chans s' = chans_remove (chans s) i"
    using assms(3) snd by (auto simp: handle_close_def Let_def split: option.splits)
  then show ?thesis using getChan_remove [OF core_small [OF assms(1)]] by simp
qed

lemma free_send: "ch_send ch m t = (e, ch', t') \<Longrightarrow> free_transport t \<Longrightarrow> free_transport t'"
  by (auto simp: ch_send_eq Encode_free split: if_splits)

lemma handle_close_run:
  assumes "core_inv s" "getChan (chans s) i = Some p" "free_transport (trans s)"
  shows "\<exists>s'. handle_close s p = (Handled None, s') \<and> getChan (chans s') i = None
    \<and> free_transport (trans s') \<and> core_inv s' \<and> keeps s s'"
proof -
  obtain h s' where hc: "handle_close s p = (h, s')" by (cases "handle_close s p")
  note ok = handle_close_ok [OF assms(1,2) hc]
  then have "h = Handled None"
    using hc by (auto simp: handle_close_def Let_def handled_ok_def split: prod.splits option.splits)
  moreover have "free_transport (trans s')"
    using hc assms(3) by (auto simp: handle_close_def Let_def dest: free_send
        split: prod.splits option.splits)
  ultimately show ?thesis using hc ok handle_close_removes [OF assms(1,2) hc] by auto
qed

lemma sess_inv_arrive: "sess_inv (Running, s) \<Longrightarrow> sess_inv (Running, arrive s bs)"
  by (simp add: sess_inv_def loop_ok_def arrive_def)

lemma data_kills_peer:
  assumes "sess_inv (Running, b)" "getChan (chans b) (remoteId (heap a ! p)) = Some q"
    "free_transport (trans b)" "p < length (heap a)" "\<not> sentClose (heap a ! p)"
    "free_transport (trans a)" "\<not> wclosed (remoteWin (heap a ! p))"
    "win (remoteWin (heap a ! p)) \<noteq> 0"
  shows "\<exists>a1 a2 b1 b2 r. s_Close a p = (None, a1) \<and> s_write_iter a1 p data 0 = (r, a2)
    \<and> loop_step (Running, arrive b (sent a a1)) = (Running, b1)
    \<and> loop_step (Running, arrive b1 (sent a1 a2)) = (Ended, b2)"
proof -
  let ?ch = "heap a ! p" and ?cid = "remoteId (heap a ! p)"
  let ?ch1 = "?ch\<lparr>sentClose := True\<rparr>" and ?k = "write_chunk (?ch\<lparr>sentClose := True\<rparr>) data"
  let ?cm = "CloseMessage ?cid" and ?dm = "DataMessage ?cid (of_nat ?k) (take ?k data)"
  let ?t1 = "(trans a)\<lparr>tout := tout (trans a) @ wire ?cm\<rparr>"
  let ?a1 = "(set_chan a p ?ch1)\<lparr>trans := ?t1\<rparr>"
  have cl: "s_Close a p = (None, ?a1)"
    using assms(5) by (simp add: s_Close_def ch_Close_def ch_send_eq Encode_free [OF assms(6)])
  have "write_iter data 0 ?ch1 ?t1 = (WContinue (drop ?k data) (0 + ?k), took ?ch1 ?k,
      ?t1\<lparr>tout := tout ?t1 @ wire (DataMessage (remoteId ?ch1) (of_nat ?k) (take ?k data))\<rparr>)"
    by (rule write_iter_sends) (use assms(6-8) in \<open>simp_all del: wire.simps\<close>)
  then obtain a2 where wr: "s_write_iter ?a1 p data 0 = (WContinue (drop ?k data) ?k, a2)"
    "sent ?a1 a2 = wire ?dm"
    using assms(4) by (simp add: s_write_iter_def sent_def del: wire.simps)
  have s1: "sent a ?a1 = wire ?cm" by (simp add: sent_def)
  have cb: "core_inv b" using assms(1) by (simp add: sess_inv_def)
  obtain t where t: "onePacket (arrive b (wire ?cm)) = dispatch (b\<lparr>trans := t\<rparr>) ?cm"
    "free_transport t" using onePacket_arrive [OF assms(3), of ?cm] by auto
  obtain b1 where b1: "handle_close (b\<lparr>trans := t\<rparr>) q = (Handled None, b1)"
    "getChan (chans b1) ?cid = None" "free_transport (trans b1)" "core_inv b1"
    "keeps (b\<lparr>trans := t\<rparr>) b1"
    using handle_close_run [of "b\<lparr>trans := t\<rparr>" ?cid q] cb assms(2) t(2) by auto
  have st1: "loop_step (Running, arrive b (sent a ?a1)) = (Running, b1)"
    using t(1) b1(1) assms(2) by (simp add: s1 dispatch_def after_packet_def del: wire.simps)
  have "length (heap b1) = length (heap b)"
    using b1(1) by (auto simp: handle_close_def Let_def split: prod.splits option.splits)
  then have inv1: "sess_inv (Running, b1)"
    using loop_step_ok [OF sess_inv_arrive [OF assms(1)] st1] assms(1) by (simp add: sess_inv_def)
  have "?k \<le> length data" by (rule write_chunk_le)
  moreover have "?k < 2 ^ 32"
    using u32_lt [of "win (remoteWin ?ch1)"] by (simp add: write_chunk_def)
  ultimately have "wf_msg ?dm" by (simp add: unat_of_nat)
  then obtain t' where t': "onePacket (arrive b1 (wire ?dm)) = dispatch (b1\<lparr>trans := t'\<rparr>) ?dm"
    using onePacket_arrive [OF b1(3)] by blast
  then obtain e s' where "onePacket (arrive b1 (wire ?dm)) = (Handled (Some e), s')"
    using b1(2) by (simp add: dispatch_def)
  then obtain b2 where "loop_step (Running, arrive b1 (wire ?dm)) = (Ended, b2)"
    using loop_ends [OF sess_inv_arrive [OF inv1]] by blast
  then show ?thesis using cl wr st1 by auto
qed

section \<open>A full inbox\<close>

lemma arrive_reachable:
  "session_reachable (st, s) \<Longrightarrow> length (heap s) + 1 < 2 ^ 32 \<Longrightarrow> session_reachable (st, arrive s bs)"
proof (rule session_reachable.step)
  show "session_step (st, s) (st, arrive s bs)"
    using session_step.network [of st s "tbudget (trans s)" "\<lparr>chunks = [bs], final = EOF\<rparr>"]
    by (simp add: arrive_def)
qed (simp_all add: arrive_def)

lemma handleOpen_inbox_full:
  assumes "core_inv s" "length (heap s) + 1 < 2 ^ 32" "length (qbuf (inbox s)) = chanSize"
    and "minPacketLength \<le> mp" "mp \<le> maxPacketLength"
  shows "\<exists>p s1. dispatch s (OpenMessage sid ws mp) = (BlockedInbox p, s1) \<and> inbox s1 = inbox s
    \<and> tout (trans s1) = tout (trans s)"
proof -
  obtain p s1 where nc: "newChannel s channelInbound = (p, s1)"
    by (cases "newChannel s channelInbound")
  have "trans s1 = trans s" "inbox s1 = inbox s" "chan_send (inbox s) p = SendBlocks"
    using newChannel_ok [OF assms(1,2) nc] assms(1,3)
    by (simp_all add: chan_send_def core_inv_def queues_ok_def)
  then show ?thesis
    using assms(4,5) [THEN leD] nc
    by (simp add: dispatch_def handleOpen_def Let_def enqueue_open_def)
qed

text \<open>A reachable session with \<open>n\<close> channels nobody has accepted.\<close>

lemma inbox_fills:
  "n \<le> chanSize \<Longrightarrow> \<exists>s. session_reachable (Running, s) \<and> length (qbuf (inbox s)) = n
     \<and> length (heap s) = n \<and> free_transport (trans s)"
proof (induction n)
  case 0
  then show ?case
    using fresh_reachable
    by (intro exI [of _ fresh_session]) (simp add: fresh_session_def make_chan_def)
next
  case (Suc n)
  then obtain s where s: "session_reachable (Running, s)" "length (qbuf (inbox s)) = n"
    "length (heap s) = n" "free_transport (trans s)" by auto
  let ?m = "OpenMessage 0 channelWindowSize channelMaxPacket"
  obtain t where t: "onePacket (arrive s (wire ?m)) = dispatch (s\<lparr>trans := t\<rparr>) ?m" "free_transport t"
    "tout t = tout (trans s)"
    using onePacket_arrive [OF s(4), of ?m] by auto
  have c: "core_inv (s\<lparr>trans := t\<rparr>)" "length (heap (s\<lparr>trans := t\<rparr>)) + 1 < 2 ^ 32"
    using session_reachable_inv [OF s(1)] by (simp_all add: sess_inv_def)
  obtain q s1 where nc: "newChannel (s\<lparr>trans := t\<rparr>) channelInbound = (q, s1)"
    by (cases "newChannel (s\<lparr>trans := t\<rparr>) channelInbound")
  note nw = newChannel_ok [OF c nc]
  let ?q = "(inbox s)\<lparr>qbuf := qbuf (inbox s) @ [q]\<rparr>"
  have snd: "chan_send (inbox s) q = Sent ?q"
    using c(1) s(2) Suc.prems by (simp add: chan_send_def core_inv_def queues_ok_def)
  obtain h s2 where d: "dispatch (s\<lparr>trans := t\<rparr>) ?m = (h, s2)" by (cases "dispatch (s\<lparr>trans := t\<rparr>) ?m")
  then have s2: "h = Handled None" "inbox s2 = ?q" "length (heap s2) = Suc n" "free_transport (trans s2)"
    using nc nw snd t(2) s(3)
    by (auto simp: dispatch_def handleOpen_def Let_def not_less enqueue_open_def confirm_open_def
        Encode_free simp del: wire.simps)
  have "loop_step (Running, arrive s (wire ?m)) = (Running, s2)"
    using t(1) d s2(1) by (simp add: after_packet_def del: wire.simps)
  then have st: "session_step (Running, arrive s (wire ?m)) (Running, s2)"
    using session_step.packet [of Running "arrive s (wire ?m)"] by (simp del: wire.simps loop_step.simps)
  have "session_reachable (Running, arrive s (wire ?m))"
    by (rule arrive_reachable [OF s(1)]) (use s(3) Suc.prems in simp)
  then have "session_reachable (Running, s2)"
    by (rule session_reachable.step [OF _ st]) (use s2(3) Suc.prems in simp)
  then show ?case using s2 s(2) by (intro exI [of _ s2]) simp
qed

section \<open>Properties\<close>

text \<open>
  The handshake.  A channel opened by one session over a connection to another whose inbox has
  room is confirmed: \<open>Open\<close> returns it, the other session queues its end for \<open>Accept\<close>, the two ends
  carry each other's ids, the table of the peer finds its end under the id our end sends to, and
  both directions start with equal, full windows and matching packet sizes, the state in which the
  stream properties hold.
\<close>

theorem open_handshake:
  assumes "session_reachable (st, a)" "free_transport (trans a)"
    and "session_reachable (st', b)" "free_transport (trans b)" "length (qbuf (inbox b)) < chanSize"
  shows "\<exists>p a1 b1 a2 a3 q. Open_start a = (None, p, a1)
    \<and> onePacket (arrive b (sent a a1)) = (Handled None, b1)
    \<and> onePacket (arrive a1 (sent b b1)) = (Handled None, a2)
    \<and> Open_finish a2 p None = (Some (Inr p), a3)
    \<and> qbuf (inbox b1) = qbuf (inbox b) @ [q]
    \<and> remoteId (heap a3 ! p) = localId (heap b1 ! q) \<and> remoteId (heap b1 ! q) = localId (heap a3 ! p)
    \<and> getChan (chans b1) (remoteId (heap a3 ! p)) = Some q
    \<and> pair_reachable (pair_of (heap a3 ! p) (heap b1 ! q))
    \<and> pair_reachable (pair_of (heap b1 ! q) (heap a3 ! p))"
proof -
  have "core_inv a" "length (heap a) + 1 < 2 ^ 32" "core_inv b" "length (heap b) + 1 < 2 ^ 32"
    using assms(1,3) [THEN session_reachable_inv] by (simp_all add: sess_inv_def)
  from handshake_run [OF this(1,2) assms(2) this(3,4) assms(4,5)] pair_reachable.start
  show ?thesis by metis
qed

theorem open_handshake_witness:
  "\<exists>p a1 b1 a2 a3. Open_start opened_session = (None, p, a1)
    \<and> onePacket (arrive fresh_session (sent opened_session a1)) = (Handled None, b1)
    \<and> onePacket (arrive a1 (sent fresh_session b1)) = (Handled None, a2)
    \<and> Open_finish a2 p None = (Some (Inr p), a3)"
proof -
  have "free_transport (trans opened_session)" "free_transport (trans fresh_session)"
    "length (qbuf (inbox fresh_session)) < chanSize"
    by (simp_all add: opened_session_def fresh_session_def make_chan_def)
  from open_handshake [OF opened_reachable this(1) fresh_reachable this(2,3)] show ?thesis by blast
qed

text \<open>
  C38: When 16 channels wait to be accepted, one more open request parks the receive loop before it
  answers: the loop stays parked however often it is scheduled, so data, window updates and closes
  of all other channels of the session are no longer read, as long as nobody calls \<open>Accept\<close>.
\<close>

theorem unaccepted_channels_stop_the_loop:
  assumes "session_reachable (Running, s)" "free_transport (trans s)"
    and "length (qbuf (inbox s)) = chanSize" "minPacketLength \<le> mp" "mp \<le> maxPacketLength"
  shows "\<exists>p s1. loop_step (Running, arrive s (wire (OpenMessage sid ws mp))) = (OnInbox p, s1)
    \<and> (\<forall>n. (loop_step ^^ n) (OnInbox p, s1) = (OnInbox p, s1))
    \<and> tout (trans s1) = tout (trans s)"
proof -
  let ?m = "OpenMessage sid ws mp"
  obtain t where t: "onePacket (arrive s (wire ?m)) = dispatch (s\<lparr>trans := t\<rparr>) ?m"
    "tout t = tout (trans s)"
    using onePacket_arrive [OF assms(2), of ?m] by auto
  have c: "core_inv s" "length (heap s) + 1 < 2 ^ 32"
    using session_reachable_inv [OF assms(1)] by (simp_all add: sess_inv_def)
  obtain p s1 where d: "dispatch (s\<lparr>trans := t\<rparr>) ?m = (BlockedInbox p, s1)" "inbox s1 = inbox s"
    "tout (trans s1) = tout (trans s)"
    using handleOpen_inbox_full [of "s\<lparr>trans := t\<rparr>"] c assms(3-5) t(2) by fastforce
  have "chan_send (inbox s1) p = SendBlocks"
    using c(1) assms(3) d(2) by (simp add: chan_send_def core_inv_def queues_ok_def)
  then have "loop_step (OnInbox p, s1) = (OnInbox p, s1)"
    by (simp add: enqueue_open_def after_packet_def)
  then have "(loop_step ^^ n) (OnInbox p, s1) = (OnInbox p, s1)" for n
    by (induction n) (simp_all del: loop_step.simps)
  moreover have "loop_step (Running, arrive s (wire ?m)) = (OnInbox p, s1)"
    using t(1) d(1) by (simp add: after_packet_def del: wire.simps)
  ultimately show ?thesis using d(3) by blast
qed

theorem unaccepted_channels_stop_the_loop_witness:
  "\<exists>s p s1. session_reachable (Running, s)
    \<and> loop_step (Running, arrive s (wire (OpenMessage 3 0 9))) = (OnInbox p, s1)"
proof -
  obtain s where s: "session_reachable (Running, s)" "length (qbuf (inbox s)) = chanSize"
    "free_transport (trans s)"
    using inbox_fills [of chanSize] by auto
  have "minPacketLength \<le> (9 :: u32)" "(9 :: u32) \<le> maxPacketLength" by simp_all
  from unaccepted_channels_stop_the_loop [OF s(1,3,2) this] s(1) show ?thesis by blast
qed

text \<open>
  \<open>Close\<close> does not stop \<open>Write\<close>: data may still be written after it, and as soon as the peer,
  which has dropped the channel, reads that packet, its whole session ends, and every other channel
  of the connection with it.
\<close>

theorem data_after_close_ends_peer:
  assumes "session_reachable (Running, b)" "free_transport (trans b)"
    and "getChan (chans b) (remoteId (heap a ! p)) = Some q"
    and "p < length (heap a)" "\<not> sentClose (heap a ! p)" "free_transport (trans a)"
    and "\<not> wclosed (remoteWin (heap a ! p))" "win (remoteWin (heap a ! p)) \<noteq> 0" "data \<noteq> []"
  shows "\<exists>a1 a2 b1 b2 r. s_Close a p = (None, a1) \<and> s_write_iter a1 p data 0 = (r, a2)
    \<and> loop_step (Running, arrive b (sent a a1)) = (Running, b1)
    \<and> loop_step (Running, arrive b1 (sent a1 a2)) = (Ended, b2)"
  using data_kills_peer [OF session_reachable_inv [OF assms(1)] assms(3,2,4-8)] .

theorem data_after_close_ends_peer_witness:
  "\<exists>a1 a2 b1 b2 r. s_Close (opened_session\<lparr>heap := [sample_channel\<lparr>remoteId := 0\<rparr>]\<rparr>) 0 = (None, a1)
    \<and> s_write_iter a1 0 [7] 0 = (r, a2)
    \<and> loop_step (Running, arrive opened_session
        (sent (opened_session\<lparr>heap := [sample_channel\<lparr>remoteId := 0\<rparr>]\<rparr>) a1)) = (Running, b1)
    \<and> loop_step (Running, arrive b1 (sent a1 a2)) = (Ended, b2)"
proof -
  let ?a = "opened_session\<lparr>heap := [sample_channel\<lparr>remoteId := 0\<rparr>]\<rparr>"
  have f: "free_transport (trans opened_session)" by (simp add: opened_session_def)
  have "getChan (chans opened_session) (remoteId (heap ?a ! 0)) = Some 0" by simp
  from data_after_close_ends_peer [OF opened_reachable f this] f
  show ?thesis by (simp add: sample_channel_def del: wire.simps loop_step.simps)
qed

end
