(* ===== verification/CloseRace.thy ===== *)
theory CloseRace
  imports SessionPair
begin

text \<open>
  What happens inside the two steps that CloseNet takes as one: \<open>Write\<close> between \<open>reserve\<close> and \<open>Encode\<close>, and
  \<open>handleOpen\<close> between the inbox and the confirmation.  The code holds no lock there.  In each gap an ordinary use of
  the channels by both sides ends a session, or gives the bytes of one stream to another.
\<close>

section \<open>Write in two steps\<close>

definition s_reserve :: "session \<Rightarrow> nat \<Rightarrow> bytes \<Rightarrow> (u32 \<times> go_error option) option \<times> session" where
  "s_reserve s p data =
     (let ch = heap s ! p in
      case reserve (remoteWin ch) (min32 (maxRemotePayload ch) (length data)) of
        (g, w) \<Rightarrow> (g, set_chan s p (ch\<lparr>remoteWin := w\<rparr>)))"

definition s_send_data :: "session \<Rightarrow> nat \<Rightarrow> bytes \<Rightarrow> nat \<Rightarrow> u32 \<Rightarrow> write_state \<times> session" where
  "s_send_data s p data n space =
     (case slice_of data 0 (unat space) of
        None \<Rightarrow> (WPanic, s)
      | Some toSend \<Rightarrow>
          (case Encode (trans s) (DataMessage (remoteId (heap s ! p)) (of_nat (length toSend)) toSend) of
             (Some e, t) \<Rightarrow> (WReturn n (Some e), s\<lparr>trans := t\<rparr>)
           | (None, t) \<Rightarrow> (WContinue (drop (length toSend) data) (n + length toSend), s\<lparr>trans := t\<rparr>)))"

text \<open>With nothing in between they are the iteration of CloseNet.\<close>

lemma s_write_iter_steps:
  assumes "p < length (heap s)"
  shows "s_write_iter s p data n =
    (case s_reserve s p data of
       (None, s') \<Rightarrow> (WPark data n, s')
     | (Some (space, Some e), s') \<Rightarrow> (WReturn n (Some e), s')
     | (Some (space, None), s') \<Rightarrow> s_send_data s' p data n space)"
  using assms
  by (simp add: s_write_iter_def write_iter_def s_reserve_def s_send_data_def Let_def set_chan_def
      split: prod.split option.split)

lemma s_reserve_grants:
  assumes "\<not> wclosed (remoteWin (heap s ! p))" "win (remoteWin (heap s ! p)) \<noteq> 0" "k = write_chunk (heap s ! p) data"
  shows "s_reserve s p data = (Some (of_nat k, None), set_chan s p (took (heap s ! p) k))" "k < 2 ^ 32"
proof -
  let ?w = "remoteWin (heap s ! p)" and ?n = "min32 (maxRemotePayload (heap s ! p)) (length data)"
  obtain g err w' where r: "reserve ?w ?n = (Some (g, err), w')"
    using reserve_parks [of ?w ?n] assms(1,2) by (cases "reserve ?w ?n") auto
  then have "unat g = k" "err = None" using reserve_grant [OF r] assms(1,3) by (auto simp: write_chunk_def)
  then have "g = of_nat k" by auto
  then show "s_reserve s p data = (Some (of_nat k, None), set_chan s p (took (heap s ! p) k))"
    using r reserve_window [OF r] \<open>err = None\<close> by (simp add: s_reserve_def Let_def took_def)
  show "k < 2 ^ 32" using u32_lt [of g] \<open>unat g = k\<close> by simp
qed

lemma s_send_data_sends:
  assumes "k \<le> length data" "k < 2 ^ 32" "free_transport (trans s)"
  shows "\<exists>s'. s_send_data s p data n (of_nat k) = (WContinue (drop k data) (n + k), s')
    \<and> sent s s' = wire (DataMessage (remoteId (heap s ! p)) (of_nat k) (take k data))"
  using assms
  by (simp add: s_send_data_def unat_of_nat min_def Encode_free sent_def del: wire.simps)

section \<open>A Close on its way\<close>

text \<open>A session that gets \<open>Close\<close> for a channel in its table.\<close>

lemma handle_close_answers:
  assumes "core_inv s" "getChan (chans s) i = Some p" "free_transport (trans s)"
  obtains s' ch where "handle_close s p = (Handled None, s')" "core_inv s'" "keeps s s'" "free_transport (trans s')"
    "heap s' = (heap s)[p := ch]" "remoteId ch = remoteId (heap s ! p)" "chans s' = chans_remove (chans s) i"
    "tout (trans s') = tout (trans s) @ (if sentClose (heap s ! p) then [] else wire (CloseMessage (remoteId (heap s ! p))))"
proof -
  obtain s' where s': "handle_close s p = (Handled None, s')" "core_inv s'" "keeps s s'" "free_transport (trans s')"
    using handle_close_run [OF assms] by blast
  obtain e ch1 t where snd: "ch_send (heap s ! p) (CloseMessage (remoteId (heap s ! p))) (trans s) = (e, ch1, t)"
    by (cases "ch_send (heap s ! p) (CloseMessage (remoteId (heap s ! p))) (trans s)")
  have "tout t = tout (trans s) @ (if sentClose (heap s ! p) then [] else wire (CloseMessage (remoteId (heap s ! p))))"
    and c1: "localId ch1 = i" "remoteId ch1 = remoteId (heap s ! p)"
    using snd core_table [OF assms(1,2)]
    by (auto simp: ch_send_eq Encode_free [OF assms(3)] simp del: wire.simps split: if_splits)
  moreover have "remoteId ch2 = remoteId ch1" if "ch_close ch1 = Some ch2" for ch2
    using that by (auto simp: ch_close_def chan_close_def Let_def split: if_splits)
  ultimately show ?thesis
    using s' snd that [of s'] by (auto simp: handle_close_def Let_def simp del: wire.simps split: option.splits)
qed

lemma close_answered:
  assumes "sess_inv (Running, s)" "getChan (chans s) i = Some p" "free_transport (trans s)"
  obtains s' where "loop_step (Running, arrive s (wire (CloseMessage i))) = (Running, s')" "sess_inv (Running, s')"
    "free_transport (trans s')" "remoteId (heap s' ! p) = remoteId (heap s ! p)" "length (heap s') = length (heap s)"
    "chans s' = chans_remove (chans s) i"
    "sent s s' = (if sentClose (heap s ! p) then [] else wire (CloseMessage (remoteId (heap s ! p))))"
proof -
  have c: "core_inv s" using assms(1) by (simp add: sess_inv_def)
  obtain t where t: "onePacket (arrive s (wire (CloseMessage i))) = dispatch (s\<lparr>trans := t\<rparr>) (CloseMessage i)"
    "free_transport t" "tout t = tout (trans s)"
    using onePacket_arrive [OF assms(3), of "CloseMessage i"] by auto
  have pre: "core_inv (s\<lparr>trans := t\<rparr>)" "getChan (chans (s\<lparr>trans := t\<rparr>)) i = Some p" "free_transport (trans (s\<lparr>trans := t\<rparr>))"
    using c assms(2) t(2) by simp_all
  let ?s = "s\<lparr>trans := t\<rparr>"
  obtain s' ch where h: "handle_close ?s p = (Handled None, s')" "core_inv s'" "keeps ?s s'" "free_transport (trans s')"
    "heap s' = (heap ?s)[p := ch]" "remoteId ch = remoteId (heap ?s ! p)" "chans s' = chans_remove (chans ?s) i"
    "tout (trans s') = tout (trans ?s) @ (if sentClose (heap ?s ! p) then [] else wire (CloseMessage (remoteId (heap ?s ! p))))"
    using handle_close_answers [OF pre] by blast
  have s': "handle_close ?s p = (Handled None, s')" "free_transport (trans s')"
    "heap s' = (heap s)[p := ch]" "remoteId ch = remoteId (heap s ! p)" "chans s' = chans_remove (chans s) i"
    "tout (trans s') = tout (trans s) @ (if sentClose (heap s ! p) then [] else wire (CloseMessage (remoteId (heap s ! p))))"
    using h t(3) by (simp_all del: wire.simps)
  have step: "loop_step (Running, arrive s (wire (CloseMessage i))) = (Running, s')"
    using t(1) s'(1) assms(2) by (simp add: dispatch_def after_packet_def del: wire.simps)
  have len: "length (heap s') = length (heap s)" using s'(3) by simp
  have "sess_inv (Running, s')"
    using loop_step_ok [OF sess_inv_arrive [OF assms(1)] step] assms(1) len by (simp add: sess_inv_def)
  moreover have "p < length (heap s)" using core_table [OF c assms(2)] by simp
  ultimately show ?thesis using that [OF step] s' len by (simp add: sent_def del: wire.simps)
qed

text \<open>A packet for an id that is not in the table ends the session.\<close>

lemma stray_packet_ends:
  assumes "sess_inv (Running, s)" "free_transport (trans s)" "wf_msg m" "msg_Channel m = (i, True)"
    and "getChan (chans s) i = None"
  obtains s' where "loop_step (Running, arrive s (wire m)) = (Ended, s')"
    "serr s' = Some (Errorf (''qmux: invalid channel '' @ u32_string i))"
proof -
  obtain t where "onePacket (arrive s (wire m)) = dispatch (s\<lparr>trans := t\<rparr>) m"
    using onePacket_arrive [OF assms(2,3)] by blast
  then have "onePacket (arrive s (wire m)) = (Handled (Some (Errorf (''qmux: invalid channel '' @ u32_string i))), s\<lparr>trans := t\<rparr>)"
    using assms(4,5) by (simp add: dispatch_def)
  from loop_ends [OF sess_inv_arrive [OF assms(1)] this] that show ?thesis by (auto simp: shut_down_def)
qed

text \<open>The caller's own \<open>Close\<close>.\<close>

lemma s_Close_eq:
  "\<not> sentClose (heap s ! p) \<Longrightarrow> free_transport (trans s) \<Longrightarrow>
   s_Close s p = (None, (set_chan s p ((heap s ! p)\<lparr>sentClose := True\<rparr>))\<lparr>trans :=
     (trans s)\<lparr>tout := tout (trans s) @ wire (CloseMessage (remoteId (heap s ! p)))\<rparr>\<rparr>)"
  by (simp add: s_Close_def ch_Close_def ch_send_eq Encode_free)

lemma s_Close_sends:
  assumes "sess_inv (Running, s)" "p < length (heap s)" "\<not> sentClose (heap s ! p)" "free_transport (trans s)"
  obtains s' where "s_Close s p = (None, s')" "sess_inv (Running, s')" "free_transport (trans s')" "chans s' = chans s"
    "heap s' = (heap s)[p := (heap s ! p)\<lparr>sentClose := True\<rparr>]" "sent s s' = wire (CloseMessage (remoteId (heap s ! p)))"
    "inbox s' = inbox s" "closeCh s' = closeCh s"
proof -
  let ?ch = "(heap s ! p)\<lparr>sentClose := True\<rparr>" and ?m = "CloseMessage (remoteId (heap s ! p))"
  let ?s = "(set_chan s p ?ch)\<lparr>trans := (trans s)\<lparr>tout := tout (trans s) @ wire ?m\<rparr>\<rparr>"
  have "s_Close s p = (None, ?s)" by (rule s_Close_eq [OF assms(3,4)])
  moreover have "core_inv (set_chan s p ?ch)"
    using assms(1,2) core_heap by (intro core_set_chan chan_ok_sentClose) (auto simp: sess_inv_def)
  then have "sess_inv (Running, ?s)" using assms(1) by (simp add: sess_inv_def loop_ok_def)
  ultimately show ?thesis using that assms(4) by (simp add: sent_def del: wire.simps)
qed

section \<open>Write across a Close\<close>

lemma write_race:
  assumes "sess_inv (Running, a)" "free_transport (trans a)" "getChan (chans a) i = Some p"
    and "sess_inv (Running, b)" "free_transport (trans b)" "getChan (chans b) j = Some q"
    and "remoteId (heap a ! p) = j" "remoteId (heap b ! q) = i" "\<not> sentClose (heap a ! p)" "\<not> sentClose (heap b ! q)"
    and "\<not> wclosed (remoteWin (heap a ! p))" "win (remoteWin (heap a ! p)) \<noteq> 0"
    and k: "k = write_chunk (heap a ! p) data"
  obtains space a1 b1 a2 b2 a3 where "s_reserve a p data = (Some (space, None), a1)" "s_Close b q = (None, b1)"
    "loop_step (Running, arrive a1 (sent b b1)) = (Running, a2)"
    "loop_step (Running, arrive b1 (sent a1 a2)) = (Running, b2)"
    "s_send_data a2 p data 0 space = (WContinue (drop k data) k, a3)"
    "sent a2 a3 = wire (DataMessage j (of_nat k) (take k data))" "k \<le> length data" "k < 2 ^ 32"
    "sess_inv (Running, b2)" "free_transport (trans b2)" "chans b2 = chans_remove (chans b) j" "length (heap b2) = length (heap b)"
proof -
  have ca: "core_inv a" and cb: "core_inv b" using assms(1,4) by (simp_all add: sess_inv_def)
  note ta = core_table [OF ca assms(3)] and tb = core_table [OF cb assms(6)]
  define a1 where "a1 = set_chan a p (took (heap a ! p) k)"
  note res = s_reserve_grants [OF assms(11,12) k, folded a1_def]
  have kl: "k \<le> length data" unfolding k by (rule write_chunk_le)
  have "chan_ok (took (heap a ! p) k)"
    using core_heap [OF ca] ta unfolding took_def by (intro chan_ok_window) simp_all
  then have "core_inv a1"
    unfolding a1_def using ca ta by (intro core_set_chan) (simp_all add: took_def)
  then have ia1: "sess_inv (Running, a1)" using assms(1) by (simp add: sess_inv_def a1_def loop_ok_def)
  obtain b1 where b1: "s_Close b q = (None, b1)" "sess_inv (Running, b1)" "free_transport (trans b1)" "chans b1 = chans b"
    "heap b1 = (heap b)[q := (heap b ! q)\<lparr>sentClose := True\<rparr>]" "sent b b1 = wire (CloseMessage i)"
    using s_Close_sends [OF assms(4) _ assms(10,5)] tb assms(8) by metis
  have h1: "heap a1 ! p = took (heap a ! p) k" "chans a1 = chans a" "trans a1 = trans a" using ta by (simp_all add: a1_def)
  obtain a2 where a2: "loop_step (Running, arrive a1 (wire (CloseMessage i))) = (Running, a2)" "free_transport (trans a2)"
    "remoteId (heap a2 ! p) = j" "sent a1 a2 = wire (CloseMessage j)"
    using close_answered [OF ia1, of i p] assms(2,3,7,9) h1 by (auto simp: took_def simp del: wire.simps loop_step.simps)
  obtain b2 where b2: "loop_step (Running, arrive b1 (wire (CloseMessage j))) = (Running, b2)" "sess_inv (Running, b2)"
    "free_transport (trans b2)" "chans b2 = chans_remove (chans b) j" "length (heap b2) = length (heap b)"
    using close_answered [OF b1(2), of j q] b1(3,4,5) assms(6) by (auto simp del: wire.simps loop_step.simps)
  obtain a3 where a3: "s_send_data a2 p data 0 (of_nat k) = (WContinue (drop k data) k, a3)"
    "sent a2 a3 = wire (DataMessage j (of_nat k) (take k data))"
    using s_send_data_sends [OF kl res(2) a2(2), of p 0] a2(3) by auto
  show ?thesis
    by (rule that [OF res(1) b1(1) _ _ a3 kl res(2) b2(2-5)]) (simp_all only: b1(6) a2(1,4) b2(1))
qed

lemma lowest_free_id:
  assumes "small cs" "getChan cs i = None" "\<And>j. j < i \<Longrightarrow> getChan cs j \<noteq> None"
  shows "fst (chans_add cs ch) = i"
proof -
  let ?f = "free_slot cs"
  have f32: "unat (of_nat ?f :: u32) = ?f"
    using unat_add_id [OF assms(1), of ch] by (simp add: chans_add_eq)
  have "getChan cs (of_nat ?f) = None"
    using assms(1) free_slot_free [of cs] by (simp add: getChan_nth f32)
  then have "\<not> of_nat ?f < i" using assms(3) by blast
  then have "unat i \<le> ?f" by (simp add: word_less_nat_alt f32)
  moreover have "\<not> unat i < ?f"
    using free_slot_least [of "unat i" cs] free_slot_le [of cs] assms(1,2) by (auto simp: getChan_nth)
  ultimately have "?f = unat i" by simp
  then show ?thesis by (simp add: chans_add_eq)
qed

text \<open>The closing side has opened a channel under the freed id when the late packet comes.\<close>

lemma Open_start_reuses:
  assumes "core_inv s" "length (heap s) + 1 < 2 ^ 32" "free_transport (trans s)"
    and "getChan (chans s) i = None" "\<And>j. j < i \<Longrightarrow> getChan (chans s) j \<noteq> None"
  obtains s' where "Open_start s = (None, length (heap s), s')" "getChan (chans s') i = Some (length (heap s))"
    "heap s' = heap s @ [(new_chan channelOutbound)\<lparr>localId := i, maxIncomingPayload := channelMaxPacket\<rparr>]"
    "free_transport (trans s')"
proof -
  let ?ch = "(new_chan channelOutbound)\<lparr>localId := i, maxIncomingPayload := channelMaxPacket\<rparr>"
  have sm: "small (chans s)" using assms(1) by (rule core_small)
  have "length (chans s) \<le> length (heap s)" using assms(1) by (simp add: core_inv_def tab_ok_def)
  then have room: "length (chans s) + 1 < 2 ^ 32" using assms(2) by simp
  obtain cs where add: "chans_add (chans s) (length (heap s)) = (i, cs)"
    using lowest_free_id [OF sm assms(4,5), of "length (heap s)"]
    by (cases "chans_add (chans s) (length (heap s))") auto
  have "getChan cs i = Some (length (heap s))"
    using ctab.find_insert [OF room, of "length (heap s)" i] add by simp
  then show ?thesis
    using that add assms(3)
    by (simp add: Open_start_def newChannel_def Let_def set_chan_def nth_append list_update_append Encode_free del: wire.simps)
qed

lemma data_arrives:
  assumes "free_transport (trans s)" "getChan (chans s) i = Some q" "q < length (heap s)"
    and "heap s ! q = (new_chan channelOutbound)\<lparr>localId := i, maxIncomingPayload := channelMaxPacket\<rparr>"
    and "length bs \<le> unat channelMaxPacket"
  shows "\<exists>s'. loop_step (Running, arrive s (wire (DataMessage i (of_nat (length bs)) bs))) = (Running, s')
    \<and> buffer_content (pending (heap s' ! q)) = bs"
proof -
  let ?m = "DataMessage i (of_nat (length bs)) bs" and ?ch = "heap s ! q"
  have l: "unat (of_nat (length bs) :: u32) = length bs" using assms(5) by (simp add: unat_of_nat)
  then have "wf_msg ?m" by simp
  then obtain t where t: "onePacket (arrive s (wire ?m)) = dispatch (s\<lparr>trans := t\<rparr>) ?m"
    using onePacket_arrive [OF assms(1)] by blast
  have "\<not> channelMaxPacket < (of_nat (length bs) :: u32)" "\<not> channelWindowSize < (of_nat (length bs) :: u32)"
    using assms(5) by (simp_all add: word_less_nat_alt l)
  then have "handleData ?ch (of_nat (length bs)) bs =
      (None, ?ch\<lparr>myWindow := myWindow ?ch - of_nat (length bs), pending := buffer_write (pending ?ch) bs\<rparr>)"
    using assms(4) by (simp add: handleData_def new_chan_def)
  moreover have "buffer_content (buffer_write (pending ?ch) bs) = bs"
    using assms(4) by (simp add: new_chan_def rbuf.items_put)
  ultimately show ?thesis
    using t assms(2,3) by (simp add: dispatch_def after_packet_def)
qed

section \<open>Answering an opening in two steps\<close>

text \<open>\<open>handleOpen\<close> up to the inbox, when it accepts the request and there is room.\<close>

definition open_queued :: "session \<Rightarrow> u32 \<Rightarrow> u32 \<Rightarrow> u32 \<Rightarrow> (nat \<times> session) option" where
  "open_queued s sid ws mp =
     (if mp < minPacketLength \<or> mp > maxPacketLength then None
      else
        (case newChannel s channelInbound of
           (p, s1) \<Rightarrow>
             let c = heap s1 ! p;
                 c' = c\<lparr>remoteId := sid, maxRemotePayload := mp,
                        remoteWin := snd (window_add (remoteWin c) ws),
                        maxIncomingPayload := channelMaxPacket\<rparr>
             in (case chan_send (inbox s1) p of
                   Sent q \<Rightarrow> Some (p, (set_chan s1 p c')\<lparr>inbox := q\<rparr>)
                 | _ \<Rightarrow> None)))"

lemma handleOpen_steps: "open_queued s sid ws mp = Some (p, s1) \<Longrightarrow> handleOpen s sid ws mp = confirm_open s1 p"
  by (auto simp: open_queued_def handleOpen_def enqueue_open_def Let_def split: if_splits prod.splits chan_send.splits)

lemma open_queued_accepts:
  assumes "core_inv b" "length (heap b) + 1 < 2 ^ 32" "qbuf (inbox b) = []"
    and "minPacketLength \<le> mp" "mp \<le> maxPacketLength"
  obtains q b1 b2 rid where "open_queued b sid ws mp = Some (q, b1)" "Accept b1 True = (Some (Inr q), b2)"
    "trans b2 = trans b" "q < length (heap b2)"
    "heap b2 ! q = (new_chan channelInbound)\<lparr>localId := rid, remoteId := sid, maxRemotePayload := mp,
       remoteWin := snd (window_add new_window ws), maxIncomingPayload := channelMaxPacket\<rparr>"
proof -
  obtain q s1 where nc: "newChannel b channelInbound = (q, s1)" by (cases "newChannel b channelInbound")
  note n = newChannel_ok [OF assms(1,2) nc]
  define rid where "rid = localId (heap s1 ! q)"
  have ch: "heap s1 ! q = (new_chan channelInbound)\<lparr>localId := rid\<rparr>" unfolding rid_def using n by blast
  let ?c = "(new_chan channelInbound)\<lparr>localId := rid, remoteId := sid, maxRemotePayload := mp,
       remoteWin := snd (window_add new_window ws), maxIncomingPayload := channelMaxPacket\<rparr>"
  let ?b1 = "(set_chan s1 q ?c)\<lparr>inbox := (inbox b)\<lparr>qbuf := [q]\<rparr>\<rparr>"
  have "chan_send (inbox b) q = Sent ((inbox b)\<lparr>qbuf := [q]\<rparr>)"
    using assms(1,3) by (simp add: chan_send_def core_inv_def queues_ok_def)
  then have "open_queued b sid ws mp = Some (q, ?b1)"
    using assms(4,5) nc n ch by (simp add: open_queued_def Let_def not_less new_chan_def)
  moreover have "Accept ?b1 True = (Some (Inr q), ?b1\<lparr>inbox := (inbox b)\<lparr>qbuf := []\<rparr>\<rparr>)"
    by (simp add: Accept_def chan_recv_def split: chan_recv.split)
  ultimately show ?thesis using that [of q ?b1 _ rid] n by simp
qed

lemma confirm_open_sends:
  "free_transport (trans s) \<Longrightarrow> \<exists>s'. confirm_open s p = (Handled None, s')
    \<and> sent s s' = wire (OpenConfirmMessage (remoteId (heap s ! p)) (localId (heap s ! p)) (myWindow (heap s ! p))
        (maxIncomingPayload (heap s ! p)))"
  by (simp add: confirm_open_def Let_def Encode_free sent_def del: wire.simps)

section \<open>Properties\<close>

text \<open>A session with an open channel under id 0, whose peer calls it 0, too.\<close>

definition linked_session :: session where
  "linked_session = snd (loop_step (Running,
     arrive opened_session (wire (OpenConfirmMessage 0 0 channelWindowSize channelMaxPacket))))"

lemma linked_reachable: "session_reachable (Running, linked_session)"
proof -
  let ?s = "arrive opened_session (wire (OpenConfirmMessage 0 0 channelWindowSize channelMaxPacket))"
  have r: "session_reachable (Running, ?s)"
    by (rule arrive_reachable [OF opened_reachable]) simp
  have pair: "c = (l, snd c)" if "fst c = l" for c :: "loop_state \<times> session" and l using that by (cases c) simp
  have "fst (loop_step (Running, ?s)) = Running" by code_simp
  note eq = pair [OF this, folded linked_session_def]
  have "length (heap linked_session) = 1" by code_simp
  then have "length (heap (snd (Running, linked_session))) + 1 < 2 ^ 32" by simp
  with r session_step.packet [of Running ?s, unfolded eq] show ?thesis by (rule session_reachable.step)
qed

lemma free_linked: "free_transport (trans linked_session)"
  by code_simp

lemma linked_channel:
  "getChan (chans linked_session) 0 = Some 0" "remoteId (heap linked_session ! 0) = 0" "\<not> sentClose (heap linked_session ! 0)"
  "\<not> wclosed (remoteWin (heap linked_session ! 0))" "win (remoteWin (heap linked_session ! 0)) = channelWindowSize"
  "maxRemotePayload (heap linked_session ! 0) = channelMaxPacket"
  by code_simp+

text \<open>
  C12: \<open>Close\<close> by one side and \<open>Write\<close> by the other, both allowed at any time, can end the connection.  \<open>Write\<close> takes
  credit and then encodes, with no lock that the handling of \<open>Close\<close> takes: if the receive loop answers the
  peer's \<open>Close\<close> in between, \<open>Write\<close> still sends its packet and reports success, the closer has dropped the channel when
  the packet comes, and its whole session ends with "invalid channel", taking all other channels with it.
\<close>

theorem write_across_close_ends_session:
  assumes "session_reachable (Running, a)" "free_transport (trans a)" "getChan (chans a) i = Some p"
    and "session_reachable (Running, b)" "free_transport (trans b)" "getChan (chans b) j = Some q"
    and "remoteId (heap a ! p) = j" "remoteId (heap b ! q) = i" "\<not> sentClose (heap a ! p)" "\<not> sentClose (heap b ! q)"
    and "\<not> wclosed (remoteWin (heap a ! p))" "win (remoteWin (heap a ! p)) \<noteq> 0"
  shows "\<exists>space a1 b1 a2 b2 data' n a3 b3. s_reserve a p data = (Some (space, None), a1) \<and> s_Close b q = (None, b1)
    \<and> loop_step (Running, arrive a1 (sent b b1)) = (Running, a2)
    \<and> loop_step (Running, arrive b1 (sent a1 a2)) = (Running, b2)
    \<and> s_send_data a2 p data 0 space = (WContinue data' n, a3)
    \<and> loop_step (Running, arrive b2 (sent a2 a3)) = (Ended, b3)
    \<and> serr b3 = Some (Errorf (''qmux: invalid channel '' @ u32_string j))"
proof -
  note ia = session_reachable_inv [OF assms(1)] and ib = session_reachable_inv [OF assms(4)]
  obtain space a1 b1 a2 b2 a3 k where r: "s_reserve a p data = (Some (space, None), a1)" "s_Close b q = (None, b1)"
    "loop_step (Running, arrive a1 (sent b b1)) = (Running, a2)" "loop_step (Running, arrive b1 (sent a1 a2)) = (Running, b2)"
    "s_send_data a2 p data 0 space = (WContinue (drop k data) k, a3)"
    and s: "sent a2 a3 = wire (DataMessage j (of_nat k) (take k data))" "k \<le> length data" "k < 2 ^ 32"
    and b2: "sess_inv (Running, b2)" "free_transport (trans b2)" "chans b2 = chans_remove (chans b) j"
    using write_race [OF ia assms(2,3) ib assms(5-12) refl, of data] by metis
  have wf: "wf_msg (DataMessage j (of_nat k) (take k data))" using s(2,3) by (simp add: unat_of_nat)
  have none: "getChan (chans b2) j = None"
    using b2(3) core_small [of b] ib by (simp add: getChan_remove sess_inv_def)
  obtain b3 where "loop_step (Running, arrive b2 (sent a2 a3)) = (Ended, b3)"
    "serr b3 = Some (Errorf (''qmux: invalid channel '' @ u32_string j))"
    using stray_packet_ends [OF b2(1,2) wf _ none] unfolding s(1) msg_Channel.simps by blast
  with r show ?thesis by blast
qed

theorem write_across_close_ends_session_witness:
  "\<exists>space a1 a2 r a3 b b3. s_reserve linked_session 0 [1, 2, 3] = (Some (space, None), a1)
    \<and> s_send_data a2 0 [1, 2, 3] 0 space = (r, a3) \<and> loop_step (Running, arrive b (sent a2 a3)) = (Ended, b3)"
proof -
  note l = linked_reachable free_linked linked_channel(1)
  have w: "win (remoteWin (heap linked_session ! 0)) \<noteq> 0" by (simp add: linked_channel)
  from write_across_close_ends_session [OF l l linked_channel(2,2,3,3,4) w, of "[1, 2, 3]"] show ?thesis by blast
qed

text \<open>
  C14: In the same gap bytes can go into the wrong stream: if the closer has meanwhile opened its next channel, which gets
  the freed id when all lower ids are taken, the late packet of the old channel is accepted as data of the new one, whose
  reader is given bytes that nobody has written to it.
\<close>

theorem write_across_close_enters_next_channel:
  assumes "session_reachable (Running, a)" "free_transport (trans a)" "getChan (chans a) i = Some p"
    and "session_reachable (Running, b)" "free_transport (trans b)" "getChan (chans b) j = Some q"
    and "remoteId (heap a ! p) = j" "remoteId (heap b ! q) = i" "\<not> sentClose (heap a ! p)" "\<not> sentClose (heap b ! q)"
    and "\<not> wclosed (remoteWin (heap a ! p))" "win (remoteWin (heap a ! p)) \<noteq> 0"
    and "\<And>j'. j' < j \<Longrightarrow> getChan (chans b) j' \<noteq> None" "0 < length data" "length data \<le> unat channelMaxPacket"
    and "maxRemotePayload (heap a ! p) \<noteq> 0"
  shows "\<exists>space a1 b1 a2 b2 data' n a3 q' b3 b4. s_reserve a p data = (Some (space, None), a1) \<and> s_Close b q = (None, b1)
    \<and> loop_step (Running, arrive a1 (sent b b1)) = (Running, a2)
    \<and> loop_step (Running, arrive b1 (sent a1 a2)) = (Running, b2)
    \<and> s_send_data a2 p data 0 space = (WContinue data' n, a3)
    \<and> Open_start b2 = (None, q', b3) \<and> q' \<noteq> q
    \<and> loop_step (Running, arrive b3 (sent a2 a3)) = (Running, b4)
    \<and> buffer_content (pending (heap b4 ! q')) \<noteq> [] \<and> buffer_content (pending (heap b4 ! q')) = take n data"
proof -
  note ia = session_reachable_inv [OF assms(1)] and ib = session_reachable_inv [OF assms(4)]
  define k where "k = write_chunk (heap a ! p) data"
  obtain space a1 b1 a2 b2 a3 where r: "s_reserve a p data = (Some (space, None), a1)" "s_Close b q = (None, b1)"
    "loop_step (Running, arrive a1 (sent b b1)) = (Running, a2)" "loop_step (Running, arrive b1 (sent a1 a2)) = (Running, b2)"
    "s_send_data a2 p data 0 space = (WContinue (drop k data) k, a3)"
    and s: "sent a2 a3 = wire (DataMessage j (of_nat k) (take k data))" "k \<le> length data"
    and b2: "sess_inv (Running, b2)" "free_transport (trans b2)" "chans b2 = chans_remove (chans b) j" "length (heap b2) = length (heap b)"
    using write_race [OF ia assms(2,3) ib assms(5-12) k_def] by metis
  have small: "small (chans b)" using core_small [of b] ib by (simp add: sess_inv_def)
  have "getChan (chans b2) j = None" "\<And>j'. j' < j \<Longrightarrow> getChan (chans b2) j' \<noteq> None"
    using assms(13) by (auto simp: b2(3) getChan_remove [OF small])
  then obtain b3 where b3: "Open_start b2 = (None, length (heap b2), b3)" "getChan (chans b3) j = Some (length (heap b2))"
    "heap b3 = heap b2 @ [(new_chan channelOutbound)\<lparr>localId := j, maxIncomingPayload := channelMaxPacket\<rparr>]"
    "free_transport (trans b3)"
    using Open_start_reuses [of b2 j] b2(1,2) by (auto simp: sess_inv_def)
  have "length (take k data) = k" using s(2) by simp
  then obtain b4 where b4: "loop_step (Running, arrive b3 (sent a2 a3)) = (Running, b4)"
    "buffer_content (pending (heap b4 ! length (heap b2))) = take k data"
    using data_arrives [OF b3(4,2), of "take k data"] b3(3) s assms(15) by (auto simp del: wire.simps loop_step.simps)
  have "0 < k" using assms(12,14-16) by (simp add: k_def write_chunk_def min32_eq unat_gt_0)
  then have "take k data \<noteq> []" using assms(14) by simp
  moreover have "q < length (heap b)" using core_table [OF _ assms(6)] ib by (simp add: sess_inv_def)
  ultimately show ?thesis using r b3(1) b4 b2(4) by fastforce
qed

theorem write_across_close_enters_next_channel_witness:
  "\<exists>a2 space data' n a3 q b3 b4. s_send_data a2 0 [1, 2, 3] 0 space = (WContinue data' n, a3) \<and> q \<noteq> 0
    \<and> loop_step (Running, arrive b3 (sent a2 a3)) = (Running, b4) \<and> buffer_content (pending (heap b4 ! q)) \<noteq> []"
proof -
  note l = linked_reachable free_linked linked_channel(1)
  have w: "win (remoteWin (heap linked_session ! 0)) \<noteq> 0" "maxRemotePayload (heap linked_session ! 0) \<noteq> 0"
    "\<And>j. j < 0 \<Longrightarrow> getChan (chans linked_session) j \<noteq> None"
    by (simp_all add: linked_channel)
  have "0 < length [1, 2, 3 :: byte]" "length [1, 2, 3 :: byte] \<le> unat channelMaxPacket" by simp_all
  from write_across_close_enters_next_channel [OF l l linked_channel(2,2,3,3,4) w(1,3) this w(2)] show ?thesis by blast
qed

text \<open>
  C13: A channel that its acceptor closes at once can end the opener's session.  \<open>handleOpen\<close> puts the channel into the
  inbox before it sends the confirmation: a goroutine that accepts and closes the channel in between sends \<open>Close\<close> first; the
  opener answers it for id 0, not knowing the peer's id yet, drops its channel, and ends its session on the
  confirmation, which is then for no channel.
\<close>

theorem close_before_confirm_ends_opener:
  assumes "session_reachable (Running, a)" "free_transport (trans a)" "length (heap a) + 2 < 2 ^ 32"
    and "session_reachable (Running, b)" "free_transport (trans b)" "qbuf (inbox b) = []"
  shows "\<exists>p a1 lid q b1 b2 b3 b4 a2 a3. Open_start a = (None, p, a1)
    \<and> sent a a1 = wire (OpenMessage lid channelWindowSize channelMaxPacket)
    \<and> open_queued b lid channelWindowSize channelMaxPacket = Some (q, b1) \<and> Accept b1 True = (Some (Inr q), b2)
    \<and> s_Close b2 q = (None, b3) \<and> confirm_open b3 q = (Handled None, b4)
    \<and> loop_step (Running, arrive a1 (sent b2 b3)) = (Running, a2) \<and> sent a1 a2 = wire (CloseMessage 0)
    \<and> loop_step (Running, arrive a2 (sent b3 b4)) = (Ended, a3)
    \<and> serr a3 = Some (Errorf (''qmux: invalid channel '' @ u32_string lid))"
proof -
  have ia: "sess_inv (Running, a)" and ib: "sess_inv (Running, b)" using session_reachable_inv assms(1,4) by blast+
  then have ca: "core_inv a" "length (heap a) + 1 < 2 ^ 32" and cb: "core_inv b" "length (heap b) + 1 < 2 ^ 32"
    by (simp_all add: sess_inv_def)
  obtain p a1 lid where a1: "Open_start a = (None, p, a1)" "core_inv a1" "getChan (chans a1) lid = Some p"
    "heap a1 ! p = (new_chan channelOutbound)\<lparr>localId := lid, maxIncomingPayload := channelMaxPacket\<rparr>"
    "sent a a1 = wire (OpenMessage lid channelWindowSize channelMaxPacket)" "free_transport (trans a1)"
    using Open_start_sends [OF ca assms(2)] by blast
  have "length (heap a1) = Suc (length (heap a))"
    using a1(1) by (auto simp: Open_start_def newChannel_def Let_def split: prod.splits)
  then have ia1: "sess_inv (Running, a1)"
    using ia user_keeps_loop [OF Open_start_keeps [OF ca a1(1)]] a1(2) assms(3) by (simp add: sess_inv_def)
  have mp: "minPacketLength \<le> channelMaxPacket" "channelMaxPacket \<le> maxPacketLength" by simp_all
  obtain q b1 b2 rid where b: "open_queued b lid channelWindowSize channelMaxPacket = Some (q, b1)"
    "Accept b1 True = (Some (Inr q), b2)" "trans b2 = trans b" "q < length (heap b2)"
    "heap b2 ! q = (new_chan channelInbound)\<lparr>localId := rid, remoteId := lid, maxRemotePayload := channelMaxPacket,
       remoteWin := snd (window_add new_window channelWindowSize), maxIncomingPayload := channelMaxPacket\<rparr>"
    using open_queued_accepts [OF cb assms(6) mp] by blast
  define b3 where "b3 = (set_chan b2 q ((heap b2 ! q)\<lparr>sentClose := True\<rparr>))\<lparr>trans :=
     (trans b2)\<lparr>tout := tout (trans b2) @ wire (CloseMessage lid)\<rparr>\<rparr>"
  have cl: "s_Close b2 q = (None, b3)"
    using s_Close_eq [of b2 q] b(3,5) assms(5) by (simp add: b3_def new_chan_def del: wire.simps)
  have s3: "sent b2 b3 = wire (CloseMessage lid)" "free_transport (trans b3)" "remoteId (heap b3 ! q) = lid"
    using b assms(5) by (simp_all add: b3_def sent_def del: wire.simps)
  obtain b4 c w where b4: "confirm_open b3 q = (Handled None, b4)" "sent b3 b4 = wire (OpenConfirmMessage lid c w
      (maxIncomingPayload (heap b3 ! q)))"
    using confirm_open_sends [OF s3(2), of q] s3(3) by metis
  obtain a2 where a2: "loop_step (Running, arrive a1 (wire (CloseMessage lid))) = (Running, a2)" "sess_inv (Running, a2)"
    "free_transport (trans a2)" "chans a2 = chans_remove (chans a1) lid" "sent a1 a2 = wire (CloseMessage 0)"
    using close_answered [OF ia1 a1(3,6)] a1(4) by (auto simp: new_chan_def simp del: wire.simps loop_step.simps)
  let ?m = "OpenConfirmMessage lid c w (maxIncomingPayload (heap b3 ! q))"
  have "wf_msg ?m" "msg_Channel ?m = (lid, True)" by simp_all
  moreover have "getChan (chans a2) lid = None" using a2(4) core_small [OF a1(2)] by (simp add: getChan_remove)
  ultimately obtain a3 where "loop_step (Running, arrive a2 (sent b3 b4)) = (Ended, a3)"
    "serr a3 = Some (Errorf (''qmux: invalid channel '' @ u32_string lid))"
    unfolding b4(2) by (rule stray_packet_ends [OF a2(2,3)])
  moreover have "loop_step (Running, arrive a1 (sent b2 b3)) = (Running, a2)" unfolding s3(1) by (rule a2(1))
  ultimately show ?thesis using a1(1,5) b(1,2) cl b4(1) a2(5) by blast
qed

theorem close_before_confirm_ends_opener_witness:
  "\<exists>a1 a2 b3 b4 a3. snd (snd (Open_start fresh_session)) = a1 \<and> sent a1 a2 = wire (CloseMessage 0)
    \<and> loop_step (Running, arrive a2 (sent b3 b4)) = (Ended, a3)"
proof -
  have "free_transport (trans fresh_session)" "length (heap fresh_session) + 2 < 2 ^ 32" "qbuf (inbox fresh_session) = []"
    by (simp_all add: fresh_session_def make_chan_def)
  from close_before_confirm_ends_opener [OF fresh_reachable this(1,2) fresh_reachable this(1,3)]
  show ?thesis by (metis snd_conv)
qed

end
