(* ===== verification/StreamLink.thy ===== *)
theory StreamLink
  imports ChannelPair
begin

text \<open>
  One direction of a channel seen from outside: the writing end \<open>x\<close>, the reading end \<open>y\<close>, the stream packets on
  their way \<open>ms\<close>, the window updates on the way back \<open>cs\<close>, and what has been written and read so far.  \<open>link\<close> is
  the invariant of ChannelPair between two calls; the lemmas say what each whole operation of an end, and each
  arrival of a packet, makes of it.  SessionNet uses them for every channel of two sessions.
\<close>

section \<open>The relation\<close>

definition wires :: "message list \<Rightarrow> transport" where
  "wires ms = \<lparr>tin = \<lparr>chunks = [], final = EOF\<rparr>, tout = concat (map wire ms), tbudget = None, tclosed = False\<rparr>"

definition idle_pair :: "channel \<Rightarrow> channel \<Rightarrow> message list \<Rightarrow> message list \<Rightarrow> bytes \<Rightarrow> bytes \<Rightarrow> pair" where
  "idle_pair x y ms cs w g = \<lparr>sch = x, rch = y, sout = wires ms, rout = wires cs, todo = [], held = None,
     owed = 0, unsent = None, written = w, got = g, failed = None\<rparr>"

definition link :: "channel \<Rightarrow> channel \<Rightarrow> message list \<Rightarrow> message list \<Rightarrow> bytes \<Rightarrow> bytes \<Rightarrow> bool" where
  "link x y ms cs w g \<longleftrightarrow> (\<exists>ds es. ms = ds @ es \<and> pair_inv (idle_pair x y ms cs w g) ds es cs)"

lemma free_wires [simp]: "free_transport (wires ms)"
  by (simp add: wires_def free_transport_def)

lemma wires_simps [simp]: "tout (wires ms) = concat (map wire ms)" "(wires ms)\<lparr>tout := concat (map wire ns)\<rparr> = wires ns"
  by (simp_all add: wires_def)

lemma idle_pair_simps [simp]:
  "sch (idle_pair x y ms cs w g) = x" "rch (idle_pair x y ms cs w g) = y"
  "sout (idle_pair x y ms cs w g) = wires ms" "rout (idle_pair x y ms cs w g) = wires cs"
  "todo (idle_pair x y ms cs w g) = []" "held (idle_pair x y ms cs w g) = None"
  "owed (idle_pair x y ms cs w g) = 0" "unsent (idle_pair x y ms cs w g) = None"
  "written (idle_pair x y ms cs w g) = w" "got (idle_pair x y ms cs w g) = g"
  "failed (idle_pair x y ms cs w g) = None"
  by (simp_all add: idle_pair_def)

lemma idle_inv:
  "pair_inv (idle_pair x y ms cs w g) ds es cs \<longleftrightarrow>
     concat (map wire ms) = concat (map wire (ds @ es))
     \<and> list_all (is_data (maxIncomingPayload y)) ds
     \<and> list_all (\<lambda>m. is_WindowAdjustMessage m \<and> 0 < adjustment m) cs
     \<and> (if sentEOF x
        then (if bclosed (pending y) then ds = [] \<and> es = [] else \<exists>cid. es = [EOFMessage cid])
        else es = [] \<and> \<not> bclosed (pending y))
     \<and> w = g @ buffer_content (pending y) @ concat (map payload ds)
     \<and> unat (myWindow y) + length (buffer_content (pending y)) = full_window
     \<and> unat (win (remoteWin x)) + length (concat (map payload ds))
         + length (buffer_content (pending y)) + sum_list (map adjustment cs) = full_window
     \<and> \<not> wclosed (remoteWin x) \<and> \<not> sentClose x \<and> \<not> sentClose y
     \<and> maxRemotePayload x = maxIncomingPayload y \<and> maxIncomingPayload y \<noteq> 0"
  by (simp add: pair_inv_def bytes_held_def update_unsent_def)

text \<open>Only the fields that concern the direction count.\<close>

lemma link_cong:
  assumes "link x y ms cs w g"
    and "sentEOF x' = sentEOF x" "win (remoteWin x') = win (remoteWin x)"
    "wclosed (remoteWin x') = wclosed (remoteWin x)" "sentClose x' = sentClose x"
    "maxRemotePayload x' = maxRemotePayload x"
    and "buffer_content (pending y') = buffer_content (pending y)" "bclosed (pending y') = bclosed (pending y)"
    "myWindow y' = myWindow y" "sentClose y' = sentClose y"
    "maxIncomingPayload y' = maxIncomingPayload y"
  shows "link x' y' ms cs w g"
  using assms(1) unfolding link_def idle_inv assms(2-) .

lemma link_new:
  assumes "unat (win (remoteWin x)) = full_window" "\<not> wclosed (remoteWin x)" "\<not> sentClose x" "\<not> sentEOF x"
    and "unat (myWindow y) = full_window" "pending y = newBuffer" "\<not> sentClose y"
    and "maxRemotePayload x = maxIncomingPayload y" "maxIncomingPayload y \<noteq> 0"
  shows "link x y [] [] [] []"
  using assms by (simp add: link_def idle_inv)

section \<open>What each operation makes of it\<close>

lemma link_write:
  assumes l: "link x y ms cs w g" and eof: "\<not> sentEOF x" and d: "data \<noteq> []" "length data < 2 ^ 32"
    and r: "reserve (remoteWin x) (min32 (maxRemotePayload x) (length data)) = (Some (k, None), v)"
  shows "0 < unat k \<and> unat k \<le> length data
    \<and> link (x\<lparr>remoteWin := v\<rparr>) y (ms @ [DataMessage cid k (take (unat k) data)]) cs (w @ take (unat k) data) g"
proof -
  obtain ds es where ms: "ms = ds @ es" and inv: "pair_inv (idle_pair x y ms cs w g) ds es cs"
    using l by (auto simp: link_def)
  have x: "maxRemotePayload x \<noteq> 0" "es = []" "maxRemotePayload x = maxIncomingPayload y"
    using inv eof by (simp_all add: idle_inv)
  note c = reserve_chunk [OF r x(1) _ d(2)]
  have k: "0 < unat k" "unat k \<le> length data" "unat k \<le> unat (maxIncomingPayload y)"
    "unat k \<le> unat (win (remoteWin x))" "unat (win v) = unat (win (remoteWin x)) - unat k" "\<not> wclosed v"
    using c d(1) x(3) by auto
  have "pair_inv (idle_pair (x\<lparr>remoteWin := v\<rparr>) y (ms @ [DataMessage cid k (take (unat k) data)]) cs
      (w @ take (unat k) data) g) (ds @ [DataMessage cid k (take (unat k) data)]) [] cs"
    using inv k eof ms x(2) d(1)
    by (simp add: idle_inv word_le_nat_alt del: wire.simps)
  then show ?thesis
    using k ms x(2) unfolding link_def by auto
qed

lemma link_eof:
  assumes "link x y ms cs w g" "\<not> sentEOF x"
  shows "link (x\<lparr>sentEOF := True\<rparr>) y (ms @ [EOFMessage cid]) cs w g"
proof -
  obtain ds es where ms: "ms = ds @ es" and inv: "pair_inv (idle_pair x y ms cs w g) ds es cs"
    using assms(1) by (auto simp: link_def)
  then have "es = []" using assms(2) by (simp add: idle_inv)
  then have "pair_inv (idle_pair (x\<lparr>sentEOF := True\<rparr>) y (ms @ [EOFMessage cid]) cs w g) ds [EOFMessage cid] cs"
    using inv ms assms(2)
    by (simp add: idle_inv del: wire.simps)
  then show ?thesis using ms \<open>es = []\<close> unfolding link_def by auto
qed

lemma wires_next: "wf_msg m \<Longrightarrow> next_packet (wires (m # ms)) = Some (m, wires ms)"
  using next_packet_wire [of "wires (m # ms)" m ms] by simp

lemma link_stream_wf: "link x y ms cs w g \<Longrightarrow> list_all wf_msg ms \<and> list_all wf_msg cs"
proof -
  assume "link x y ms cs w g"
  then obtain ds es where ms: "ms = ds @ es" and inv: "pair_inv (idle_pair x y ms cs w g) ds es cs"
    by (auto simp: link_def)
  have "wf_msg m" if "is_data mx m" for m mx using that by (cases m) auto
  moreover have "wf_msg m" if "is_WindowAdjustMessage m" for m using that by (cases m) auto
  moreover have "es = [] \<or> (\<exists>cid. es = [EOFMessage cid])" using inv by (auto simp: idle_inv split: if_splits)
  moreover have "list_all (is_data (maxIncomingPayload y)) ds"
    "list_all (\<lambda>m. is_WindowAdjustMessage m \<and> 0 < adjustment m) cs"
    using inv by (simp_all add: idle_inv)
  ultimately show ?thesis using ms by (auto simp: list_all_iff)
qed

text \<open>The bytes of a sequence of packets determine it.\<close>

lemma wires_inj:
  "list_all wf_msg ms \<Longrightarrow> list_all wf_msg ns \<Longrightarrow> concat (map wire ms) = concat (map wire ns) \<Longrightarrow> ms = ns"
proof (induction ms arbitrary: ns)
  case Nil
  show ?case
  proof (cases ns)
    case (Cons n ns')
    with Nil.prems(3) have "wire n = []" by (simp del: wire.simps)
    then show ?thesis using wire_not_Nil by blast
  qed simp
next
  case (Cons m ms)
  have "ns \<noteq> []"
  proof
    assume "ns = []"
    with Cons.prems(3) have "wire m = []" by (simp del: wire.simps)
    then show False using wire_not_Nil by blast
  qed
  then obtain n ns' where ns: "ns = n # ns'" using list.exhaust by blast
  have "next_packet (wires (m # ms)) = Some (m, wires ms)" "next_packet (wires (n # ns')) = Some (n, wires ns')"
    using Cons.prems(1,2) ns by (simp_all add: wires_next)
  moreover have "wires (m # ms) = wires (n # ns')"
    using Cons.prems(3) ns unfolding wires_def by simp
  ultimately have e: "m = n" "wires ms = wires ns'" by simp_all
  from e(2) have "concat (map wire ms) = concat (map wire ns')" by (metis wires_simps(1))
  then have "ms = ns'" using Cons.IH [of ns'] Cons.prems(1,2) ns by simp
  with e(1) ns show ?case by simp
qed

text \<open>The arrival of a stream packet and of a window update.\<close>

lemma link_receive:
  assumes l: "link x y (m # ms) cs w g" and h: "handle_stream y m = Some (e, y')"
  shows "e = None \<and> link x y' ms cs w g"
proof -
  obtain ds es where ms: "m # ms = ds @ es" and inv: "pair_inv (idle_pair x y (m # ms) cs w g) ds es cs"
    using l by (auto simp: link_def)
  have "next_packet (wires (m # ms)) = Some (m, wires ms)"
    using wires_next link_stream_wf [OF l] by simp
  then have np: "next_packet (sout (idle_pair x y (m # ms) cs w g)) = Some (m, wires ms)" by simp
  have hs: "handle_stream (rch (idle_pair x y (m # ms) cs w g)) m = Some (e, y')" using h by simp
  from inv_receive [OF inv np hs] obtain ds' es' where e: "e = None"
    and i: "pair_inv ((idle_pair x y (m # ms) cs w g)\<lparr>sout := wires ms, rch := y', failed := e\<rparr>) ds' es' cs"
    by blast
  have "(idle_pair x y (m # ms) cs w g)\<lparr>sout := wires ms, rch := y', failed := e\<rparr> = idle_pair x y' ms cs w g"
    using e by (simp add: idle_pair_def)
  with i have i': "pair_inv (idle_pair x y' ms cs w g) ds' es' cs" by (simp only:)
  have wf: "list_all wf_msg ms" using link_stream_wf [OF l] by simp
  have "list_all wf_msg (ds' @ es')"
  proof -
    have "link x y' (ds' @ es') cs w g"
      using i' unfolding link_def idle_inv by (intro exI [of _ ds'] exI [of _ es']) simp
    then show ?thesis by (rule link_stream_wf [THEN conjunct1])
  qed
  moreover have "concat (map wire ms) = concat (map wire (ds' @ es'))" using i' by (simp add: idle_inv)
  ultimately have "ms = ds' @ es'" using wires_inj wf by blast
  with i' e show ?thesis by (auto simp: link_def)
qed

lemma link_refill:
  assumes l: "link x y ms (c # cs) w g" and h: "handle_stream x c = Some (e, x')"
  shows "e = None \<and> link x' y ms cs w g"
proof -
  obtain ds es where ms: "ms = ds @ es" and inv: "pair_inv (idle_pair x y ms (c # cs) w g) ds es (c # cs)"
    using l by (auto simp: link_def)
  have "next_packet (wires (c # cs)) = Some (c, wires cs)"
    using wires_next link_stream_wf [OF l] by simp
  then have np: "next_packet (rout (idle_pair x y ms (c # cs) w g)) = Some (c, wires cs)" by simp
  have hs: "handle_stream (sch (idle_pair x y ms (c # cs) w g)) c = Some (e, x')" using h by simp
  from inv_refill [OF inv np hs] have e: "e = None"
    and i: "pair_inv ((idle_pair x y ms (c # cs) w g)\<lparr>rout := wires cs, sch := x', failed := e\<rparr>) ds es cs"
    by auto
  have "(idle_pair x y ms (c # cs) w g)\<lparr>rout := wires cs, sch := x', failed := e\<rparr> = idle_pair x' y ms cs w g"
    using e by (simp add: idle_pair_def)
  with i have "pair_inv (idle_pair x' y ms cs w g) ds es cs" by (simp only:)
  with e ms show ?thesis by (auto simp: link_def)
qed

text \<open>A \<open>Read\<close> that returns data, and one that does not.\<close>

lemma link_read:
  assumes l: "link x y ms cs w g" and r: "buffer_read (pending y) n = (Some (bs, err), b)" and bs: "bs \<noteq> []"
  shows "link x (y\<lparr>pending := b, myWindow := myWindow y + of_nat (length bs)\<rparr>) ms
    (cs @ [WindowAdjustMessage cid (of_nat (length bs))]) w (g @ bs)"
proof -
  obtain ds es where ms: "ms = ds @ es" and inv: "pair_inv (idle_pair x y ms cs w g) ds es cs"
    using l by (auto simp: link_def)
  have c: "buffer_content (pending y) = bs @ buffer_content b" using rbuf.get_data [OF r] .
  have cl: "bclosed b = bclosed (pending y)"
    using rbuf.get_shut [of "pending y" n] r by simp
  have le: "unat (myWindow y) + length bs \<le> full_window" "0 < length bs"
    using inv c bs by (simp_all add: idle_inv)
  then have u: "unat (of_nat (length bs) :: u32) = length bs" by (simp add: unat_of_nat full_window_def)
  have "unat (myWindow y) + unat (of_nat (length bs) :: u32) < 2 ^ 32"
    using le u by (simp add: full_window_def)
  then have m: "unat (myWindow y + of_nat (length bs)) = unat (myWindow y) + length bs"
    using unat_add_exact u by simp
  have "pair_inv (idle_pair x (y\<lparr>pending := b, myWindow := myWindow y + of_nat (length bs)\<rparr>) ms
      (cs @ [WindowAdjustMessage cid (of_nat (length bs))]) w (g @ bs)) ds es
      (cs @ [WindowAdjustMessage cid (of_nat (length bs))])"
    using inv c cl u m le by (simp add: idle_inv del: wire.simps)
  with ms show ?thesis by (auto simp: link_def)
qed

lemma link_read_nothing:
  assumes "link x y ms cs w g" "buffer_read (pending y) n = (r, b)" "r = None \<or> (\<exists>e. r = Some ([], e))"
  shows "link x (y\<lparr>pending := b\<rparr>) ms cs w g"
proof -
  have "bclosed b = bclosed (pending y)" "buffer_content b = drop n (buffer_content (pending y))"
    using rbuf.get_shut [of "pending y" n] rbuf.get_items [of "pending y" n] assms(2) by simp_all
  moreover have "n = 0 \<or> buffer_content (pending y) = []"
    using rbuf.get_result [of "pending y" n] assms(2,3) by (auto split: if_splits)
  ultimately have "bclosed b = bclosed (pending y)" "buffer_content b = buffer_content (pending y)" by auto
  then show ?thesis by (intro link_cong [OF assms(1)]) simp_all
qed

text \<open>What it says.\<close>

lemma link_stream:
  assumes "link x y ms cs w g"
  shows "w = g @ buffer_content (pending y) @ concat (map payload ms)"
    "unat (win (remoteWin x)) + length (concat (map payload ms))
       + length (buffer_content (pending y)) + sum_list (map adjustment cs) = full_window"
    "unat (myWindow y) + length (buffer_content (pending y)) = full_window"
    "\<not> wclosed (remoteWin x)" "maxRemotePayload x = maxIncomingPayload y"
    "bclosed (pending y) \<Longrightarrow> sentEOF x \<and> ms = []"
proof -
  obtain ds es where ms: "ms = ds @ es" and inv: "pair_inv (idle_pair x y ms cs w g) ds es cs"
    using assms by (auto simp: link_def)
  have "concat (map payload es) = []" using inv by (auto simp: idle_inv split: if_splits)
  then have p: "concat (map payload ms) = concat (map payload ds)" using ms by simp
  show "w = g @ buffer_content (pending y) @ concat (map payload ms)"
    "unat (win (remoteWin x)) + length (concat (map payload ms))
       + length (buffer_content (pending y)) + sum_list (map adjustment cs) = full_window"
    "unat (myWindow y) + length (buffer_content (pending y)) = full_window"
    "\<not> wclosed (remoteWin x)" "maxRemotePayload x = maxIncomingPayload y"
    using inv unfolding p idle_inv by simp_all
  show "bclosed (pending y) \<Longrightarrow> sentEOF x \<and> ms = []"
    using inv ms by (auto simp: idle_inv split: if_splits)
qed

lemma link_quiet_eof:
  assumes "link x y [] cs w g"
  shows "sentEOF x \<longleftrightarrow> bclosed (pending y)"
  using assms by (auto simp: link_def idle_inv split: if_splits)

end
