(* ===== verification/Handshake.thy ===== *)
theory Handshake
  imports Main
begin

text \<open>
  The protocol by which two sessions open channels, with everything but the protocol left out: each side has
  numbered ports, which it opened itself or which answer an opening of the other side, and messages on their way.
  The lemmas show its agreement invariant: the two ends of an open channel name each other.  SessionNet shows
  that two sessions of session/session.go do nothing but this when they open channels.
\<close>

section \<open>State and steps\<close>

text \<open>
  A port: whether it answers an opening, and the port of the other side, once known.  \<open>parked\<close> is a port that
  has been created for an opening and not been announced yet.  \<open>hout\<close> are the messages from this
  side that have not been handled, oldest first.
\<close>

type_synonym port = "bool \<times> nat option"

datatype handshake = HOpen nat | HConfirm nat nat

record hside =
  ports :: "port list"
  parked :: "nat option"
  hout :: "handshake list"

inductive hs_act :: "hside \<Rightarrow> hside \<Rightarrow> hside \<Rightarrow> hside \<Rightarrow> bool" where
  hs_open: "hs_act x y (x\<lparr>ports := ports x @ [(False, None)], hout := hout x @ [HOpen (length (ports x))]\<rparr>) y"
| hs_park: "parked x = None \<Longrightarrow> hout y = HOpen c # r \<Longrightarrow>
     hs_act x y (x\<lparr>ports := ports x @ [(True, Some c)], parked := Some (length (ports x))\<rparr>) (y\<lparr>hout := r\<rparr>)"
| hs_answer: "parked x = None \<Longrightarrow> hout y = HOpen c # r \<Longrightarrow>
     hs_act x y (x\<lparr>ports := ports x @ [(True, Some c)], hout := hout x @ [HConfirm c (length (ports x))]\<rparr>)
       (y\<lparr>hout := r\<rparr>)"
| hs_unpark: "parked x = Some q \<Longrightarrow> snd (ports x ! q) = Some c \<Longrightarrow>
     hs_act x y (x\<lparr>parked := None, hout := hout x @ [HConfirm c q]\<rparr>) y"
| hs_confirmed: "parked x = None \<Longrightarrow> hout y = HConfirm c s # r \<Longrightarrow>
     hs_act x y (x\<lparr>ports := (ports x)[c := (False, Some s)]\<rparr>) (y\<lparr>hout := r\<rparr>)"

inductive hs_reachable :: "hside \<Rightarrow> hside \<Rightarrow> bool" where
  hs_start: "hs_reachable \<lparr>ports = [], parked = None, hout = []\<rparr> \<lparr>ports = [], parked = None, hout = []\<rparr>"
| hs_left: "hs_reachable x y \<Longrightarrow> hs_act x y x' y' \<Longrightarrow> hs_reachable x' y'"
| hs_right: "hs_reachable x y \<Longrightarrow> hs_act y x y' x' \<Longrightarrow> hs_reachable x' y'"

section \<open>The invariant\<close>

text \<open>
  Every port that waits for its answer has exactly one token: its opening on the way, the port the other
  side holds back for it, or the confirmation on the way back.
\<close>

definition confirms :: "nat \<Rightarrow> handshake list \<Rightarrow> handshake list" where
  "confirms c ms = filter (\<lambda>m. \<exists>s. m = HConfirm c s) ms"

definition tokens :: "hside \<Rightarrow> hside \<Rightarrow> nat \<Rightarrow> nat" where
  "tokens x y p = count_list (hout x) (HOpen p)
     + (if \<exists>q. parked y = Some q \<and> snd (ports y ! q) = Some p then 1 else 0)
     + length (confirms p (hout y))"

definition half_inv :: "hside \<Rightarrow> hside \<Rightarrow> bool" where
  "half_inv x y \<longleftrightarrow>
     (\<forall>p < length (ports x). fst (ports x ! p) \<longrightarrow> snd (ports x ! p) \<noteq> None)
   \<and> (\<forall>p < length (ports x). tokens x y p = (if snd (ports x ! p) = None then 1 else 0))
   \<and> (\<forall>p. HOpen p \<in> set (hout x) \<longrightarrow> p < length (ports x))
   \<and> (\<forall>c s. HConfirm c s \<in> set (hout x) \<longrightarrow> s < length (ports x) \<and> ports x ! s = (True, Some c))
   \<and> (\<forall>q. parked x = Some q \<longrightarrow> q < length (ports x) \<and> fst (ports x ! q))
   \<and> (\<forall>p < length (ports x). \<forall>q. snd (ports x ! p) = Some q \<longrightarrow>
        q < length (ports y) \<and> fst (ports y ! q) \<noteq> fst (ports x ! p)
        \<and> (snd (ports y ! q) = Some p
           \<or> snd (ports y ! q) = None \<and> (parked x = Some p \<or> HConfirm q p \<in> set (hout x))))"

lemma half_invI:
  assumes "\<And>p. p < length (ports x) \<Longrightarrow> fst (ports x ! p) \<Longrightarrow> snd (ports x ! p) \<noteq> None"
    and "\<And>p. p < length (ports x) \<Longrightarrow> tokens x y p = (if snd (ports x ! p) = None then 1 else 0)"
    and "\<And>p. HOpen p \<in> set (hout x) \<Longrightarrow> p < length (ports x)"
    and "\<And>c s. HConfirm c s \<in> set (hout x) \<Longrightarrow> s < length (ports x) \<and> ports x ! s = (True, Some c)"
    and "\<And>q. parked x = Some q \<Longrightarrow> q < length (ports x) \<and> fst (ports x ! q)"
    and "\<And>p q. p < length (ports x) \<Longrightarrow> snd (ports x ! p) = Some q \<Longrightarrow>
        q < length (ports y) \<and> fst (ports y ! q) \<noteq> fst (ports x ! p)
        \<and> (snd (ports y ! q) = Some p
           \<or> snd (ports y ! q) = None \<and> (parked x = Some p \<or> HConfirm q p \<in> set (hout x)))"
  shows "half_inv x y"
  unfolding half_inv_def using assms by blast

lemma half_invD:
  assumes "half_inv x y"
  shows "p < length (ports x) \<Longrightarrow> fst (ports x ! p) \<Longrightarrow> snd (ports x ! p) \<noteq> None"
    and "p < length (ports x) \<Longrightarrow> tokens x y p = (if snd (ports x ! p) = None then 1 else 0)"
    and "HOpen p \<in> set (hout x) \<Longrightarrow> p < length (ports x)"
    and "HConfirm c s \<in> set (hout x) \<Longrightarrow> s < length (ports x) \<and> ports x ! s = (True, Some c)"
    and "parked x = Some q \<Longrightarrow> q < length (ports x) \<and> fst (ports x ! q)"
    and "p < length (ports x) \<Longrightarrow> snd (ports x ! p) = Some q \<Longrightarrow>
        q < length (ports y) \<and> fst (ports y ! q) \<noteq> fst (ports x ! p)
        \<and> (snd (ports y ! q) = Some p
           \<or> snd (ports y ! q) = None \<and> (parked x = Some p \<or> HConfirm q p \<in> set (hout x)))"
  using assms unfolding half_inv_def by blast+

definition hs_inv :: "hside \<Rightarrow> hside \<Rightarrow> bool" where
  "hs_inv x y \<longleftrightarrow> half_inv x y \<and> half_inv y x"

lemma confirms_simps [simp]:
  "confirms c [] = []" "confirms c (HOpen p # ms) = confirms c ms"
  "confirms c (HConfirm d s # ms) = (if d = c then HConfirm d s # confirms c ms else confirms c ms)"
  "confirms c (ms @ ms') = confirms c ms @ confirms c ms'"
  by (simp_all add: confirms_def)

lemma confirms_Nil: "HConfirm c s \<in> set ms \<Longrightarrow> confirms c ms \<noteq> []"
  by (auto simp: confirms_def filter_empty_conv)

lemma count_HOpen: "HOpen p \<in> set ms \<longleftrightarrow> count_list ms (HOpen p) \<noteq> 0"
  by (simp add: count_list_0_iff)


text \<open>What the tokens say of the three ways a waiting port can be found.\<close>

lemma open_token:
  assumes "half_inv x y" "HOpen p \<in> set (hout x)"
  shows "p < length (ports x) \<and> ports x ! p = (False, None) \<and> count_list (hout x) (HOpen p) = 1
    \<and> \<not> (\<exists>q. parked y = Some q \<and> snd (ports y ! q) = Some p) \<and> confirms p (hout y) = []"
proof -
  have p: "p < length (ports x)" and c: "count_list (hout x) (HOpen p) \<noteq> 0"
    using assms by (auto simp: half_inv_def count_HOpen)
  then have "tokens x y p = (if snd (ports x ! p) = None then 1 else 0)"
    "fst (ports x ! p) \<longrightarrow> snd (ports x ! p) \<noteq> None"
    using assms(1) by (auto simp: half_inv_def)
  then show ?thesis
    using p c
    by (cases "ports x ! p"; cases "confirms p (hout y)") (auto simp: tokens_def split: if_splits)
qed

lemma parked_token:
  assumes "half_inv x y" "parked y = Some q" "snd (ports y ! q) = Some p" "p < length (ports x)"
  shows "ports x ! p = (False, None) \<and> HOpen p \<notin> set (hout x) \<and> confirms p (hout y) = []"
proof -
  have "tokens x y p = (if snd (ports x ! p) = None then 1 else 0)"
    "fst (ports x ! p) \<longrightarrow> snd (ports x ! p) \<noteq> None"
    using assms(1,4) by (auto simp: half_inv_def)
  then show ?thesis
    using assms(2,3) by (cases "ports x ! p") (auto simp: tokens_def count_HOpen split: if_splits)
qed

lemma confirm_token:
  assumes "half_inv x y" "HConfirm p s \<in> set (hout y)" "p < length (ports x)"
  shows "ports x ! p = (False, None) \<and> HOpen p \<notin> set (hout x) \<and> confirms p (hout y) = [HConfirm p s]
    \<and> \<not> (\<exists>q. parked y = Some q \<and> snd (ports y ! q) = Some p)"
proof -
  have t: "tokens x y p = (if snd (ports x ! p) = None then 1 else 0)"
    "fst (ports x ! p) \<longrightarrow> snd (ports x ! p) \<noteq> None"
    using assms(1,3) by (auto simp: half_inv_def)
  have m: "HConfirm p s \<in> set (confirms p (hout y))" using assms(2) by (simp add: confirms_def)
  then have "length (confirms p (hout y)) = 1" "snd (ports x ! p) = None"
    using t(1) by (cases "confirms p (hout y)"; auto simp: tokens_def split: if_splits)+
  moreover from this m have "confirms p (hout y) = [HConfirm p s]"
    by (auto simp: length_Suc_conv)
  ultimately show ?thesis
    using t by (cases "ports x ! p") (auto simp: tokens_def count_HOpen split: if_splits)
qed

section \<open>Every step keeps it\<close>

text \<open>A port number not in use yet is mentioned nowhere.\<close>

lemma fresh_port:
  assumes "half_inv x y" "half_inv y x"
  shows "HOpen (length (ports x)) \<notin> set (hout x)"
    "parked y = Some q \<Longrightarrow> snd (ports y ! q) \<noteq> Some (length (ports x))"
    "HConfirm (length (ports x)) s \<notin> set (hout y)" "confirms (length (ports x)) (hout y) = []"
proof -
  show "HOpen (length (ports x)) \<notin> set (hout x)" using half_invD(3) [OF assms(1)] by blast
  show "snd (ports y ! q) \<noteq> Some (length (ports x))" if "parked y = Some q"
    using half_invD(5,6) [OF assms(2)] that by blast
  have n: "HConfirm (length (ports x)) s \<notin> set (hout y)" for s
    using half_invD(4,6) [OF assms(2)] by (metis less_irrefl snd_conv)
  then show "HConfirm (length (ports x)) s \<notin> set (hout y)" .
  from n show "confirms (length (ports x)) (hout y) = []"
    by (auto simp: confirms_def filter_empty_conv)
qed

lemma hs_open_inv:
  assumes "half_inv x y" "half_inv y x"
    and x': "x' = x\<lparr>ports := ports x @ [(False, None)], hout := hout x @ [HOpen (length (ports x))]\<rparr>"
  shows "half_inv x' y \<and> half_inv y x'"
proof
  note new = fresh_port [OF assms(1,2)]
  note x = half_invD [OF assms(1)] and y = half_invD [OF assms(2)]
  have nth: "ports x' ! p = (if p < length (ports x) then ports x ! p else (False, None))"
    if "p < length (ports x')" for p
    using that by (auto simp: x' nth_append less_Suc_eq)
  have len: "p < length (ports x') \<longleftrightarrow> p < length (ports x) \<or> p = length (ports x)" for p
    by (auto simp: x')
  show "half_inv x' y"
  proof (rule half_invI)
    fix p assume p: "p < length (ports x')"
    show "snd (ports x' ! p) \<noteq> None" if "fst (ports x' ! p)"
      using that x(1) [of p] nth [OF p] by (auto split: if_splits)
    show "tokens x' y p = (if snd (ports x' ! p) = None then 1 else 0)"
      using x(2) [of p] new p unfolding nth [OF p] len
      by (auto simp: tokens_def x' count_HOpen split: if_splits)
    show "q < length (ports y) \<and> fst (ports y ! q) \<noteq> fst (ports x' ! p)
        \<and> (snd (ports y ! q) = Some p
           \<or> snd (ports y ! q) = None \<and> (parked x' = Some p \<or> HConfirm q p \<in> set (hout x')))"
      if "snd (ports x' ! p) = Some q" for q
      using x(6) [of p q] that nth [OF p] by (auto simp: x' split: if_splits)
  next
    show "p < length (ports x')" if "HOpen p \<in> set (hout x')" for p
      using that x(3) by (auto simp: x' less_Suc_eq)
    show "s < length (ports x') \<and> ports x' ! s = (True, Some c)" if "HConfirm c s \<in> set (hout x')" for c s
      using that x(4) [of c s] by (auto simp: x' nth_append)
    show "q < length (ports x') \<and> fst (ports x' ! q)" if "parked x' = Some q" for q
      using that x(5) by (auto simp: x' nth_append)
  qed
  show "half_inv y x'"
  proof (rule half_invI)
    fix p assume p: "p < length (ports y)"
    show "tokens y x' p = (if snd (ports y ! p) = None then 1 else 0)"
    proof -
      have "(\<exists>q. parked x' = Some q \<and> snd (ports x' ! q) = Some p)
          \<longleftrightarrow> (\<exists>q. parked x = Some q \<and> snd (ports x ! q) = Some p)"
        using x(5) by (auto simp: x' nth_append)
      then show ?thesis using y(2) [OF p] by (simp add: tokens_def x')
    qed
    show "q < length (ports x') \<and> fst (ports x' ! q) \<noteq> fst (ports y ! p)
        \<and> (snd (ports x' ! q) = Some p
           \<or> snd (ports x' ! q) = None \<and> (parked y = Some p \<or> HConfirm q p \<in> set (hout y)))"
      if "snd (ports y ! p) = Some q" for q
      using y(6) [OF p that] by (auto simp: x' nth_append)
  qed (use y(1,3,4,5) in blast)+
qed

lemma hs_park_inv:
  assumes "half_inv x y" "half_inv y x" "parked x = None" "hout y = HOpen c # r"
    and x': "x' = x\<lparr>ports := ports x @ [(True, Some c)], parked := Some (length (ports x))\<rparr>"
    and y': "y' = y\<lparr>hout := r\<rparr>"
  shows "half_inv x' y' \<and> half_inv y' x'"
proof
  note new = fresh_port [OF assms(1,2)]
  note x = half_invD [OF assms(1)] and y = half_invD [OF assms(2)]
  have tok: "c < length (ports y)" "ports y ! c = (False, None)" "HOpen c \<notin> set r" "confirms c (hout x) = []"
    using open_token [OF assms(2), of c] assms(4) by (auto simp: count_HOpen)
  have nth: "ports x' ! p = (if p < length (ports x) then ports x ! p else (True, Some c))"
    if "p < length (ports x')" for p
    using that by (auto simp: x' nth_append less_Suc_eq)
  have len: "p < length (ports x') \<longleftrightarrow> p < length (ports x) \<or> p = length (ports x)" for p
    by (auto simp: x')
  show "half_inv x' y'"
  proof (rule half_invI)
    fix p assume p: "p < length (ports x')"
    show "snd (ports x' ! p) \<noteq> None" if "fst (ports x' ! p)"
      using that x(1) [of p] nth [OF p] by (auto split: if_splits)
    show "tokens x' y' p = (if snd (ports x' ! p) = None then 1 else 0)"
      using x(2) [of p] new p assms(4) unfolding nth [OF p] len
      by (auto simp: tokens_def x' y' count_HOpen split: if_splits)
    show "q < length (ports y') \<and> fst (ports y' ! q) \<noteq> fst (ports x' ! p)
        \<and> (snd (ports y' ! q) = Some p
           \<or> snd (ports y' ! q) = None \<and> (parked x' = Some p \<or> HConfirm q p \<in> set (hout x')))"
      if "snd (ports x' ! p) = Some q" for q
      using x(6) [of p q] that nth [OF p] tok p assms(3) by (auto simp: x' y' split: if_splits)
  next
    show "p < length (ports x')" if "HOpen p \<in> set (hout x')" for p
      using that x(3) by (auto simp: x' less_Suc_eq)
    show "s < length (ports x') \<and> ports x' ! s = (True, Some d)" if "HConfirm d s \<in> set (hout x')" for d s
      using that x(4) [of d s] by (auto simp: x' nth_append)
    show "q < length (ports x') \<and> fst (ports x' ! q)" if "parked x' = Some q" for q
      using that by (auto simp: x')
  qed
  show "half_inv y' x'"
  proof (rule half_invI)
    fix p assume p: "p < length (ports y')"
    show "tokens y' x' p = (if snd (ports y' ! p) = None then 1 else 0)"
      using y(2) [of p] p tok assms(3,4) by (auto simp: tokens_def x' y' count_HOpen split: if_splits)
    show "q < length (ports x') \<and> fst (ports x' ! q) \<noteq> fst (ports y' ! p)
        \<and> (snd (ports x' ! q) = Some p
           \<or> snd (ports x' ! q) = None \<and> (parked y' = Some p \<or> HConfirm q p \<in> set (hout y')))"
      if "snd (ports y' ! p) = Some q" for q
      using y(6) [of p q] p that assms(4) by (auto simp: x' y' nth_append)
  qed (use y(1,3,4,5) assms(4) in \<open>auto simp: y'\<close>)
qed

lemma hs_unpark_inv:
  assumes "half_inv x y" "half_inv y x" "parked x = Some q" "snd (ports x ! q) = Some c"
    and x': "x' = x\<lparr>parked := None, hout := hout x @ [HConfirm c q]\<rparr>"
  shows "half_inv x' y \<and> half_inv y x'"
proof
  note x = half_invD [OF assms(1)] and y = half_invD [OF assms(2)]
  have q: "q < length (ports x)" "ports x ! q = (True, Some c)"
    using x(5) [OF assms(3)] assms(4) by (auto simp: prod_eq_iff)
  then have c: "c < length (ports y)" using x(6) [of q c] assms(4) by blast
  show "half_inv x' y"
  proof (rule half_invI)
    fix p assume p: "p < length (ports x')"
    show "tokens x' y p = (if snd (ports x' ! p) = None then 1 else 0)"
      using x(2) [of p] p by (auto simp: tokens_def x')
    show "d < length (ports y) \<and> fst (ports y ! d) \<noteq> fst (ports x' ! p)
        \<and> (snd (ports y ! d) = Some p
           \<or> snd (ports y ! d) = None \<and> (parked x' = Some p \<or> HConfirm d p \<in> set (hout x')))"
      if "snd (ports x' ! p) = Some d" for d
      using x(6) [of p d] that p assms(3,4) by (auto simp: x')
  qed (use x(1,3,4,5) q in \<open>auto simp: x'\<close>)
  show "half_inv y x'"
  proof (rule half_invI)
    fix p assume p: "p < length (ports y)"
    show "tokens y x' p = (if snd (ports y ! p) = None then 1 else 0)"
      using y(2) [OF p] assms(3,4) by (auto simp: tokens_def x' split: if_splits)
    show "d < length (ports x') \<and> fst (ports x' ! d) \<noteq> fst (ports y ! p)
        \<and> (snd (ports x' ! d) = Some p
           \<or> snd (ports x' ! d) = None \<and> (parked y = Some p \<or> HConfirm d p \<in> set (hout y)))"
      if "snd (ports y ! p) = Some d" for d
      using y(6) [OF p that] by (auto simp: x')
  qed (use y(1,3,4,5) in blast)+
qed

lemma hs_answer_inv:
  assumes "half_inv x y" "half_inv y x" "parked x = None" "hout y = HOpen c # r"
    and "x' = x\<lparr>ports := ports x @ [(True, Some c)], hout := hout x @ [HConfirm c (length (ports x))]\<rparr>"
    and "y' = y\<lparr>hout := r\<rparr>"
  shows "half_inv x' y' \<and> half_inv y' x'"
proof -
  let ?x = "x\<lparr>ports := ports x @ [(True, Some c)], parked := Some (length (ports x))\<rparr>"
  have p: "half_inv ?x y' \<and> half_inv y' ?x"
    using hs_park_inv [OF assms(1-4) refl] assms(6) by simp
  have "x' = ?x\<lparr>parked := None, hout := hout ?x @ [HConfirm c (length (ports x))]\<rparr>"
    using assms(3,5) by simp
  from hs_unpark_inv [OF _ _ _ _ this] p show ?thesis by simp
qed

lemma hs_confirmed_inv:
  assumes "half_inv x y" "half_inv y x" "hout y = HConfirm c s # r"
    and x': "x' = x\<lparr>ports := (ports x)[c := (False, Some s)]\<rparr>" and y': "y' = y\<lparr>hout := r\<rparr>"
  shows "half_inv x' y' \<and> half_inv y' x'"
proof
  note x = half_invD [OF assms(1)] and y = half_invD [OF assms(2)]
  have s: "s < length (ports y)" "ports y ! s = (True, Some c)" using y(4) [of c s] assms(3) by auto
  then have c: "c < length (ports x)" using y(6) [of s c] by simp
  have tok: "ports x ! c = (False, None)" "HOpen c \<notin> set (hout x)" "confirms c r = []"
    "\<And>q. parked y = Some q \<Longrightarrow> snd (ports y ! q) \<noteq> Some c"
    using confirm_token [OF assms(1) _ c, of s] assms(3) by auto
  then have only: "HConfirm c q \<notin> set r" for q using confirms_Nil by blast
  have len: "length (ports x') = length (ports x)" by (simp add: x')
  have nth: "ports x' ! p = (if p = c then (False, Some s) else ports x ! p)" if "p < length (ports x)" for p
    using that by (simp add: x')
  have out: "hout x' = hout x" "parked x' = parked x" "parked y' = parked y" "ports y' = ports y" "hout y' = r"
    by (simp_all add: x' y')
  show "half_inv x' y'"
  proof (rule half_invI)
    fix p assume "p < length (ports x')"
    then have p: "p < length (ports x)" by (simp add: len)
    show "snd (ports x' ! p) \<noteq> None" if "fst (ports x' ! p)"
      using that x(1) [OF p] nth [OF p] by (auto split: if_splits)
    show "tokens x' y' p = (if snd (ports x' ! p) = None then 1 else 0)"
      using x(2) [OF p] tok assms(3) unfolding nth [OF p]
      by (auto simp: tokens_def out count_HOpen split: if_splits)
    show "q < length (ports y') \<and> fst (ports y' ! q) \<noteq> fst (ports x' ! p)
        \<and> (snd (ports y' ! q) = Some p
           \<or> snd (ports y' ! q) = None \<and> (parked x' = Some p \<or> HConfirm q p \<in> set (hout x')))"
      if "snd (ports x' ! p) = Some q" for q
      using x(6) [OF p, of q] that nth [OF p] s by (auto simp: out split: if_splits)
  next
    show "p < length (ports x')" if "HOpen p \<in> set (hout x')" for p
      using that x(3) by (auto simp: out len)
    show "q < length (ports x') \<and> ports x' ! q = (True, Some d)" if "HConfirm d q \<in> set (hout x')" for d q
      using that x(4) [of d q] nth [of q] tok(1) by (auto simp: out len)
    show "q < length (ports x') \<and> fst (ports x' ! q)" if "parked x' = Some q" for q
      using that x(5) [of q] nth [of q] tok(1) by (auto simp: out len)
  qed
  show "half_inv y' x'"
  proof (rule half_invI)
    fix p assume "p < length (ports y')"
    then have p: "p < length (ports y)" by (simp add: out)
    have park: "parked x = Some q \<Longrightarrow> snd (ports x' ! q) = snd (ports x ! q)" for q
      using x(5) [of q] nth [of q] tok(1) by auto
    show "tokens y' x' p = (if snd (ports y' ! p) = None then 1 else 0)"
    proof -
      have "(\<exists>q. parked x = Some q \<and> snd (ports x' ! q) = Some p)
          \<longleftrightarrow> (\<exists>q. parked x = Some q \<and> snd (ports x ! q) = Some p)" using park by auto
      then show ?thesis using y(2) [OF p] assms(3) by (simp add: tokens_def out)
    qed
    show "q < length (ports x') \<and> fst (ports x' ! q) \<noteq> fst (ports y' ! p)
        \<and> (snd (ports x' ! q) = Some p
           \<or> snd (ports x' ! q) = None \<and> (parked y' = Some p \<or> HConfirm q p \<in> set (hout y')))"
      if "snd (ports y' ! p) = Some q" for q
    proof -
      have q: "snd (ports y ! p) = Some q" using that by (simp add: out)
      note o = y(6) [OF p q]
      show ?thesis
      proof (cases "q = c")
        case True
        then have "parked y = Some p \<or> HConfirm c p \<in> set (hout y)" using o tok(1) by simp
        then have "p = s" using tok(4) [of p] q True only [of p] assms(3) by auto
        then show ?thesis using True o nth [OF c] s by (simp add: out len)
      next
        case False
        then show ?thesis using o nth [of q] assms(3) by (auto simp: out len)
      qed
    qed
  qed (use y(1,3,4,5) assms(3) in \<open>auto simp: out\<close>)
qed

lemma hs_act_inv:
  assumes "hs_act x y x' y'" "hs_inv x y"
  shows "hs_inv x' y'"
proof -
  have h: "half_inv x y" "half_inv y x" using assms(2) by (simp_all add: hs_inv_def)
  from assms(1) have "half_inv x' y' \<and> half_inv y' x'"
  proof (cases rule: hs_act.cases)
    case hs_open
    then show ?thesis using hs_open_inv [OF h] by simp
  next
    case (hs_park c r)
    then show ?thesis using hs_park_inv [OF h] by simp
  next
    case (hs_answer c r)
    then show ?thesis using hs_answer_inv [OF h] by simp
  next
    case (hs_unpark q c)
    then show ?thesis using hs_unpark_inv [OF h] by simp
  next
    case (hs_confirmed c s r)
    then show ?thesis using hs_confirmed_inv [OF h] by simp
  qed
  then show ?thesis by (simp add: hs_inv_def)
qed

lemma hs_inv_sym: "hs_inv x y \<longleftrightarrow> hs_inv y x"
  by (auto simp: hs_inv_def)

lemma hs_reachable_inv: "hs_reachable x y \<Longrightarrow> hs_inv x y"
proof (induction rule: hs_reachable.induct)
  case hs_start
  show ?case by (simp add: hs_inv_def half_inv_def)
next
  case (hs_left x y x' y')
  then show ?case using hs_act_inv by blast
next
  case (hs_right x y y' x')
  then show ?case using hs_act_inv hs_inv_sym by blast
qed

lemma hs_reachable_sym: "hs_reachable x y \<longleftrightarrow> hs_reachable y x"
proof -
  have "hs_reachable x y \<Longrightarrow> hs_reachable y x" for x y
    by (induction rule: hs_reachable.induct) (auto intro: hs_reachable.intros)
  then show ?thesis by blast
qed

text \<open>Two ports never wait on, or talk to, the same port.\<close>

lemma peer_unique:
  assumes "hs_inv x y" "p < length (ports x)" "p' < length (ports x)"
    and "snd (ports x ! p) = Some q" "snd (ports x ! p') = Some q"
  shows "p = p'"
proof -
  have h: "half_inv x y" "half_inv y x" using assms(1) by (simp_all add: hs_inv_def)
  note o = half_invD(6) [OF h(1) assms(2,4)] half_invD(6) [OF h(1) assms(3,5)]
  show ?thesis
  proof (cases "snd (ports y ! q)")
    case None
    then have t: "parked x = Some p \<or> HConfirm q p \<in> set (hout x)"
      "parked x = Some p' \<or> HConfirm q p' \<in> set (hout x)" "q < length (ports y)"
      using o by auto
    then show ?thesis
      using confirm_token [OF h(2) _ t(3), of p] confirm_token [OF h(2) _ t(3), of p'] assms(4,5)
      by auto
  qed (use o in auto)
qed

end
