(* ===== verification/SessionNet.thy ===== *)
theory SessionNet
  imports SessionPair StreamLink Handshake
begin

text \<open>
  Two sessions that both run this code, connected by a network that delivers whole packets in order, and any number
  of goroutines on both sides that open, accept, write to, read from and half-close any number of channels: every
  interleaving of their steps.  The user code keeps to the interface: it uses a channel it has got from
  \<open>Open\<close> or \<open>Accept\<close>, writes at most \<open>2 ^ 32 - 1\<close> bytes at once and not during or after \<open>CloseWrite\<close>.  It does not
  call \<open>Close\<close>: that is added in CloseNet.
\<close>

section \<open>State and steps\<close>

text \<open>
  One side: the state of the loop, the session, the channels user code has been given, and what has been
  written to and read from each channel so far; the last three are not part of the program.
\<close>

record side =
  sloop :: loop_state
  ses :: session
  owned :: "nat set"
  sent_on :: "nat \<Rightarrow> bytes"
  read_on :: "nat \<Rightarrow> bytes"

definition side_start :: side where
  "side_start = \<lparr>sloop = Running,
     ses = the (session_New (Some \<lparr>tin = \<lparr>chunks = [], final = EOF\<rparr>, tout = [], tbudget = None, tclosed = False\<rparr>)),
     owned = {}, sent_on = (\<lambda>_. []), read_on = (\<lambda>_. [])\<rparr>"

abbreviation arriving :: "'a side_scheme \<Rightarrow> bytes" where
  "arriving x \<equiv> stream_content (tin (trans (ses x)))"

abbreviation outgoing :: "'a side_scheme \<Rightarrow> bytes" where
  "outgoing x \<equiv> tout (trans (ses x))"

abbreviation channels :: "'a side_scheme \<Rightarrow> channel list" where
  "channels x \<equiv> heap (ses x)"

text \<open>A pointer that \<open>Open\<close> or \<open>Accept\<close> has returned.\<close>

definition obtained :: "(go_error + nat) option \<Rightarrow> nat set" where
  "obtained r = (case r of Some (Inr p) \<Rightarrow> {p} | _ \<Rightarrow> {})"

text \<open>
  The steps of one side.  The receive loop reads only when there is something to read; \<open>write_some\<close> is an
  iteration of the loop of \<open>Write\<close>.
\<close>

inductive side_step :: "side \<Rightarrow> side \<Rightarrow> bool" where
  packet: "(sloop x = Running \<longrightarrow> arriving x \<noteq> []) \<Longrightarrow> loop_step (sloop x, ses x) = (st, s) \<Longrightarrow>
     length (heap s) + 1 < 2 ^ 32 \<Longrightarrow> side_step x (x\<lparr>sloop := st, ses := s\<rparr>)"
| open_start: "Open_start (ses x) = (e, p, s) \<Longrightarrow> length (heap s) + 1 < 2 ^ 32 \<Longrightarrow>
     side_step x (x\<lparr>ses := s\<rparr>)"
| open_finish: "p < length (channels x) \<Longrightarrow> Open_finish (ses x) p ctx = (r, s) \<Longrightarrow>
     side_step x (x\<lparr>ses := s, owned := owned x \<union> obtained r\<rparr>)"
| accept: "Accept (ses x) b = (r, s) \<Longrightarrow> side_step x (x\<lparr>ses := s, owned := owned x \<union> obtained r\<rparr>)"
| read: "p \<in> owned x \<Longrightarrow> s_Read (ses x) p n = (r, s) \<Longrightarrow>
     side_step x (x\<lparr>ses := s, read_on := (read_on x)(p := read_on x p
       @ (case r of Some (bs, _) \<Rightarrow> bs | None \<Rightarrow> []))\<rparr>)"
| write_some: "p \<in> owned x \<Longrightarrow> \<not> sentEOF (channels x ! p) \<Longrightarrow> data \<noteq> [] \<Longrightarrow> length data < 2 ^ 32 \<Longrightarrow>
     s_write_iter (ses x) p data n = (r, s) \<Longrightarrow>
     side_step x (x\<lparr>ses := s, sent_on := (sent_on x)(p := sent_on x p
       @ (case r of WContinue data' n' \<Rightarrow> take (n' - n) data | _ \<Rightarrow> []))\<rparr>)"
| close_write: "p \<in> owned x \<Longrightarrow> \<not> sentEOF (channels x ! p) \<Longrightarrow> s_CloseWrite (ses x) p = (e, s) \<Longrightarrow>
     side_step x (x\<lparr>ses := s\<rparr>)"

text \<open>The network takes the first packet of what a side has written and appends it to what the other has to read.\<close>

definition take_off :: "'a side_scheme \<Rightarrow> transport \<Rightarrow> 'a side_scheme" where
  "take_off x t = x\<lparr>ses := (ses x)\<lparr>trans := t\<rparr>\<rparr>"

definition hand_over :: "'a side_scheme \<Rightarrow> message \<Rightarrow> 'a side_scheme" where
  "hand_over y m = y\<lparr>ses := (ses y)\<lparr>trans := (trans (ses y))\<lparr>tin := \<lparr>chunks = [arriving y @ wire m], final = EOF\<rparr>\<rparr>\<rparr>\<rparr>"

inductive net_step :: "side \<times> side \<Rightarrow> side \<times> side \<Rightarrow> bool" where
  left: "side_step x x' \<Longrightarrow> net_step (x, y) (x', y)"
| right: "side_step y y' \<Longrightarrow> net_step (x, y) (x, y')"
| carry_right: "next_packet (trans (ses x)) = Some (m, t) \<Longrightarrow>
     net_step (x, y) (take_off x t, hand_over y m)"
| carry_left: "next_packet (trans (ses y)) = Some (m, t) \<Longrightarrow>
     net_step (x, y) (hand_over x m, take_off y t)"

inductive net_reachable :: "side \<times> side \<Rightarrow> bool" where
  start: "net_reachable (side_start, side_start)"
| step: "net_reachable c \<Longrightarrow> net_step c c' \<Longrightarrow> net_reachable c'"

section \<open>The invariant\<close>

text \<open>A channel whose peer is known.\<close>

definition joined :: "channel \<Rightarrow> bool" where
  "joined c \<longleftrightarrow> maxRemotePayload c \<noteq> 0"

definition peer_of :: "channel \<Rightarrow> nat option" where
  "peer_of c = (if joined c then Some (unat (remoteId c)) else None)"

definition port_of :: "channel \<Rightarrow> port" where
  "port_of c = (direction c = channelInbound, peer_of c)"

definition channel_ok :: "channel \<Rightarrow> nat \<Rightarrow> bool" where
  "channel_ok c p \<longleftrightarrow> localId c = of_nat p \<and> \<not> sentClose c \<and> \<not> qclosed (msgs c) \<and> qcap (msgs c) = chanSize
     \<and> maxIncomingPayload c = channelMaxPacket \<and> (joined c \<longrightarrow> maxRemotePayload c = channelMaxPacket)
     \<and> (direction c = channelInbound \<longrightarrow> joined c)
     \<and> (\<not> joined c \<longrightarrow> remoteWin c = new_window \<and> \<not> sentEOF c \<and> qbuf (msgs c) = [])"

definition session_ok :: "session \<Rightarrow> bool" where
  "session_ok s \<longleftrightarrow> free_transport (trans s) \<and> length (chunks (tin (trans s))) \<le> 1
     \<and> length (heap s) + 1 < 2 ^ 32 \<and> chans s = map Some [0..<length (heap s)]
     \<and> (\<forall>p < length (heap s). channel_ok (heap s ! p) p)
     \<and> \<not> qclosed (inbox s) \<and> qcap (inbox s) = chanSize
     \<and> (\<forall>p \<in> set (qbuf (inbox s)). p < length (heap s) \<and> joined (heap s ! p))
     \<and> qbuf (closeCh s) = [] \<and> \<not> qclosed (closeCh s) \<and> serr s = None"

definition parked_on :: "loop_state \<Rightarrow> nat option" where
  "parked_on st = (case st of OnInbox q \<Rightarrow> Some q | _ \<Rightarrow> None)"

definition side_ok :: "side \<Rightarrow> bool" where
  "side_ok x \<longleftrightarrow> session_ok (ses x) \<and> (sloop x = Running \<or> (\<exists>q. sloop x = OnInbox q))
     \<and> (\<forall>p \<in> owned x. p < length (channels x) \<and> joined (channels x ! p))"

text \<open>What a message on its way says of the channels at its two ends; \<open>X\<close> sends it to \<open>Y\<close>.\<close>

fun msg_ok :: "channel list \<Rightarrow> channel list \<Rightarrow> message \<Rightarrow> bool" where
  "msg_ok X Y (OpenMessage sid ws mp) \<longleftrightarrow> ws = channelWindowSize \<and> mp = channelMaxPacket"
| "msg_ok X Y (OpenConfirmMessage cid sid ws mp) \<longleftrightarrow> ws = channelWindowSize \<and> mp = channelMaxPacket"
| "msg_ok X Y (DataMessage cid n d) \<longleftrightarrow> unat n = length d \<and> (\<exists>p < length X. joined (X ! p) \<and> remoteId (X ! p) = cid)"
| "msg_ok X Y (EOFMessage cid) \<longleftrightarrow> (\<exists>p < length X. joined (X ! p) \<and> remoteId (X ! p) = cid)"
| "msg_ok X Y (WindowAdjustMessage cid n) \<longleftrightarrow> unat cid < length Y \<and> joined (Y ! unat cid)"
| "msg_ok X Y _ \<longleftrightarrow> False"

text \<open>The messages of the handshake, and those of one direction of one channel.\<close>

fun handshake_of :: "message \<Rightarrow> handshake option" where
  "handshake_of (OpenMessage sid ws mp) = Some (HOpen (unat sid))"
| "handshake_of (OpenConfirmMessage cid sid ws mp) = Some (HConfirm (unat cid) (unat sid))"
| "handshake_of _ = None"

definition handshakes :: "message list \<Rightarrow> handshake list" where
  "handshakes ms = List.map_filter handshake_of ms"

fun is_stream_for :: "u32 \<Rightarrow> message \<Rightarrow> bool" where
  "is_stream_for i (DataMessage cid n d) = (cid = i)"
| "is_stream_for i (EOFMessage cid) = (cid = i)"
| "is_stream_for i _ = False"

fun is_update_for :: "u32 \<Rightarrow> message \<Rightarrow> bool" where
  "is_update_for i (WindowAdjustMessage cid n) = (cid = i)"
| "is_update_for i _ = False"

abbreviation stream_for :: "u32 \<Rightarrow> message list \<Rightarrow> message list" where
  "stream_for i \<equiv> filter (is_stream_for i)"

abbreviation updates_for :: "u32 \<Rightarrow> message list \<Rightarrow> message list" where
  "updates_for i \<equiv> filter (is_update_for i)"

definition hs_of :: "side \<Rightarrow> message list \<Rightarrow> hside" where
  "hs_of x ms = \<lparr>ports = map port_of (channels x), parked = parked_on (sloop x), hout = handshakes ms\<rparr>"

text \<open>
  All streams in one direction, from the channels of \<open>x\<close> to those of \<open>y\<close>; a channel of \<open>y\<close> that no channel of \<open>x\<close> talks
  to has received nothing.
\<close>

definition fresh_end :: "channel \<Rightarrow> bytes \<Rightarrow> bool" where
  "fresh_end c g \<longleftrightarrow> pending c = newBuffer \<and> myWindow c = channelWindowSize \<and> g = []"

definition streams :: "side \<Rightarrow> side \<Rightarrow> message list \<Rightarrow> message list \<Rightarrow> bool" where
  "streams x y ms ns \<longleftrightarrow>
     (\<forall>p < length (channels x). \<forall>q. peer_of (channels x ! p) = Some q \<longrightarrow>
        link (channels x ! p) (channels y ! q) (stream_for (of_nat q) ms) (updates_for (of_nat p) ns)
          (sent_on x p) (read_on y q))
   \<and> (\<forall>p. p < length (channels x) \<longrightarrow> peer_of (channels x ! p) = None \<longrightarrow> sent_on x p = [])
   \<and> (\<forall>p \<ge> length (channels x). sent_on x p = [])
   \<and> (\<forall>q < length (channels y). (\<forall>p < length (channels x). peer_of (channels x ! p) \<noteq> Some q) \<longrightarrow>
        fresh_end (channels y ! q) (read_on y q))
   \<and> (\<forall>q \<ge> length (channels y). read_on y q = [])"

text \<open>The messages \<open>ms\<close> are on their way from \<open>x\<close> to \<open>y\<close>.\<close>

definition flight :: "'a side_scheme \<Rightarrow> 'a side_scheme \<Rightarrow> message list \<Rightarrow> bool" where
  "flight x y ms \<longleftrightarrow> (\<exists>as bs. ms = as @ bs \<and> arriving y = concat (map wire as) \<and> outgoing x = concat (map wire bs))"

definition net_inv :: "side \<Rightarrow> side \<Rightarrow> message list \<Rightarrow> message list \<Rightarrow> bool" where
  "net_inv x y ms ns \<longleftrightarrow> side_ok x \<and> side_ok y \<and> flight x y ms \<and> flight y x ns
     \<and> list_all (msg_ok (channels x) (channels y)) ms \<and> list_all (msg_ok (channels y) (channels x)) ns
     \<and> hs_reachable (hs_of x ms) (hs_of y ns) \<and> streams x y ms ns \<and> streams y x ns ms"

lemma net_inv_sym: "net_inv x y ms ns \<longleftrightarrow> net_inv y x ns ms"
  by (auto simp: net_inv_def hs_reachable_sym)

end
