(* ===== verification/SessionNetInv.thy ===== *)
theory SessionNetInv
  imports SessionNet
begin

text \<open>
  The invariant of SessionNet is kept by every step: one lemma for the steps that touch one channel, which covers
  reading, writing and the arrival of stream packets, and one for each step of the handshake, where the protocol of
  Handshake gives the agreement of the two ends.
\<close>

section \<open>Messages\<close>

lemma handshakes_simps [simp]:
  "handshakes [] = []"
  "handshakes (m # ms) = (case handshake_of m of None \<Rightarrow> handshakes ms | Some h \<Rightarrow> h # handshakes ms)"
  "handshakes (ms @ ns) = handshakes ms @ handshakes ns"
  by (simp_all add: handshakes_def List.map_filter_def split: option.split)

lemma msg_ok_wf: "msg_ok X Y m \<Longrightarrow> wf_msg m"
  by (cases m) auto

text \<open>Knowing more peers keeps a message acceptable.\<close>

lemma msg_ok_mono:
  assumes "msg_ok X Y m"
    and "\<And>p. p < length X \<Longrightarrow> joined (X ! p) \<Longrightarrow> p < length X' \<and> joined (X' ! p) \<and> remoteId (X' ! p) = remoteId (X ! p)"
    and "\<And>q. q < length Y \<Longrightarrow> joined (Y ! q) \<Longrightarrow> q < length Y' \<and> joined (Y' ! q)"
  shows "msg_ok X' Y' m"
proof -
  have "\<exists>p < length X'. joined (X' ! p) \<and> remoteId (X' ! p) = cid"
    if "\<exists>p < length X. joined (X ! p) \<and> remoteId (X ! p) = cid" for cid
    using assms(2) that by metis
  then show ?thesis using assms(1,3) by (cases m) simp_all
qed

lemma stream_for_ok:
  assumes "list_all (msg_ok X Y) ms" "\<And>p. p < length X \<Longrightarrow> peer_of (X ! p) \<noteq> Some q" "q < 2 ^ 32"
  shows "stream_for (of_nat q) ms = []"
proof -
  have "\<not> is_stream_for (of_nat q) m" if "m \<in> set ms" for m
  proof
    assume s: "is_stream_for (of_nat q) m"
    have "msg_ok X Y m" using assms(1) that by (simp add: list_all_iff)
    with s obtain p where "p < length X" "joined (X ! p)" "remoteId (X ! p) = of_nat q" by (cases m) auto
    with assms(2) [of p] assms(3) show False by (simp add: peer_of_def unat_of_nat)
  qed
  then show ?thesis by (simp add: filter_empty_conv)
qed

lemma updates_for_ok:
  assumes "list_all (msg_ok X Y) ms" "\<not> (q < length Y \<and> joined (Y ! q))" "q < 2 ^ 32"
  shows "updates_for (of_nat q) ms = []"
proof -
  have "\<not> is_update_for (of_nat q) m" if "m \<in> set ms" for m
  proof
    assume s: "is_update_for (of_nat q) m"
    have "msg_ok X Y m" using assms(1) that by (simp add: list_all_iff)
    with s assms(2,3) show False by (cases m) (auto simp: unat_of_nat)
  qed
  then show ?thesis by (simp add: filter_empty_conv)
qed

section \<open>The two sides agree\<close>

lemma of_nat_eq: "p < 2 ^ 32 \<Longrightarrow> q < 2 ^ 32 \<Longrightarrow> (of_nat p :: u32) = of_nat q \<longleftrightarrow> p = q"
  by (auto dest: arg_cong [of _ _ unat] simp: unat_of_nat)

lemma peer_of_bound: "peer_of c = Some q \<Longrightarrow> q < 2 ^ 32 \<and> joined c \<and> remoteId c = of_nat q"
  using u32_lt by (auto simp: peer_of_def split: if_splits)

lemma joined_peer: "joined c \<longleftrightarrow> (\<exists>q. peer_of c = Some q)"
  by (simp add: peer_of_def)

lemma hs_of_simps [simp]:
  "ports (hs_of x ms) = map port_of (channels x)" "parked (hs_of x ms) = parked_on (sloop x)"
  "hout (hs_of x ms) = handshakes ms"
  by (simp_all add: hs_of_def)

lemma port_of_simps [simp]: "fst (port_of c) = (direction c = channelInbound)" "snd (port_of c) = peer_of c"
  by (simp_all add: port_of_def)

lemma peers_unique:
  assumes "hs_inv (hs_of x ms) (hs_of y ns)" "p < length (channels x)" "p' < length (channels x)"
    and "peer_of (channels x ! p) = Some q" "peer_of (channels x ! p') = Some q"
  shows "p = p'"
  using peer_unique [OF assms(1), of p p' q] assms(2-) by simp

lemma peer_lt:
  assumes "hs_inv (hs_of x ms) (hs_of y ns)" "p < length (channels x)" "peer_of (channels x ! p) = Some q"
  shows "q < length (channels y)"
    and "peer_of (channels y ! q) = Some p \<or> peer_of (channels y ! q) = None"
  using assms half_invD(6) [of "hs_of x ms" "hs_of y ns" p q] by (auto simp: hs_inv_def)

lemma peer_back:
  assumes "hs_inv (hs_of x ms) (hs_of y ns)" "p < length (channels x)" "peer_of (channels x ! p) = Some q"
    and "joined (channels y ! q)"
  shows "peer_of (channels y ! q) = Some p"
  using peer_lt [OF assms(1-3)] assms(4) by (auto simp: joined_peer)

lemma session_ok_chan: "session_ok s \<Longrightarrow> p < length (heap s) \<Longrightarrow> channel_ok (heap s ! p) p"
  by (simp add: session_ok_def)

lemma session_ok_small: "session_ok s \<Longrightarrow> p < length (heap s) \<Longrightarrow> p < 2 ^ 32"
  by (simp add: session_ok_def)

lemma session_getChan:
  assumes "session_ok s"
  shows "getChan (chans s) i = (if unat i < length (heap s) then Some (unat i) else None)"
proof -
  have "small (chans s)" using assms by (simp add: session_ok_def small_def)
  then show ?thesis using assms by (simp add: getChan_nth session_ok_def)
qed

lemma session_newChannel:
  assumes "session_ok s"
  shows "newChannel s dir = (length (heap s), s\<lparr>heap := heap s @ [(new_chan dir)\<lparr>localId := of_nat (length (heap s))\<rparr>],
    chans := map Some [0..<Suc (length (heap s))]\<rparr>)"
proof -
  have c: "chans s = map Some [0..<length (heap s)]" using assms by (simp add: session_ok_def)
  have "first_nil (chans s) 0 = None" unfolding c by (auto simp: first_nil_None)
  then have "chans_add (chans s) (length (heap s)) = (of_nat (length (heap s)), chans s @ [Some (length (heap s))])"
    by (simp add: chans_add_def c)
  then show ?thesis by (simp add: newChannel_def c Let_def)
qed

lemma net_invD:
  assumes "net_inv x y ms ns"
  shows "side_ok x" "side_ok y" "session_ok (ses x)" "session_ok (ses y)" "flight x y ms" "flight y x ns"
    "list_all (msg_ok (channels x) (channels y)) ms" "list_all (msg_ok (channels y) (channels x)) ns"
    "hs_inv (hs_of x ms) (hs_of y ns)" "hs_inv (hs_of y ns) (hs_of x ms)"
    "streams x y ms ns" "streams y x ns ms" "hs_reachable (hs_of x ms) (hs_of y ns)"
  using assms hs_reachable_inv hs_inv_sym by (auto simp: net_inv_def side_ok_def)

lemma streamsD:
  assumes "streams x y ms ns"
  shows "p < length (channels x) \<Longrightarrow> peer_of (channels x ! p) = Some q \<Longrightarrow>
      link (channels x ! p) (channels y ! q) (stream_for (of_nat q) ms) (updates_for (of_nat p) ns)
        (sent_on x p) (read_on y q)"
    and "p < length (channels x) \<Longrightarrow> peer_of (channels x ! p) = None \<Longrightarrow> sent_on x p = []"
    and "length (channels x) \<le> p \<Longrightarrow> sent_on x p = []"
    and "q < length (channels y) \<Longrightarrow> (\<And>p. p < length (channels x) \<Longrightarrow> peer_of (channels x ! p) \<noteq> Some q) \<Longrightarrow>
      fresh_end (channels y ! q) (read_on y q)"
    and "length (channels y) \<le> q \<Longrightarrow> read_on y q = []"
  using assms unfolding streams_def by blast+

lemma streamsI:
  assumes "\<And>p q. p < length (channels x) \<Longrightarrow> peer_of (channels x ! p) = Some q \<Longrightarrow>
      link (channels x ! p) (channels y ! q) (stream_for (of_nat q) ms) (updates_for (of_nat p) ns)
        (sent_on x p) (read_on y q)"
    and "\<And>p. p < length (channels x) \<Longrightarrow> peer_of (channels x ! p) = None \<Longrightarrow> sent_on x p = []"
    and "\<And>p. length (channels x) \<le> p \<Longrightarrow> sent_on x p = []"
    and "\<And>q. q < length (channels y) \<Longrightarrow> (\<And>p. p < length (channels x) \<Longrightarrow> peer_of (channels x ! p) \<noteq> Some q) \<Longrightarrow>
      fresh_end (channels y ! q) (read_on y q)"
    and "\<And>q. length (channels y) \<le> q \<Longrightarrow> read_on y q = []"
  shows "streams x y ms ns"
  unfolding streams_def using assms by blast

lemma flight_send:
  assumes "flight x y ms" "outgoing x' = outgoing x @ concat (map wire new)"
  shows "flight x' y (ms @ new)"
proof -
  obtain as bs where "ms = as @ bs" "arriving y = concat (map wire as)" "outgoing x = concat (map wire bs)"
    using assms(1) by (auto simp: flight_def)
  then have "ms @ new = as @ (bs @ new) \<and> arriving y = concat (map wire as)
      \<and> outgoing x' = concat (map wire (bs @ new))"
    using assms(2) by simp
  then show ?thesis unfolding flight_def by blast
qed

lemma flight_receive: "flight x y ms \<Longrightarrow> arriving y' = arriving y \<Longrightarrow> outgoing x' = outgoing x \<Longrightarrow> flight x' y' ms"
  by (simp add: flight_def)

text \<open>Nothing but the channels, the loop, the connection and the history counts.\<close>

lemma net_inv_same:
  assumes "net_inv x y ms ns" "channels x' = channels x" "sloop x' = sloop x" "arriving x' = arriving x"
    "outgoing x' = outgoing x" "sent_on x' = sent_on x" "read_on x' = read_on x" "side_ok x'"
  shows "net_inv x' y ms ns"
  using assms(1,8) by (simp add: net_inv_def flight_def hs_of_def streams_def assms(2-7))

section \<open>A step of one channel\<close>

text \<open>Messages of one channel do not concern the others, nor the handshake.\<close>

definition of_channel :: "u32 \<Rightarrow> message \<Rightarrow> bool" where
  "of_channel i m \<longleftrightarrow> is_stream_for i m \<or> is_update_for i m"

lemma of_channel_simps [simp]:
  "of_channel i (DataMessage cid n d) = (cid = i)" "of_channel i (EOFMessage cid) = (cid = i)"
  "of_channel i (WindowAdjustMessage cid n) = (cid = i)" "\<not> of_channel i (OpenMessage sid ws mp)"
  "\<not> of_channel i (OpenConfirmMessage cid sid ws mp)" "\<not> of_channel i (OpenFailureMessage cid)"
  "\<not> of_channel i (CloseMessage cid)"
  by (simp_all add: of_channel_def)

lemma of_channel_other:
  assumes "list_all (of_channel i) ms" "j \<noteq> i"
  shows "stream_for j ms = []" "updates_for j ms = []"
proof -
  have "\<not> is_stream_for j m \<and> \<not> is_update_for j m" if "m \<in> set ms" for m
    using assms that by (cases m) (auto simp: list_all_iff)
  then show "stream_for j ms = []" "updates_for j ms = []" by (auto simp: filter_empty_conv)
qed

lemma of_channel_handshakes: "list_all (of_channel i) ms \<Longrightarrow> handshakes ms = []"
proof (induction ms)
  case (Cons m ms)
  then show ?case by (cases m) simp_all
qed simp

lemma chan_step:
  assumes inv: "net_inv x y ms (pre @ ns)" and p: "p < length (channels x)"
    and x': "channels x' = (channels x)[p := c']" "sloop x' = sloop x" "side_ok x'"
      "sent_on x' = (sent_on x)(p := w')" "read_on x' = (read_on x)(p := g')"
      "outgoing x' = outgoing x @ concat (map wire new)" "flight y x' ns"
    and c': "direction c' = direction (channels x ! p)" "peer_of c' = peer_of (channels x ! p)"
    and pre: "list_all (of_channel (of_nat p)) pre"
    and new: "\<And>m. m \<in> set new \<Longrightarrow> \<exists>q. peer_of (channels x ! p) = Some q \<and> of_channel (of_nat q) m
        \<and> wf_msg m \<and> (is_update_for (of_nat q) m \<longrightarrow> joined (channels y ! q))"
    and sends: "\<And>q. peer_of (channels x ! p) = Some q \<Longrightarrow>
      link (channels x ! p) (channels y ! q) (stream_for (of_nat q) ms) (updates_for (of_nat p) (pre @ ns))
        (sent_on x p) (read_on y q) \<Longrightarrow>
      link c' (channels y ! q) (stream_for (of_nat q) (ms @ new)) (updates_for (of_nat p) ns) w' (read_on y q)"
    and silent: "peer_of (channels x ! p) = None \<Longrightarrow> w' = sent_on x p"
    and receives: "\<And>q. q < length (channels y) \<Longrightarrow> peer_of (channels y ! q) = Some p \<Longrightarrow>
      link (channels y ! q) (channels x ! p) (stream_for (of_nat p) (pre @ ns)) (updates_for (of_nat q) ms)
        (sent_on y q) (read_on x p) \<Longrightarrow>
      link (channels y ! q) c' (stream_for (of_nat p) ns) (updates_for (of_nat q) (ms @ new)) (sent_on y q) g'"
    and fresh: "fresh_end (channels x ! p) (read_on x p) \<Longrightarrow>
      (\<And>q. q < length (channels y) \<Longrightarrow> peer_of (channels y ! q) \<noteq> Some p) \<Longrightarrow> fresh_end c' g'"
  shows "net_inv x' y (ms @ new) ns"
proof -
  note i = net_invD [OF inv]
  note sx = streamsD [OF i(11)] and sy = streamsD [OF i(12)]
  have small: "p < 2 ^ 32" "\<And>q. q < length (channels y) \<Longrightarrow> q < 2 ^ 32"
    using session_ok_small i(3,4) p by auto
  have nth: "r < length (channels x) \<Longrightarrow> channels x' ! r = (if r = p then c' else channels x ! r)" for r
    by (simp add: x'(1))
  have len: "length (channels x') = length (channels x)" by (simp add: x'(1))
  have peer: "r < length (channels x) \<Longrightarrow> peer_of (channels x' ! r) = peer_of (channels x ! r)" for r
    by (simp add: nth c'(2))
  have join: "joined (channels x' ! r) \<longleftrightarrow> joined (channels x ! r)"
    "joined (channels x ! r) \<Longrightarrow> remoteId (channels x' ! r) = remoteId (channels x ! r)"
    if "r < length (channels x)" for r
    using peer [OF that] peer_of_bound by (auto simp: joined_peer)
  have newlist: "list_all (of_channel (of_nat q)) new" if "peer_of (channels x ! p) = Some q" for q
    using new that by (auto simp: list_all_iff)
  have newnone: "new = []" if "peer_of (channels x ! p) = None"
    using new that by (cases new) auto
  have hnew: "handshakes new = []"
    using newlist newnone of_channel_handshakes by (cases "peer_of (channels x ! p)") auto
  have "map port_of (channels x') = map port_of (channels x)"
  proof (rule nth_equalityI)
    fix r assume "r < length (map port_of (channels x'))"
    then have "r < length (channels x)" by (simp add: len)
    then show "map port_of (channels x') ! r = map port_of (channels x) ! r"
      using c' by (simp add: len nth port_of_def)
  qed (simp add: len)
  then have hs: "hs_of x' (ms @ new) = hs_of x ms" "hs_of y ns = hs_of y (pre @ ns)"
    using hnew of_channel_handshakes [OF pre] by (simp_all add: hs_of_def x'(2))
  have okms: "msg_ok (channels x') (channels y) m" if "m \<in> set ms" for m
  proof (rule msg_ok_mono)
    show "msg_ok (channels x) (channels y) m" using i(7) that by (simp add: list_all_iff)
  qed (use len join in \<open>simp_all\<close>)
  have oknew: "msg_ok (channels x') (channels y) m" if mem: "m \<in> set new" for m
  proof -
    obtain q where q: "peer_of (channels x ! p) = Some q" "of_channel (of_nat q) m" "wf_msg m"
      "is_update_for (of_nat q) m \<longrightarrow> joined (channels y ! q)"
      using new [OF mem] by blast
    have "q < length (channels y)" using peer_lt [OF i(9) p q(1)] by blast
    moreover have "joined (channels x' ! p)" "remoteId (channels x' ! p) = of_nat q"
      using join [OF p] peer_of_bound [OF q(1)] by auto
    ultimately show ?thesis
      using q(2-4) p small(2) len by (cases m) (auto simp: unat_of_nat)
  qed
  have okns: "msg_ok (channels y) (channels x') m" if "m \<in> set ns" for m
  proof (rule msg_ok_mono)
    show "msg_ok (channels y) (channels x) m" using i(8) that by (simp add: list_all_iff)
  qed (use len join in \<open>simp_all\<close>)
  have prenone: "stream_for (of_nat r) pre = [] \<and> updates_for (of_nat r) pre = []"
    if "r \<noteq> p" "r < 2 ^ 32" for r
  proof -
    have "(of_nat r :: u32) \<noteq> of_nat p" using that small(1) of_nat_eq by blast
    then show ?thesis using of_channel_other [OF pre] by blast
  qed
  have "streams x' y (ms @ new) ns"
  proof (rule streamsI)
    fix r q assume r: "r < length (channels x')" and q: "peer_of (channels x' ! r) = Some q"
    then have r': "r < length (channels x)" "peer_of (channels x ! r) = Some q" by (simp_all add: len peer)
    show "link (channels x' ! r) (channels y ! q) (stream_for (of_nat q) (ms @ new)) (updates_for (of_nat r) ns)
        (sent_on x' r) (read_on y q)"
    proof (cases "r = p")
      case True
      then show ?thesis using sends sx(1) [OF r'] r' nth [OF r'(1)] by (simp add: x'(4))
    next
      case False
      have "stream_for (of_nat q) new = []"
      proof (cases "peer_of (channels x ! p)")
        case (Some q')
        then have "q' \<noteq> q" using peers_unique [OF i(9) p r'(1)] r'(2) False by blast
        then have "(of_nat q :: u32) \<noteq> of_nat q'"
          using peer_of_bound [OF Some] peer_of_bound [OF r'(2)] of_nat_eq by blast
        then show ?thesis using of_channel_other(1) [OF newlist [OF Some]] by blast
      qed (simp add: newnone)
      then show ?thesis
        using sx(1) [OF r'] nth [OF r'(1)] False prenone [OF False] session_ok_small [OF i(3) r'(1)]
        by (simp add: x'(4))
    qed
  next
    fix r assume "r < length (channels x')" "peer_of (channels x' ! r) = None"
    then show "sent_on x' r = []" using sx(2) silent by (auto simp: len peer x'(4))
  next
    fix r assume "length (channels x') \<le> r"
    then show "sent_on x' r = []" using sx(3) [of r] p by (simp add: len x'(4))
  next
    fix q assume q: "q < length (channels y)"
      and no: "\<And>r. r < length (channels x') \<Longrightarrow> peer_of (channels x' ! r) \<noteq> Some q"
    show "fresh_end (channels y ! q) (read_on y q)"
      by (rule sx(4) [OF q]) (use no len peer in auto)
  next
    fix q assume "length (channels y) \<le> q"
    then show "read_on y q = []" by (rule sx(5))
  qed
  moreover have "streams y x' ns (ms @ new)"
  proof (rule streamsI)
    fix q r assume q: "q < length (channels y)" and r: "peer_of (channels y ! q) = Some r"
    note l = sy(1) [OF q r]
    have r': "r < length (channels x)" using peer_lt [OF i(10) q r] by blast
    show "link (channels y ! q) (channels x' ! r) (stream_for (of_nat r) ns) (updates_for (of_nat q) (ms @ new))
        (sent_on y q) (read_on x' r)"
    proof (cases "r = p")
      case True
      then show ?thesis using receives [OF q] r l nth [OF r'] by (simp add: x'(5))
    next
      case False
      have "updates_for (of_nat q) new = []"
      proof (rule ccontr)
        assume "updates_for (of_nat q) new \<noteq> []"
        then obtain m where m: "m \<in> set new" "is_update_for (of_nat q) m" by (auto simp: filter_empty_conv)
        from new [OF m(1)] obtain q' where q': "peer_of (channels x ! p) = Some q'" "of_channel (of_nat q') m"
          "is_update_for (of_nat q') m \<longrightarrow> joined (channels y ! q')" by blast
        have "(of_nat q :: u32) = of_nat q'" using m(2) q'(2) by (cases m) auto
        then have "q = q'"
          using peer_of_bound [OF q'(1)] small(2) [OF q] of_nat_eq by blast
        then have "peer_of (channels y ! q) = Some p"
          using peer_back [OF i(9) p q'(1)] q'(3) m(2) by blast
        with r False show False by simp
      qed
      then show ?thesis
        using l nth [OF r'] False prenone [OF False] session_ok_small [OF i(3) r'] by (simp add: x'(5))
    qed
  next
    fix r assume r: "r < length (channels x')"
      and no: "\<And>q. q < length (channels y) \<Longrightarrow> peer_of (channels y ! q) \<noteq> Some r"
    then have "fresh_end (channels x ! r) (read_on x r)" using sy(4) by (simp add: len)
    then show "fresh_end (channels x' ! r) (read_on x' r)"
      using fresh no r nth [of r] by (cases "r = p") (auto simp: len x'(5))
  next
    fix r assume "length (channels x') \<le> r"
    then show "read_on x' r = []" using sy(5) [of r] p by (simp add: len x'(5))
  qed (use sy(2,3) in blast)+
  ultimately show ?thesis
    using i(2,13) x'(3,7) flight_send [OF i(5) x'(6)] okms oknew okns hs
    by (simp add: net_inv_def list_all_iff ball_Un)
qed

section \<open>Calls on one channel\<close>

lemma session_ok_set:
  assumes "session_ok s" "p < length (heap s)" "channel_ok c p" "joined c = joined (heap s ! p)"
    and "free_transport t" "length (chunks (tin t)) \<le> 1"
  shows "session_ok ((set_chan s p c)\<lparr>trans := t\<rparr>)"
  using assms by (auto simp: session_ok_def nth_list_update)

lemma joined_simps [simp]:
  "joined (c\<lparr>pending := b\<rparr>) = joined c" "joined (c\<lparr>myWindow := w\<rparr>) = joined c"
  "joined (c\<lparr>remoteWin := v\<rparr>) = joined c" "joined (c\<lparr>sentEOF := e\<rparr>) = joined c"
  "joined (c\<lparr>msgs := q\<rparr>) = joined c"
  by (simp_all add: joined_def)

lemma peer_of_simps [simp]:
  "peer_of (c\<lparr>pending := b\<rparr>) = peer_of c" "peer_of (c\<lparr>myWindow := w\<rparr>) = peer_of c"
  "peer_of (c\<lparr>remoteWin := v\<rparr>) = peer_of c" "peer_of (c\<lparr>sentEOF := e\<rparr>) = peer_of c"
  "peer_of (c\<lparr>msgs := q\<rparr>) = peer_of c"
  by (simp_all add: peer_of_def)

lemma channel_ok_simps:
  "channel_ok c p \<Longrightarrow> channel_ok (c\<lparr>pending := b\<rparr>) p" "channel_ok c p \<Longrightarrow> channel_ok (c\<lparr>myWindow := w\<rparr>) p"
  "channel_ok c p \<Longrightarrow> joined c \<Longrightarrow> channel_ok (c\<lparr>remoteWin := v\<rparr>) p"
  "channel_ok c p \<Longrightarrow> joined c \<Longrightarrow> channel_ok (c\<lparr>sentEOF := e\<rparr>) p"
  by (simp_all add: channel_ok_def)

text \<open>A side after a call that has changed one channel and written some packets.\<close>

definition after_call :: "side \<Rightarrow> nat \<Rightarrow> channel \<Rightarrow> message list \<Rightarrow> bytes \<Rightarrow> bytes \<Rightarrow> side" where
  "after_call x p c new w g = x\<lparr>
     ses := (set_chan (ses x) p c)\<lparr>trans := (trans (ses x))\<lparr>tout := outgoing x @ concat (map wire new)\<rparr>\<rparr>,
     sent_on := (sent_on x)(p := sent_on x p @ w), read_on := (read_on x)(p := read_on x p @ g)\<rparr>"

lemma call_step:
  assumes inv: "net_inv x y ms ns" and p: "p < length (channels x)"
    and c': "channel_ok c' p" "direction c' = direction (channels x ! p)" "peer_of c' = peer_of (channels x ! p)"
    and new: "\<And>m. m \<in> set new \<Longrightarrow> \<exists>q. peer_of (channels x ! p) = Some q \<and> of_channel (of_nat q) m
        \<and> wf_msg m \<and> (is_update_for (of_nat q) m \<longrightarrow> joined (channels y ! q))"
    and sends: "\<And>q us. peer_of (channels x ! p) = Some q \<Longrightarrow>
      link (channels x ! p) (channels y ! q) (stream_for (of_nat q) ms) us (sent_on x p) (read_on y q) \<Longrightarrow>
      link c' (channels y ! q) (stream_for (of_nat q) (ms @ new)) us (sent_on x p @ w) (read_on y q)"
    and silent: "peer_of (channels x ! p) = None \<Longrightarrow> w = []"
    and receives: "\<And>q ds. q < length (channels y) \<Longrightarrow> peer_of (channels y ! q) = Some p \<Longrightarrow>
      link (channels y ! q) (channels x ! p) ds (updates_for (of_nat q) ms) (sent_on y q) (read_on x p) \<Longrightarrow>
      link (channels y ! q) c' ds (updates_for (of_nat q) (ms @ new)) (sent_on y q) (read_on x p @ g)"
    and fresh: "fresh_end (channels x ! p) (read_on x p) \<Longrightarrow>
      (\<And>q. q < length (channels y) \<Longrightarrow> peer_of (channels y ! q) \<noteq> Some p) \<Longrightarrow>
      fresh_end c' (read_on x p @ g)"
  shows "net_inv (after_call x p c' new w g) y (ms @ new) ns"
proof (rule chan_step [where pre = "[]" and p = p and c' = c' and new = new
      and w' = "sent_on x p @ w" and g' = "read_on x p @ g"])
  note i = net_invD [OF inv]
  have "joined c' = joined (channels x ! p)" using c'(3) by (simp add: joined_peer)
  moreover have "free_transport (trans (ses x))" "length (chunks (tin (trans (ses x)))) \<le> 1"
    using i(3) by (simp_all add: session_ok_def)
  ultimately have "session_ok (ses (after_call x p c' new w g))"
    using session_ok_set [OF i(3) p c'(1)] by (simp add: after_call_def)
  then show "side_ok (after_call x p c' new w g)"
    using i(1) p \<open>joined c' = _\<close> by (auto simp: after_call_def side_ok_def nth_list_update)
  show "flight y (after_call x p c' new w g) ns"
    by (rule flight_receive [OF i(6)]) (simp_all add: after_call_def)
  show "sent_on x p @ w = sent_on x p" if "peer_of (channels x ! p) = None"
    using silent that by simp
qed (use assms in \<open>simp_all add: after_call_def\<close>)

lemma owned_joined:
  assumes "net_inv x y ms ns" "p \<in> owned x"
  obtains q where "p < length (channels x)" "peer_of (channels x ! p) = Some q"
    "remoteId (channels x ! p) = of_nat q" "q < length (channels y)"
proof -
  note i = net_invD [OF assms(1)]
  have "p < length (channels x)" "joined (channels x ! p)"
    using i(1) assms(2) by (auto simp: side_ok_def)
  moreover from this obtain q where "peer_of (channels x ! p) = Some q" by (auto simp: joined_peer)
  ultimately show ?thesis using that peer_of_bound peer_lt(1) [OF i(9)] by blast
qed

lemma write_step:
  assumes inv: "net_inv x y ms ns" and p: "p \<in> owned x" and eof: "\<not> sentEOF (channels x ! p)"
    and d: "data \<noteq> []" "length data < 2 ^ 32" and w: "s_write_iter (ses x) p data n = (r, s)"
  shows "\<exists>new. net_inv (x\<lparr>ses := s, sent_on := (sent_on x)(p := sent_on x p
       @ (case r of WContinue data' n' \<Rightarrow> take (n' - n) data | _ \<Rightarrow> []))\<rparr>) y (ms @ new) ns"
proof -
  note i = net_invD [OF inv]
  obtain q where q: "p < length (channels x)" "peer_of (channels x ! p) = Some q"
    "remoteId (channels x ! p) = of_nat q" "q < length (channels y)"
    using owned_joined [OF inv p] .
  define c where "c = channels x ! p"
  note l = streamsD(1) [OF i(11) q(1,2), folded c_def]
  have ok: "channel_ok c p" "joined c" unfolding c_def
    using session_ok_chan [OF i(3) q(1)] q(2) by (auto simp: joined_peer)
  have free: "free_transport (trans (ses x))" using i(3) by (simp add: session_ok_def)
  have same: "x\<lparr>read_on := (read_on x)(p := read_on x p)\<rparr> = x" by simp
  obtain g v where r: "reserve (remoteWin c) (min32 (maxRemotePayload c) (length data)) = (g, v)"
    by (cases "reserve (remoteWin c) (min32 (maxRemotePayload c) (length data))")
  show ?thesis
  proof (cases g)
    case None
    have v: "win v = win (remoteWin c)" "wclosed v = wclosed (remoteWin c)"
      using reserve_parked [OF r [unfolded None]] by simp_all
    have "net_inv (after_call x p (c\<lparr>remoteWin := v\<rparr>) [] [] []) y (ms @ []) ns"
      by (rule call_step [OF inv q(1)])
        (use ok channel_ok_simps v in \<open>auto simp: fresh_end_def simp flip: c_def elim: link_cong\<close>)
    moreover have "x\<lparr>ses := s, sent_on := (sent_on x)(p := sent_on x p
        @ (case r of WContinue data' n' \<Rightarrow> take (n' - n) data | _ \<Rightarrow> []))\<rparr>
      = after_call x p (c\<lparr>remoteWin := v\<rparr>) [] [] []"
      using w r None by (auto simp: s_write_iter_def write_iter_def c_def Let_def after_call_def set_chan_def)
    ultimately show ?thesis by metis
  next
    case (Some ke)
    obtain k where ke: "ke = (k, None)"
      using reserve_grant [of "remoteWin c" _ "fst ke" "snd ke" v] r Some link_stream(4) [OF l]
      by (cases ke) auto
    note lw = link_write [OF l _ d r [unfolded Some ke], of "of_nat q"]
    have k: "0 < unat k" "unat k \<le> length data" using lw eof by (simp_all add: c_def)
    let ?m = "DataMessage (of_nat q) k (take (unat k) data)"
    have len: "(of_nat (length (take (unat k) data)) :: u32) = k" using k by (simp add: min_def)
    have "net_inv (after_call x p (c\<lparr>remoteWin := v\<rparr>) [?m] (take (unat k) data) []) y (ms @ [?m]) ns"
    proof (rule call_step [OF inv q(1)])
      fix q' us assume "peer_of (channels x ! p) = Some q'"
        "link (channels x ! p) (channels y ! q') (stream_for (of_nat q') ms) us (sent_on x p) (read_on y q')"
      then show "link (c\<lparr>remoteWin := v\<rparr>) (channels y ! q') (stream_for (of_nat q') (ms @ [?m])) us
          (sent_on x p @ take (unat k) data) (read_on y q')"
        using link_write [OF _ _ d r [unfolded Some ke], of _ _ _ _ _ "of_nat q"] eof q(2)
        by (simp add: c_def)
    qed (use ok channel_ok_simps q k in \<open>auto simp: fresh_end_def min_def simp flip: c_def elim: link_cong\<close>)
    moreover have "x\<lparr>ses := s, sent_on := (sent_on x)(p := sent_on x p
        @ (case r of WContinue data' n' \<Rightarrow> take (n' - n) data | _ \<Rightarrow> []))\<rparr>
      = after_call x p (c\<lparr>remoteWin := v\<rparr>) [?m] (take (unat k) data) []"
      using w r Some ke k len q(3) Encode_free [OF free]
      by (auto simp: s_write_iter_def write_iter_def c_def Let_def after_call_def set_chan_def
          min_def simp del: wire.simps)
    ultimately show ?thesis by metis
  qed
qed

lemma buffer_read_new: "buffer_read newBuffer n = (r, b) \<Longrightarrow> b = newBuffer"
  by (auto simp: buffer_read_def read_loop.simps newBuffer_def split: if_splits prod.splits)

text \<open>Who has received something has a peer that knows it.\<close>

lemma fresh_unless_joined:
  assumes "net_inv x y ms ns" "p < length (channels x)" "peer_of (channels x ! p) = Some q"
    and "\<not> joined (channels y ! q)"
  shows "fresh_end (channels x ! p) (read_on x p)"
proof -
  note i = net_invD [OF assms(1)]
  have "peer_of (channels y ! r) \<noteq> Some p" if "r < length (channels y)" for r
  proof
    assume r: "peer_of (channels y ! r) = Some p"
    have "joined (channels x ! p)" using assms(3) by (simp add: joined_peer)
    from peer_back [OF i(10) that r this] assms(3) have "r = q" by simp
    with r assms(4) show False by (simp add: joined_peer)
  qed
  then show ?thesis using streamsD(4) [OF i(12) assms(2)] by blast
qed

lemma read_step:
  assumes inv: "net_inv x y ms ns" and p: "p \<in> owned x" and rd: "s_Read (ses x) p n = (r, s)"
  shows "\<exists>new. net_inv (x\<lparr>ses := s, read_on := (read_on x)(p := read_on x p
       @ (case r of Some (bs, _) \<Rightarrow> bs | None \<Rightarrow> []))\<rparr>) y (ms @ new) ns"
proof -
  note i = net_invD [OF inv]
  obtain q where q: "p < length (channels x)" "peer_of (channels x ! p) = Some q"
    "remoteId (channels x ! p) = of_nat q" "q < length (channels y)"
    using owned_joined [OF inv p] .
  define c where "c = channels x ! p"
  have ok: "channel_ok c p" "joined c" "\<not> sentClose c" unfolding c_def
    using session_ok_chan [OF i(3) q(1)] q(2) by (auto simp: joined_peer channel_ok_def)
  have free: "free_transport (trans (ses x))" using i(3) by (simp add: session_ok_def)
  obtain g b where r: "buffer_read (pending c) n = (g, b)" by (cases "buffer_read (pending c) n")
  show ?thesis
  proof (cases "g = None \<or> (\<exists>e. g = Some ([], e))")
    case True
    have "net_inv (after_call x p (c\<lparr>pending := b\<rparr>) [] [] []) y (ms @ []) ns"
    proof (rule call_step [OF inv q(1)])
      show "fresh_end (c\<lparr>pending := b\<rparr>) (read_on x p @ [])" if "fresh_end (channels x ! p) (read_on x p)"
        using that buffer_read_new r by (auto simp: fresh_end_def c_def)
    qed (use ok channel_ok_simps link_read_nothing [OF _ r True] in \<open>auto simp flip: c_def elim: link_cong\<close>)
    moreover have "x\<lparr>ses := s, read_on := (read_on x)(p := read_on x p
        @ (case r of Some (bs, _) \<Rightarrow> bs | None \<Rightarrow> []))\<rparr> = after_call x p (c\<lparr>pending := b\<rparr>) [] [] []"
      using rd r True by (auto simp: s_Read_def ch_Read_def c_def Let_def after_call_def set_chan_def)
    ultimately show ?thesis by metis
  next
    case False
    then obtain bs err where g: "g = Some (bs, err)" "bs \<noteq> []" by (cases g) auto
    let ?k = "of_nat (length bs) :: u32"
    let ?m = "WindowAdjustMessage (of_nat q) ?k"
    let ?c = "c\<lparr>pending := b, myWindow := myWindow c + ?k\<rparr>"
    have some: "buffer_content (pending c) \<noteq> []" using rbuf.get_data [OF r [unfolded g(1)]] g(2) by simp
    then have notfresh: "\<not> fresh_end c h" for h by (auto simp: fresh_end_def)
    then have jq: "joined (channels y ! q)"
      using fresh_unless_joined [OF inv q(1,2)] by (auto simp: c_def)
    have "net_inv (after_call x p ?c [?m] [] bs) y (ms @ [?m]) ns"
    proof (rule call_step [OF inv q(1)])
      fix q' ds assume q': "q' < length (channels y)" "peer_of (channels y ! q') = Some p"
        "link (channels y ! q') (channels x ! p) ds (updates_for (of_nat q') ms) (sent_on y q') (read_on x p)"
      have "q' = q" using peer_back [OF i(10) q'(1,2)] ok(2) q(2) by (simp add: c_def)
      with q'(3) show "link (channels y ! q') ?c ds (updates_for (of_nat q') (ms @ [?m])) (sent_on y q')
          (read_on x p @ bs)"
        using link_read [OF _ r [unfolded g(1)] g(2)] by (simp add: c_def)
    qed (use ok channel_ok_simps notfresh q jq in \<open>auto simp flip: c_def elim: link_cong\<close>)
    moreover have "x\<lparr>ses := s, read_on := (read_on x)(p := read_on x p
        @ (case r of Some (bs, _) \<Rightarrow> bs | None \<Rightarrow> []))\<rparr> = after_call x p ?c [?m] [] bs"
      using rd r g q(3) ok(3) Encode_free [OF free]
      by (auto simp: s_Read_def ch_Read_def adjustWindow_def adjust_credit_def ch_send_eq c_def Let_def
          after_call_def set_chan_def simp del: wire.simps)
    ultimately show ?thesis by metis
  qed
qed

lemma close_write_step:
  assumes inv: "net_inv x y ms ns" and p: "p \<in> owned x" and eof: "\<not> sentEOF (channels x ! p)"
    and cw: "s_CloseWrite (ses x) p = (e, s)"
  shows "\<exists>new. net_inv (x\<lparr>ses := s\<rparr>) y (ms @ new) ns"
proof -
  note i = net_invD [OF inv]
  obtain q where q: "p < length (channels x)" "peer_of (channels x ! p) = Some q"
    "remoteId (channels x ! p) = of_nat q" "q < length (channels y)"
    using owned_joined [OF inv p] .
  define c where "c = channels x ! p"
  have ok: "channel_ok c p" "joined c" "\<not> sentClose c" unfolding c_def
    using session_ok_chan [OF i(3) q(1)] q(2) by (auto simp: joined_peer channel_ok_def)
  have free: "free_transport (trans (ses x))" using i(3) by (simp add: session_ok_def)
  let ?m = "EOFMessage (of_nat q)"
  have "net_inv (after_call x p (c\<lparr>sentEOF := True\<rparr>) [?m] [] []) y (ms @ [?m]) ns"
    by (rule call_step [OF inv q(1)])
      (use ok channel_ok_simps q eof link_eof in \<open>auto simp: fresh_end_def simp flip: c_def elim: link_cong\<close>)
  moreover have "x\<lparr>ses := s\<rparr> = after_call x p (c\<lparr>sentEOF := True\<rparr>) [?m] [] []"
    using cw q(3) ok(3) Encode_free [OF free]
    by (auto simp: s_CloseWrite_def CloseWrite_def ch_send_eq c_def Let_def after_call_def set_chan_def
        simp del: wire.simps)
  ultimately show ?thesis by metis
qed

text \<open>The end of \<open>Open\<close> takes a message off the channel's queue.\<close>

lemma open_finish_step:
  assumes inv: "net_inv x y ms ns" and p: "p < length (channels x)"
    and f: "Open_finish (ses x) p ctx = (r, s)"
  shows "net_inv (x\<lparr>ses := s, owned := owned x \<union> obtained r\<rparr>) y ms ns"
proof -
  note i = net_invD [OF inv]
  define c where "c = channels x ! p"
  have ok: "channel_ok c p" unfolding c_def using session_ok_chan [OF i(3) p] .
  have "\<exists>q. s = set_chan (ses x) p (c\<lparr>msgs := q\<rparr>) \<and> channel_ok (c\<lparr>msgs := q\<rparr>) p
      \<and> (obtained r = {} \<or> obtained r = {p} \<and> joined c)"
  proof (cases "ctx \<noteq> None \<or> qbuf (msgs c) = []")
    case True
    then have "s = ses x" "obtained r = {}"
      using f by (cases ctx; auto simp: Open_finish_def chan_recv_def obtained_def c_def split: if_splits)+
    then show ?thesis using ok by (intro exI [of _ "msgs c"]) (simp add: set_chan_def c_def)
  next
    case False
    then obtain m q where m: "qbuf (msgs c) = m # q" "ctx = None" by (cases "qbuf (msgs c)") auto
    then have "joined c" "channel_ok (c\<lparr>msgs := (msgs c)\<lparr>qbuf := q\<rparr>\<rparr>) p"
      using ok by (auto simp: channel_ok_def)
    moreover have "s = set_chan (ses x) p (c\<lparr>msgs := (msgs c)\<lparr>qbuf := q\<rparr>\<rparr>)" "obtained r = {} \<or> obtained r = {p}"
      using f m by (auto simp: Open_finish_def chan_recv_def obtained_def c_def split: message.splits)
    ultimately show ?thesis by blast
  qed
  then obtain q where q: "s = set_chan (ses x) p (c\<lparr>msgs := q\<rparr>)" "channel_ok (c\<lparr>msgs := q\<rparr>) p"
    "obtained r = {} \<or> obtained r = {p} \<and> joined c" by blast
  have n: "net_inv (after_call x p (c\<lparr>msgs := q\<rparr>) [] [] []) y (ms @ []) ns"
    by (rule call_step [OF inv p]) (use q(2) in \<open>auto simp: fresh_end_def simp flip: c_def elim: link_cong\<close>)
  moreover have "after_call x p (c\<lparr>msgs := q\<rparr>) [] [] [] = x\<lparr>ses := s\<rparr>"
    using q(1) by (simp add: after_call_def set_chan_def)
  ultimately have n': "net_inv (x\<lparr>ses := s\<rparr>) y ms ns" by simp
  have "channels x ! p = c" "channels (x\<lparr>ses := s\<rparr>) = (channels x)[p := c\<lparr>msgs := q\<rparr>]"
    using q(1) by (simp_all add: c_def)
  then show ?thesis
    using q(3) p net_invD(1) [OF n'] by (intro net_inv_same [OF n']) (auto simp: side_ok_def)
qed

lemma accept_step:
  assumes inv: "net_inv x y ms ns" and a: "Accept (ses x) b = (r, s)"
  shows "net_inv (x\<lparr>ses := s, owned := owned x \<union> obtained r\<rparr>) y ms ns"
proof -
  note i = net_invD [OF inv]
  have "qbuf (closeCh (ses x)) = []" "\<not> qclosed (closeCh (ses x))" "\<not> qclosed (inbox (ses x))"
    using i(3) by (auto simp: session_ok_def)
  then have "s = ses x \<and> obtained r = {} \<or> (\<exists>p q. qbuf (inbox (ses x)) = p # q
      \<and> s = (ses x)\<lparr>inbox := (inbox (ses x))\<lparr>qbuf := q\<rparr>\<rparr> \<and> obtained r = {p})"
    using a by (auto simp: Accept_def chan_recv_def obtained_def split: list.splits)
  then have s: "channels (x\<lparr>ses := s, owned := owned x \<union> obtained r\<rparr>) = channels x"
    "trans s = trans (ses x)" "session_ok s" "\<forall>p \<in> obtained r. p < length (channels x) \<and> joined (channels x ! p)"
    using i(3) by (auto simp: session_ok_def)
  show ?thesis
    by (rule net_inv_same [OF inv s(1)]) (use s i(1) in \<open>auto simp: side_ok_def\<close>)
qed

section \<open>The arrival of a packet\<close>

lemma handle_stream_frame:
  assumes "handle_stream c m = Some (e, c')"
  shows "if is_WindowAdjustMessage m then \<exists>v. c' = c\<lparr>remoteWin := v\<rparr>
    else \<exists>b w. c' = c\<lparr>pending := b, myWindow := w\<rparr>"
proof (cases m)
  case (DataMessage cid n d)
  then have "c' = c \<or> c' = c\<lparr>pending := buffer_write (pending c) d, myWindow := myWindow c - n\<rparr>"
    using assms by (auto simp: handleData_def split: if_splits)
  moreover have "c = c\<lparr>pending := pending c, myWindow := myWindow c\<rparr>" by simp
  ultimately show ?thesis using DataMessage by (simp, metis)
next
  case (EOFMessage cid)
  then show ?thesis
    using assms by (auto intro!: exI [of _ "buffer_eof (pending c)"] exI [of _ "myWindow c"])
qed (use assms in \<open>auto split: prod.splits\<close>)

text \<open>Exactly one channel of the other side sends to a channel for which a stream packet is on its way.\<close>

lemma stream_sender:
  assumes "net_inv x y ms (m # ns)" "is_stream_for i m"
  obtains q where "unat i < length (channels x)" "q < length (channels y)"
    "peer_of (channels y ! q) = Some (unat i)"
proof -
  note inv = net_invD [OF assms(1)]
  obtain q where "q < length (channels y)" "joined (channels y ! q)" "remoteId (channels y ! q) = i"
    using inv(8) assms(2) by (cases m) auto
  moreover from this have "peer_of (channels y ! q) = Some (unat i)" by (simp add: peer_of_def)
  ultimately show ?thesis using that peer_lt(1) [OF inv(10)] by blast
qed

text \<open>A side after its loop has handled a packet that concerns one channel.\<close>

definition after_stream :: "side \<Rightarrow> transport \<Rightarrow> nat \<Rightarrow> channel \<Rightarrow> side" where
  "after_stream x t p c = x\<lparr>ses := set_chan ((ses x)\<lparr>trans := t\<rparr>) p c\<rparr>"

lemma set_chan_trans: "set_chan (s\<lparr>trans := t\<rparr>) p c = (set_chan s p c)\<lparr>trans := t\<rparr>"
  by (simp add: set_chan_def)

lemma stream_step:
  assumes inv: "net_inv x y ms (m # ns)" and m: "of_channel i m"
    and t: "free_transport t" "length (chunks (tin t)) \<le> 1" "tout t = outgoing x"
      "\<And>z. arriving z = stream_content (tin t) \<Longrightarrow> flight y z ns"
  shows "\<exists>c'. dispatch ((ses x)\<lparr>trans := t\<rparr>) m = (Handled None, set_chan ((ses x)\<lparr>trans := t\<rparr>) (unat i) c')
    \<and> net_inv (after_stream x t (unat i) c') y ms ns"
proof -
  note iv = net_invD [OF inv]
  let ?p = "unat i"
  have p: "?p < length (channels x)"
  proof (cases "is_stream_for i m")
    case True
    then show ?thesis using stream_sender [OF inv] by blast
  next
    case False
    with m iv(8) show ?thesis by (cases m) auto
  qed
  define c where "c = channels x ! ?p"
  have ok: "channel_ok c ?p" unfolding c_def using session_ok_chan [OF iv(3) p] .
  have "\<exists>r. handle_stream c m = Some r"
    using m by (cases m) (auto split: prod.split)
  then obtain e c' where h: "handle_stream c m = Some (e, c')" by auto
  have ip: "(of_nat ?p :: u32) = i" by simp
  have e: "e = None"
  proof (cases "is_stream_for i m")
    case True
    then obtain q where q: "q < length (channels y)" "peer_of (channels y ! q) = Some ?p"
      using stream_sender [OF inv] by blast
    have "stream_for (of_nat ?p) (m # ns) = m # stream_for i ns" using True by simp
    with streamsD(1) [OF iv(12) q] h show ?thesis using link_receive by (metis c_def)
  next
    case False
    then have u: "is_update_for i m" using m by (simp add: of_channel_def)
    then have "joined c" using iv(8) by (cases m) (auto simp: c_def)
    then obtain q where q: "peer_of (channels x ! ?p) = Some q" by (auto simp: joined_peer c_def)
    have "updates_for (of_nat ?p) (m # ns) = m # updates_for i ns" using u by simp
    with streamsD(1) [OF iv(11) p q] h show ?thesis using link_refill by (metis c_def)
  qed
  have chan: "getChan (chans (ses x)) i = Some ?p" using session_getChan [OF iv(3)] p by simp
  have "msg_Channel m = (i, True)" using m by (cases m) auto
  then have d: "dispatch ((ses x)\<lparr>trans := t\<rparr>) m = (Handled None, set_chan ((ses x)\<lparr>trans := t\<rparr>) ?p c')"
    using chan handle_stream_handle [of "(ses x)\<lparr>trans := t\<rparr>" ?p m e c'] h e
    by (simp add: dispatch_def c_def)
  have fr: "channel_ok c' ?p" "direction c' = direction c" "peer_of c' = peer_of c" "joined c' = joined c"
  proof -
    have j: "joined c" if "is_WindowAdjustMessage m" using that iv(8) m by (cases m) (auto simp: c_def)
    show "channel_ok c' ?p" "direction c' = direction c" "peer_of c' = peer_of c" "joined c' = joined c"
      using handle_stream_frame [OF h] ok channel_ok_simps j by (auto split: if_splits)
  qed
  have "net_inv (after_stream x t ?p c') y (ms @ []) ns"
  proof (rule chan_step [where pre = "[m]" and p = ?p and c' = c'
        and w' = "sent_on x ?p" and g' = "read_on x ?p"])
    show "net_inv x y ms ([m] @ ns)" using inv by simp
    have "session_ok ((set_chan (ses x) ?p c')\<lparr>trans := t\<rparr>)"
      by (rule session_ok_set [OF iv(3) p fr(1) _ t(1,2)]) (simp add: fr(4) c_def)
    then have "session_ok (ses (after_stream x t ?p c'))" by (simp add: after_stream_def set_chan_trans)
    then show "side_ok (after_stream x t ?p c')"
      using iv(1) p fr(4) by (auto simp: after_stream_def side_ok_def nth_list_update c_def)
    show "flight y (after_stream x t ?p c') ns" by (rule t(4)) (simp add: after_stream_def)
    show "link c' (channels y ! q) (stream_for (of_nat q) (ms @ [])) (updates_for (of_nat ?p) ns)
        (sent_on x ?p) (read_on y q)"
      if "link (channels x ! ?p) (channels y ! q) (stream_for (of_nat q) ms) (updates_for (of_nat ?p) ([m] @ ns))
        (sent_on x ?p) (read_on y q)" for q
    proof (cases "is_update_for i m")
      case True
      then show ?thesis using that link_refill h by (simp add: c_def)
    next
      case False
      then have "\<not> is_WindowAdjustMessage m" using m by (cases m) auto
      then show ?thesis
        using that False handle_stream_frame [OF h] by (auto simp flip: c_def elim: link_cong)
    qed
    show "link (channels y ! q) c' (stream_for (of_nat ?p) ns) (updates_for (of_nat q) (ms @ []))
        (sent_on y q) (read_on x ?p)"
      if "link (channels y ! q) (channels x ! ?p) (stream_for (of_nat ?p) ([m] @ ns)) (updates_for (of_nat q) ms)
        (sent_on y q) (read_on x ?p)" for q
    proof (cases "is_stream_for i m")
      case True
      then show ?thesis using that link_receive h by (simp add: c_def)
    next
      case False
      then have "is_WindowAdjustMessage m" using m by (cases m) auto
      then show ?thesis
        using that False handle_stream_frame [OF h] by (auto simp flip: c_def elim: link_cong)
    qed
    show "fresh_end c' (read_on x ?p)" if "fresh_end (channels x ! ?p) (read_on x ?p)"
      and "\<And>q. q < length (channels y) \<Longrightarrow> peer_of (channels y ! q) \<noteq> Some ?p"
    proof -
      have "\<not> is_stream_for i m" using that(2) stream_sender [OF inv] by metis
      then have "is_WindowAdjustMessage m" using m by (cases m) auto
      then show ?thesis
        using that(1) handle_stream_frame [OF h] by (auto simp: fresh_end_def simp flip: c_def)
    qed
  qed (use p t(3) fr m in \<open>simp_all add: after_stream_def c_def\<close>)
  with d show ?thesis by auto
qed

end
