(* ===== verification/SessionNetOpen.thy ===== *)
theory SessionNetOpen
  imports SessionNetInv
begin

text \<open>
  The handshake steps of SessionNet: a side that opens a channel, a loop that handles an opening, with room in its
  inbox or without, and one that handles a confirmation.  Each is a step of the protocol of Handshake, and
  what the new ends of a channel have in common is where \<open>link\<close> starts.  The end of the theory puts the steps
  together: the invariant holds in every reachable state of the two sessions.
\<close>

section \<open>A new channel\<close>

definition is_handshake :: "message \<Rightarrow> bool" where
  "is_handshake m \<longleftrightarrow> handshake_of m \<noteq> None"

lemma is_handshake_simps [simp]:
  "is_handshake (OpenMessage sid ws mp)" "is_handshake (OpenConfirmMessage cid sid ws mp)"
  by (simp_all add: is_handshake_def)

lemma no_channel_messages:
  assumes "list_all is_handshake ms"
  shows "stream_for i ms = []" "updates_for i ms = []"
proof -
  have "\<not> is_stream_for i m \<and> \<not> is_update_for i m" if "m \<in> set ms" for m
    using assms that by (cases m) (auto simp: list_all_iff is_handshake_def)
  then show "stream_for i ms = []" "updates_for i ms = []" by (auto simp: filter_empty_conv)
qed

text \<open>An end nothing has been sent to or received from, in the invariant of a pair.\<close>

definition ready_end :: "channel \<Rightarrow> bool" where
  "ready_end c \<longleftrightarrow> win (remoteWin c) = channelWindowSize \<and> \<not> wclosed (remoteWin c) \<and> \<not> sentEOF c"

lemma link_start:
  assumes "channel_ok c p" "channel_ok d q" "joined c" "ready_end c" "fresh_end d g"
  shows "link c d [] [] [] []"
  using assms by (intro link_new) (simp_all add: channel_ok_def ready_end_def fresh_end_def full_window_def)

lemma grow_step:
  assumes inv: "net_inv x y ms (pre @ ns)"
    and x': "channels x' = channels x @ [c]" "sent_on x' = sent_on x" "read_on x' = read_on x"
      "side_ok x'" "outgoing x' = outgoing x @ concat (map wire new)" "flight y x' ns"
    and hs: "hs_reachable (hs_of x' (ms @ new)) (hs_of y ns)"
    and msgs: "list_all is_handshake pre" "list_all is_handshake new"
      "list_all (msg_ok (channels x') (channels y)) new"
    and c: "fresh_end c []" "joined c \<Longrightarrow> ready_end c"
  shows "net_inv x' y (ms @ new) ns"
proof -
  note i = net_invD [OF inv]
  note sx = streamsD [OF i(11)] and sy = streamsD [OF i(12)]
  let ?n = "length (channels x)"
  have n: "?n < 2 ^ 32" "channel_ok c ?n" "\<And>p. p < ?n \<Longrightarrow> p < 2 ^ 32"
    using x'(1,4) i(3) by (auto simp: side_ok_def session_ok_def nth_append)
  have len: "r < length (channels x') \<longleftrightarrow> r < ?n \<or> r = ?n" for r by (auto simp: x'(1))
  have nth: "r < ?n \<Longrightarrow> channels x' ! r = channels x ! r" "channels x' ! ?n = c" for r
    by (simp_all add: x'(1) nth_append)
  have okms: "msg_ok (channels x') (channels y) m" if "m \<in> set ms" for m
  proof (rule msg_ok_mono)
    show "msg_ok (channels x) (channels y) m" using i(7) that by (simp add: list_all_iff)
  qed (simp_all add: x'(1) nth_append)
  have okns: "msg_ok (channels y) (channels x') m" if "m \<in> set ns" for m
  proof (rule msg_ok_mono)
    show "msg_ok (channels y) (channels x) m" using i(8) that by (simp add: list_all_iff)
  qed (simp_all add: x'(1) nth_append)
  have old: "list_all (msg_ok (channels y) (channels x)) ns" using i(8) by simp
  have "streams x' y (ms @ new) ns"
  proof (rule streamsI)
    fix p q assume p: "p < length (channels x')" and q: "peer_of (channels x' ! p) = Some q"
    show "link (channels x' ! p) (channels y ! q) (stream_for (of_nat q) (ms @ new)) (updates_for (of_nat p) ns)
        (sent_on x' p) (read_on y q)"
    proof (cases "p = ?n")
      case False
      then have p': "p < ?n" "peer_of (channels x ! p) = Some q" using p q by (simp_all add: len nth)
      from sx(1) [OF p'] show ?thesis
        using no_channel_messages [OF msgs(1)] no_channel_messages [OF msgs(2)]
        by (simp add: nth(1) [OF p'(1)] x'(2))
    next
      case True
      then have pc: "peer_of c = Some q" using q nth(2) by simp
      then have j: "joined c" by (auto simp: joined_peer)
      have ql: "q < length (channels y)" using peer_lt(1) [OF hs_reachable_inv [OF hs] p q] .
      have none: "peer_of (channels x ! r) \<noteq> Some q" if "r < ?n" for r
      proof
        assume "peer_of (channels x ! r) = Some q"
        then have "r = p" using peers_unique [OF hs_reachable_inv [OF hs] _ p _ q, of r] that by (simp add: len nth)
        with True that show False by simp
      qed
      have fr: "fresh_end (channels y ! q) (read_on y q)" using sx(4) [OF ql none] by blast
      have "stream_for (of_nat q) ms = []"
        by (rule stream_for_ok [OF i(7) none]) (use peer_of_bound [OF pc] in auto)
      moreover have "updates_for (of_nat p) ns = []"
        by (rule updates_for_ok [OF old]) (use True n in auto)
      moreover have "link c (channels y ! q) [] [] [] []"
        by (rule link_start [OF n(2) session_ok_chan [OF i(4) ql] j c(2) [OF j] fr])
      ultimately show ?thesis
        using True sx(3) [of ?n] fr no_channel_messages [OF msgs(2)] by (simp add: nth x'(2) fresh_end_def)
    qed
  next
    fix p assume "p < length (channels x')" "peer_of (channels x' ! p) = None"
    then show "sent_on x' p = []" using sx(2,3) [of p] by (cases "p = ?n") (auto simp: len nth x'(2))
  next
    fix p assume "length (channels x') \<le> p"
    then show "sent_on x' p = []" using sx(3) [of p] by (simp add: x'(1,2))
  next
    fix q assume q: "q < length (channels y)"
      and no: "\<And>p. p < length (channels x') \<Longrightarrow> peer_of (channels x' ! p) \<noteq> Some q"
    show "fresh_end (channels y ! q) (read_on y q)"
      by (rule sx(4) [OF q]) (use no len nth in metis)
  qed (rule sx(5))
  moreover have "streams y x' ns (ms @ new)"
  proof (rule streamsI)
    fix q p assume q: "q < length (channels y)" "peer_of (channels y ! q) = Some p"
    have "p < ?n" using peer_lt(1) [OF i(10) q] .
    then show "link (channels y ! q) (channels x' ! p) (stream_for (of_nat p) ns)
        (updates_for (of_nat q) (ms @ new)) (sent_on y q) (read_on x' p)"
      using sy(1) [OF q] no_channel_messages [OF msgs(1)] no_channel_messages [OF msgs(2)]
      by (simp add: nth x'(3))
  next
    fix p assume p: "p < length (channels x')"
      and no: "\<And>q. q < length (channels y) \<Longrightarrow> peer_of (channels y ! q) \<noteq> Some p"
    show "fresh_end (channels x' ! p) (read_on x' p)"
    proof (cases "p = ?n")
      case True
      then show ?thesis using c(1) sy(5) [of ?n] by (simp add: nth x'(3))
    next
      case False
      then show ?thesis using sy(4) [of p] no p by (simp add: len nth x'(3))
    qed
  next
    fix p assume "length (channels x') \<le> p"
    then show "read_on x' p = []" using sy(5) [of p] by (simp add: x'(1,3))
  qed (use sy(2,3) in blast)+
  ultimately show ?thesis
    using i(2) hs x'(4,6) flight_send [OF i(5) x'(5)] okms okns msgs(3)
    by (simp add: net_inv_def list_all_iff ball_Un)
qed

section \<open>Opening\<close>

definition opening_end :: "nat \<Rightarrow> channel" where
  "opening_end p = (new_chan channelOutbound)\<lparr>localId := of_nat p, maxIncomingPayload := channelMaxPacket\<rparr>"

definition answering_end :: "nat \<Rightarrow> u32 \<Rightarrow> channel" where
  "answering_end p sid = (new_chan channelInbound)\<lparr>localId := of_nat p, remoteId := sid,
     maxRemotePayload := channelMaxPacket, remoteWin := new_window\<lparr>win := channelWindowSize\<rparr>,
     maxIncomingPayload := channelMaxPacket\<rparr>"

definition add_end :: "session \<Rightarrow> channel \<Rightarrow> session" where
  "add_end s c = s\<lparr>heap := heap s @ [c], chans := map Some [0..<Suc (length (heap s))]\<rparr>"

lemma add_end_simps [simp]:
  "heap (add_end s c) = heap s @ [c]" "trans (add_end s c) = trans s" "inbox (add_end s c) = inbox s"
  "closeCh (add_end s c) = closeCh s" "serr (add_end s c) = serr s"
  by (simp_all add: add_end_def)

lemma opening_end_facts:
  "channel_ok (opening_end p) p" "\<not> joined (opening_end p)" "port_of (opening_end p) = (False, None)"
  "fresh_end (opening_end p) []"
  by (simp_all add: opening_end_def channel_ok_def joined_def port_of_def peer_of_def fresh_end_def new_chan_def)

lemma answering_end_facts:
  "channel_ok (answering_end p sid) p" "joined (answering_end p sid)"
  "port_of (answering_end p sid) = (True, Some (unat sid))"
  "fresh_end (answering_end p sid) []" "ready_end (answering_end p sid)"
  by (simp_all add: answering_end_def channel_ok_def joined_def port_of_def peer_of_def fresh_end_def
      ready_end_def new_chan_def new_window_def)

lemma session_ok_add:
  assumes "session_ok s" "channel_ok c (length (heap s))" "length (heap s) + 2 < 2 ^ 32"
  shows "session_ok (add_end s c)"
  using assms by (auto simp: session_ok_def add_end_def nth_append less_Suc_eq)

lemma session_ok_trans:
  "session_ok s \<Longrightarrow> free_transport t \<Longrightarrow> length (chunks (tin t)) \<le> 1 \<Longrightarrow> session_ok (s\<lparr>trans := t\<rparr>)"
  by (simp add: session_ok_def)

lemma session_ok_say: "session_ok s \<Longrightarrow> session_ok (s\<lparr>trans := (trans s)\<lparr>tout := bs\<rparr>\<rparr>)"
  by (simp add: session_ok_def)

lemma Open_start_eq:
  assumes "session_ok s"
  shows "Open_start s = (None, length (heap s), (add_end s (opening_end (length (heap s))))\<lparr>trans :=
    (trans s)\<lparr>tout := tout (trans s) @ wire (OpenMessage (of_nat (length (heap s))) channelWindowSize channelMaxPacket)\<rparr>\<rparr>)"
proof -
  have "free_transport (trans s)" using assms by (simp add: session_ok_def)
  then show ?thesis
    using session_newChannel [OF assms, of channelOutbound] Encode_free
    by (simp add: Open_start_def Let_def set_chan_def add_end_def opening_end_def new_chan_def del: wire.simps)
qed

lemma open_start_step:
  assumes inv: "net_inv x y ms ns" and o: "Open_start (ses x) = (e, p, s)" and small: "length (heap s) + 1 < 2 ^ 32"
  shows "\<exists>new. net_inv (x\<lparr>ses := s\<rparr>) y (ms @ new) ns"
proof -
  note i = net_invD [OF inv]
  let ?n = "length (channels x)"
  let ?m = "OpenMessage (of_nat ?n) channelWindowSize channelMaxPacket"
  let ?x = "x\<lparr>ses := s\<rparr>"
  have s: "s = (add_end (ses x) (opening_end ?n))\<lparr>trans := (trans (ses x))\<lparr>tout := outgoing x @ wire ?m\<rparr>\<rparr>"
    using o unfolding Open_start_eq [OF i(3)] by blast
  have n: "?n + 2 < 2 ^ 32" "unat (of_nat ?n :: u32) = ?n"
    using small by (simp_all add: s unat_of_nat)
  have "session_ok s" unfolding s
    using session_ok_say [OF session_ok_add [OF i(3) opening_end_facts(1) n(1)]] by simp
  then have side: "side_ok ?x" using i(1) by (auto simp: side_ok_def s nth_append)
  have "hs_of ?x (ms @ [?m]) = (hs_of x ms)\<lparr>ports := ports (hs_of x ms) @ [(False, None)],
      hout := hout (hs_of x ms) @ [HOpen (length (ports (hs_of x ms)))]\<rparr>"
    using n(2) by (simp add: hs_of_def s opening_end_facts(3))
  then have hs: "hs_reachable (hs_of ?x (ms @ [?m])) (hs_of y ns)"
    using hs_left [OF i(13) hs_act.hs_open] by simp
  have "net_inv ?x y (ms @ [?m]) ns"
    by (rule grow_step [where pre = "[]" and c = "opening_end ?n"])
      (use inv side hs opening_end_facts(2,4) i(6) in
        \<open>simp_all add: s flight_def del: wire.simps\<close>)
  then show ?thesis ..
qed

section \<open>Handling an opening\<close>

text \<open>The loop reads the first packet that has arrived.\<close>

lemma flight_next:
  assumes fl: "flight y x ns" and wf: "\<And>m. m \<in> set ns \<Longrightarrow> wf_msg m" and some: "arriving x \<noteq> []"
    and tr: "free_transport (trans (ses x))" "length (chunks (tin (trans (ses x)))) \<le> 1"
  obtains m ns' t where "ns = m # ns'" "onePacket (ses x) = dispatch ((ses x)\<lparr>trans := t\<rparr>) m"
    "free_transport t" "length (chunks (tin t)) \<le> 1" "tout t = outgoing x"
    "\<And>z. arriving z = stream_content (tin t) \<Longrightarrow> flight y z ns'"
proof -
  obtain as bs where ab: "ns = as @ bs" "arriving x = concat (map wire as)" "outgoing y = concat (map wire bs)"
    using fl by (auto simp: flight_def)
  then obtain m as' where as: "as = m # as'" using some by (cases as) auto
  have wf: "wf_msg m" using wf ab(1) as by simp
  let ?t = "trans (ses x)"
  have "\<not> tclosed ?t \<and> length (chunks (tin ?t)) \<le> 1" using tr by (simp add: free_transport_def)
  moreover have "stream_content (tin ?t) = wire m @ concat (map wire as')"
    using ab(2) as by simp
  ultimately obtain t where d: "Decode transport_read ?t = (Ok m, t)"
    and t: "stream_content (tin t) = concat (map wire as')" "\<not> tclosed t \<and> length (chunks (tin t)) \<le> 1"
    using conn.Decode_wire wf by blast
  have fr: "tout t = outgoing x" "free_transport t"
    using Decode_frame [OF d] tr(1) by (auto simp: free_transport_def)
  have fl: "flight y z (as' @ bs)" if "arriving z = stream_content (tin t)" for z
    unfolding flight_def by (intro exI [of _ as'] exI [of _ bs]) (simp add: that t(1) ab(3))
  show ?thesis
  proof (rule that)
    show "ns = m # (as' @ bs)" using ab(1) as by simp
    show "onePacket (ses x) = dispatch ((ses x)\<lparr>trans := t\<rparr>) m" using d by (simp add: onePacket_def)
    show "free_transport t" "tout t = outgoing x" "length (chunks (tin t)) \<le> 1"
      using fr t(2) by simp_all
    show "flight y z (as' @ bs)" if "arriving z = stream_content (tin t)" for z using fl [OF that] .
  qed
qed

lemma next_message:
  assumes inv: "net_inv x y ms ns" and some: "arriving x \<noteq> []"
  obtains m ns' t where "ns = m # ns'" "onePacket (ses x) = dispatch ((ses x)\<lparr>trans := t\<rparr>) m"
    "free_transport t" "length (chunks (tin t)) \<le> 1" "tout t = outgoing x"
    "\<And>z. arriving z = stream_content (tin t) \<Longrightarrow> flight y z ns'" "session_ok ((ses x)\<lparr>trans := t\<rparr>)"
proof -
  note i = net_invD [OF inv]
  have tr: "free_transport (trans (ses x))" "length (chunks (tin (trans (ses x)))) \<le> 1"
    using i(3) by (simp_all add: session_ok_def)
  have wf: "wf_msg m" if "m \<in> set ns" for m using i(8) that msg_ok_wf by (auto simp: list_all_iff)
  from flight_next [OF i(6) wf some tr] obtain m ns' t where
    n: "ns = m # ns'" "onePacket (ses x) = dispatch ((ses x)\<lparr>trans := t\<rparr>) m"
    and t: "free_transport t" "length (chunks (tin t)) \<le> 1" "tout t = outgoing x"
    "\<And>z. arriving z = stream_content (tin t) \<Longrightarrow> flight y z ns'" by blast
  show ?thesis by (rule that [OF n t session_ok_trans [OF i(3) t(1,2)]])
qed

lemma handleOpen_eq:
  assumes "session_ok s"
  shows "dispatch s (OpenMessage sid channelWindowSize channelMaxPacket) =
    enqueue_open (add_end s (answering_end (length (heap s)) sid)) (length (heap s))"
proof -
  let ?n = "length (heap s)"
  let ?s = "s\<lparr>heap := heap s @ [(new_chan channelInbound)\<lparr>localId := of_nat ?n\<rparr>],
      chans := map Some [0..<Suc ?n]\<rparr>"
  have "set_chan ?s ?n ((new_chan channelInbound)\<lparr>localId := of_nat ?n, remoteId := sid,
      maxRemotePayload := channelMaxPacket, remoteWin := snd (window_add (remoteWin (new_chan channelInbound)) channelWindowSize),
      maxIncomingPayload := channelMaxPacket\<rparr>) = add_end s (answering_end ?n sid)"
    by (simp add: set_chan_def add_end_def answering_end_def new_chan_def window_add_def new_window_def)
  then show ?thesis
    using session_newChannel [OF assms, of channelInbound]
    by (simp add: dispatch_def handleOpen_def Let_def)
qed

text \<open>The confirmation a side sends for a channel it has put into its inbox.\<close>

definition confirmation :: "session \<Rightarrow> nat \<Rightarrow> message" where
  "confirmation s p = OpenConfirmMessage (remoteId (heap s ! p)) (localId (heap s ! p)) (myWindow (heap s ! p))
     (maxIncomingPayload (heap s ! p))"

lemma enqueue_open_eq:
  assumes "free_transport (trans s)" "\<not> qclosed (inbox s)" "qcap (inbox s) = chanSize"
  shows "enqueue_open s p =
    (if length (qbuf (inbox s)) < chanSize
     then (Handled None, s\<lparr>inbox := (inbox s)\<lparr>qbuf := qbuf (inbox s) @ [p]\<rparr>,
             trans := (trans s)\<lparr>tout := tout (trans s) @ wire (confirmation s p)\<rparr>\<rparr>)
     else (BlockedInbox p, s))"
  using assms
  by (simp add: enqueue_open_def chan_send_def confirm_open_def confirmation_def Encode_free Let_def
      del: wire.simps)

lemma session_ok_queues:
  "session_ok s \<Longrightarrow> free_transport (trans s) \<and> \<not> qclosed (inbox s) \<and> qcap (inbox s) = chanSize"
  by (simp add: session_ok_def)

lemma session_ok_announce:
  "session_ok s \<Longrightarrow> p < length (heap s) \<Longrightarrow> joined (heap s ! p) \<Longrightarrow>
     session_ok (s\<lparr>inbox := (inbox s)\<lparr>qbuf := qbuf (inbox s) @ [p]\<rparr>, trans := (trans s)\<lparr>tout := bs\<rparr>\<rparr>)"
  by (simp add: session_ok_def)

lemma answer_step:
  assumes inv: "net_inv x y ms (OpenMessage sid ws mp # ns)" and run: "sloop x = Running"
    and t: "session_ok ((ses x)\<lparr>trans := t\<rparr>)" "tout t = outgoing x"
      "\<And>z. arriving z = stream_content (tin t) \<Longrightarrow> flight y z ns"
    and d: "after_packet (dispatch ((ses x)\<lparr>trans := t\<rparr>) (OpenMessage sid ws mp)) = (st, s)"
    and small: "length (heap s) + 1 < 2 ^ 32"
  shows "\<exists>new. net_inv (x\<lparr>sloop := st, ses := s\<rparr>) y (ms @ new) ns"
proof -
  note i = net_invD [OF inv]
  let ?n = "length (channels x)"
  let ?c = "answering_end ?n sid"
  let ?s = "add_end ((ses x)\<lparr>trans := t\<rparr>) ?c"
  let ?x = "x\<lparr>sloop := st, ses := s\<rparr>"
  have "ws = channelWindowSize \<and> mp = channelMaxPacket" using i(8) by simp
  then have eq: "after_packet (enqueue_open ?s ?n) = (st, s)"
    using d handleOpen_eq [OF t(1), of sid] by simp
  have "free_transport (trans ?s)" "\<not> qclosed (inbox ?s)" "qcap (inbox ?s) = chanSize"
    using session_ok_queues [OF t(1)] by simp_all
  note enq = enqueue_open_eq [OF this, of ?n]
  have "length (heap s) = Suc ?n"
    using eq unfolding enq by (auto simp: after_packet_def split: if_splits)
  then have n: "?n + 2 < 2 ^ 32" "unat (of_nat ?n :: u32) = ?n" using small by (simp_all add: unat_of_nat)
  have s: "session_ok ?s"
    using session_ok_add [OF t(1)] answering_end_facts(1) n(1) by simp
  have hd: "handshakes (OpenMessage sid ws mp # ns) = HOpen (unat sid) # handshakes ns" by simp
  have same: "hs_of y ns = (hs_of y (OpenMessage sid ws mp # ns))\<lparr>hout := handshakes ns\<rparr>"
    by (simp add: hs_of_def)
  have park: "parked (hs_of x ms) = None" using run by (simp add: parked_on_def)
  show ?thesis
  proof (cases "length (qbuf (inbox (ses x))) < chanSize")
    case True
    let ?m = "OpenConfirmMessage sid (of_nat ?n) channelWindowSize channelMaxPacket"
    have m: "confirmation ?s ?n = ?m"
      by (simp add: confirmation_def answering_end_def new_chan_def)
    have r: "st = Running" "s = ?s\<lparr>inbox := (inbox ?s)\<lparr>qbuf := qbuf (inbox ?s) @ [?n]\<rparr>,
        trans := t\<lparr>tout := outgoing x @ wire ?m\<rparr>\<rparr>"
      using eq enq True t(2) unfolding m by (simp_all add: after_packet_def)
    have "session_ok s" unfolding r(2)
      using session_ok_announce [OF s, of ?n] answering_end_facts(2) by (simp add: nth_append)
    then have side: "side_ok ?x" using i(1) by (auto simp: side_ok_def r nth_append)
    have "hs_of ?x (ms @ [?m]) = (hs_of x ms)\<lparr>ports := ports (hs_of x ms) @ [(True, Some (unat sid))],
        hout := hout (hs_of x ms) @ [HConfirm (unat sid) (length (ports (hs_of x ms)))]\<rparr>"
      using n(2) run by (simp add: hs_of_def r answering_end_facts(3) parked_on_def)
    then have hs: "hs_reachable (hs_of ?x (ms @ [?m])) (hs_of y ns)"
      using hs_left [OF i(13) hs_act.hs_answer [OF park, of "hs_of y (OpenMessage sid ws mp # ns)" "unat sid"]]
        hd unfolding same by simp
    have "net_inv ?x y (ms @ [?m]) ns"
      by (rule grow_step [where pre = "[OpenMessage sid ws mp]" and c = ?c])
        (use inv side hs answering_end_facts t(3) in \<open>simp_all add: r del: wire.simps\<close>)
    then show ?thesis ..
  next
    case False
    have r: "st = OnInbox ?n" "s = ?s"
      using eq enq False by (simp_all add: after_packet_def)
    have side: "side_ok ?x" using i(1) s by (auto simp: side_ok_def r nth_append)
    have "hs_of ?x (ms @ []) = (hs_of x ms)\<lparr>ports := ports (hs_of x ms) @ [(True, Some (unat sid))],
        parked := Some (length (ports (hs_of x ms)))\<rparr>"
      by (simp add: hs_of_def r answering_end_facts(3) parked_on_def)
    then have hs: "hs_reachable (hs_of ?x (ms @ [])) (hs_of y ns)"
      using hs_left [OF i(13) hs_act.hs_park [OF park, of "hs_of y (OpenMessage sid ws mp # ns)" "unat sid"]]
        hd unfolding same by simp
    have "net_inv ?x y (ms @ []) ns"
      by (rule grow_step [where pre = "[OpenMessage sid ws mp]" and c = ?c])
        (use inv side hs answering_end_facts t(2,3) in \<open>simp_all add: r\<close>)
    then show ?thesis ..
  qed
qed

section \<open>Leaving the queue of the inbox\<close>

text \<open>Announcing a channel changes no stream.\<close>

lemma announce_step:
  assumes inv: "net_inv x y ms ns"
    and x': "channels x' = channels x" "sent_on x' = sent_on x" "read_on x' = read_on x" "side_ok x'"
      "arriving x' = arriving x" "outgoing x' = outgoing x @ concat (map wire new)"
    and hs: "hs_reachable (hs_of x' (ms @ new)) (hs_of y ns)"
    and new: "list_all is_handshake new" "list_all (msg_ok (channels x) (channels y)) new"
  shows "net_inv x' y (ms @ new) ns"
proof -
  note i = net_invD [OF inv]
  have "streams x' y (ms @ new) ns" "streams y x' ns (ms @ new)"
    using i(11,12) no_channel_messages [OF new(1)] by (simp_all add: streams_def x'(1-3))
  moreover have "flight x' y (ms @ new)" by (rule flight_send [OF i(5) x'(6)])
  moreover have "flight y x' ns" by (rule flight_receive [OF i(6) x'(5)]) simp
  ultimately show ?thesis using i(2,7,8) x'(1,4) hs new(2) by (simp add: net_inv_def)
qed

lemma unpark_step:
  assumes inv: "net_inv x y ms ns" and park: "sloop x = OnInbox q"
    and d: "after_packet (enqueue_open (ses x) q) = (st, s)"
  shows "\<exists>new. net_inv (x\<lparr>sloop := st, ses := s\<rparr>) y (ms @ new) ns"
proof -
  note i = net_invD [OF inv]
  let ?x = "x\<lparr>sloop := st, ses := s\<rparr>"
  have h: "half_inv (hs_of x ms) (hs_of y ns)" "half_inv (hs_of y ns) (hs_of x ms)"
    using i(9) by (simp_all add: hs_inv_def)
  have pk: "parked (hs_of x ms) = Some q" using park by (simp add: parked_on_def)
  have q: "q < length (channels x)" "direction (channels x ! q) = channelInbound"
    using half_invD(5) [OF h(1) pk] by auto
  note ok = session_ok_chan [OF i(3) q(1)]
  have j: "joined (channels x ! q)" using ok q(2) by (simp add: channel_ok_def)
  then obtain p where p: "peer_of (channels x ! q) = Some p" by (auto simp: joined_peer)
  have pl: "p < length (channels y)" using peer_lt(1) [OF i(9) q(1) p] .
  have "peer_of (channels y ! p) = None"
    using parked_token [OF h(2) pk, of p] q(1) p pl by (simp add: port_of_def)
  then have fr: "fresh_end (channels x ! q) (read_on x q)"
    by (intro fresh_unless_joined [OF inv q(1) p]) (simp add: joined_peer)
  have m: "confirmation (ses x) q = OpenConfirmMessage (of_nat p) (of_nat q) channelWindowSize channelMaxPacket"
    using ok fr peer_of_bound [OF p] by (simp add: confirmation_def channel_ok_def fresh_end_def)
  note enq = enqueue_open_eq [of "ses x" q]
  show ?thesis
  proof (cases "length (qbuf (inbox (ses x))) < chanSize")
    case True
    let ?m = "OpenConfirmMessage (of_nat p) (of_nat q) channelWindowSize channelMaxPacket"
    have r: "st = Running" "s = (ses x)\<lparr>inbox := (inbox (ses x))\<lparr>qbuf := qbuf (inbox (ses x)) @ [q]\<rparr>,
        trans := (trans (ses x))\<lparr>tout := outgoing x @ wire ?m\<rparr>\<rparr>"
      using d enq session_ok_queues [OF i(3)] True unfolding m by (simp_all add: after_packet_def)
    have "session_ok s" unfolding r(2) using session_ok_announce [OF i(3) q(1) j] .
    then have side: "side_ok ?x" using i(1) by (auto simp: side_ok_def r)
    have "unat (of_nat p :: u32) = p" "unat (of_nat q :: u32) = q"
      using session_ok_small [OF i(4) pl] session_ok_small [OF i(3) q(1)] by (simp_all add: unat_of_nat)
    then have "hs_of ?x (ms @ [?m]) = (hs_of x ms)\<lparr>parked := None, hout := hout (hs_of x ms) @ [HConfirm p q]\<rparr>"
      by (simp add: hs_of_def r parked_on_def)
    then have hs: "hs_reachable (hs_of ?x (ms @ [?m])) (hs_of y ns)"
      using hs_left [OF i(13) hs_act.hs_unpark [OF pk, of p]] q(1) p by simp
    have "net_inv ?x y (ms @ [?m]) ns"
      by (rule announce_step [OF inv]) (use side hs in \<open>simp_all add: r del: wire.simps\<close>)
    then show ?thesis ..
  next
    case False
    then have "st = sloop x" "s = ses x"
      using d enq session_ok_queues [OF i(3)] park by (simp_all add: after_packet_def)
    then have "net_inv ?x y (ms @ []) ns" using inv by simp
    then show ?thesis ..
  qed
qed

section \<open>Handling a confirmation\<close>

text \<open>The opening end once it knows its peer.\<close>

definition confirmed_end :: "channel \<Rightarrow> u32 \<Rightarrow> message \<Rightarrow> channel" where
  "confirmed_end c sid m = c\<lparr>remoteId := sid, maxRemotePayload := channelMaxPacket,
     remoteWin := new_window\<lparr>win := channelWindowSize\<rparr>, msgs := (msgs c)\<lparr>qbuf := [m]\<rparr>\<rparr>"

lemma confirmed_end_facts:
  assumes "channel_ok c p" "\<not> joined c"
  shows "channel_ok (confirmed_end c sid m) p" "joined (confirmed_end c sid m)"
    "port_of (confirmed_end c sid m) = (False, Some (unat sid))" "ready_end (confirmed_end c sid m)"
    "fresh_end (confirmed_end c sid m) g = fresh_end c g"
proof -
  have "direction c = channelOutbound" using assms by (cases "direction c") (auto simp: channel_ok_def)
  then show "channel_ok (confirmed_end c sid m) p" "joined (confirmed_end c sid m)"
    "port_of (confirmed_end c sid m) = (False, Some (unat sid))" "ready_end (confirmed_end c sid m)"
    "fresh_end (confirmed_end c sid m) g = fresh_end c g"
    using assms
    by (simp_all add: confirmed_end_def channel_ok_def joined_def port_of_def peer_of_def ready_end_def
        fresh_end_def new_window_def)
qed

lemma dispatch_confirm_eq:
  assumes s: "session_ok s" and p: "unat cid < length (heap s)" "\<not> joined (heap s ! unat cid)"
    and m: "m = OpenConfirmMessage cid sid channelWindowSize channelMaxPacket"
  shows "dispatch s m = (Handled None, set_chan s (unat cid) (confirmed_end (heap s ! unat cid) sid m))"
proof -
  let ?c = "heap s ! unat cid"
  note ok = session_ok_chan [OF s p(1)]
  then have c: "responseMessageReceived ?c = None" "remoteWin ?c = new_window" "qbuf (msgs ?c) = []"
    "\<not> qclosed (msgs ?c)" "qcap (msgs ?c) = chanSize"
    using p(2) by (auto simp: channel_ok_def responseMessageReceived_def)
  have w: "snd (window_add new_window channelWindowSize) = new_window\<lparr>win := channelWindowSize\<rparr>"
    by (simp add: window_add_def new_window_def)
  show ?thesis
    using session_getChan [OF s, of cid] p(1) c w
    by (simp add: m dispatch_def Let_def deliver_def chan_send_def set_chan_def confirmed_end_def)
qed

lemma confirmed_step:
  assumes inv: "net_inv x y ms (OpenConfirmMessage cid sid ws mp # ns)" and run: "sloop x = Running"
    and t: "session_ok ((ses x)\<lparr>trans := t\<rparr>)" "tout t = outgoing x"
      "\<And>z. arriving z = stream_content (tin t) \<Longrightarrow> flight y z ns"
    and d: "after_packet (dispatch ((ses x)\<lparr>trans := t\<rparr>) (OpenConfirmMessage cid sid ws mp)) = (st, s)"
  shows "net_inv (x\<lparr>sloop := st, ses := s\<rparr>) y ms ns"
proof -
  let ?m = "OpenConfirmMessage cid sid ws mp"
  note i = net_invD [OF inv]
  note sx = streamsD [OF i(11)] and sy = streamsD [OF i(12)]
  let ?p = "unat cid" and ?q = "unat sid"
  define c where "c = channels x ! ?p"
  let ?c = "confirmed_end c sid ?m"
  let ?x = "x\<lparr>sloop := st, ses := s\<rparr>"
  have h: "half_inv (hs_of x ms) (hs_of y (?m # ns))" "half_inv (hs_of y (?m # ns)) (hs_of x ms)"
    using i(9) by (simp_all add: hs_inv_def)
  have hd: "hout (hs_of y (?m # ns)) = HConfirm ?p ?q # handshakes ns" by simp
  have q: "?q < length (channels y)" "peer_of (channels y ! ?q) = Some ?p"
    using half_invD(4) [OF h(2), of ?p ?q] hd by (auto simp: port_of_def)
  have p: "?p < length (channels x)" using peer_lt(1) [OF i(10) q] .
  have nj: "\<not> joined c" "peer_of c = None"
    using confirm_token [OF h(1), of ?p ?q] hd p by (auto simp: port_of_def joined_peer c_def)
  note ok = session_ok_chan [OF i(3) p, folded c_def]
  note new = confirmed_end_facts [OF ok nj(1), of sid ?m]
  have "ws = channelWindowSize \<and> mp = channelMaxPacket" using i(8) by simp
  then have "dispatch ((ses x)\<lparr>trans := t\<rparr>) ?m = (Handled None, set_chan ((ses x)\<lparr>trans := t\<rparr>) ?p ?c)"
    using dispatch_confirm_eq [OF t(1), of cid ?m sid] p nj(1) by (simp add: c_def)
  then have r: "st = Running" "s = set_chan ((ses x)\<lparr>trans := t\<rparr>) ?p ?c"
    using d by (simp_all add: after_packet_def)
  have len: "length (channels ?x) = length (channels x)" by (simp add: r)
  have nth: "channels ?x ! k = (if k = ?p then ?c else channels x ! k)" if "k < length (channels x)" for k
    using that by (simp add: r)
  have "session_ok s"
    using t(1) new(1,2) p unfolding r(2)
    by (auto simp: session_ok_def set_chan_def nth_list_update)
  then have side: "side_ok ?x" using i(1) new(2) p by (auto simp: side_ok_def r nth_list_update)
  have "hs_of ?x ms = (hs_of x ms)\<lparr>ports := (ports (hs_of x ms))[?p := (False, Some ?q)]\<rparr>"
    using new(3) run by (simp add: hs_of_def r map_update parked_on_def)
  moreover have same: "hs_of y ns = (hs_of y (?m # ns))\<lparr>hout := handshakes ns\<rparr>" by (simp add: hs_of_def)
  moreover have "parked (hs_of x ms) = None" using run by (simp add: parked_on_def)
  ultimately have hs: "hs_reachable (hs_of ?x ms) (hs_of y ns)"
    using hs_left [OF i(13) hs_act.hs_confirmed [OF _ hd]] unfolding same by simp
  have none: "peer_of (channels x ! k) \<noteq> Some ?q" if "k < length (channels x)" for k
  proof
    assume k: "peer_of (channels x ! k) = Some ?q"
    have "k = ?p"
    proof (rule peers_unique [OF hs_reachable_inv [OF hs], of k ?p ?q])
      show "peer_of (channels ?x ! k) = Some ?q" using k nth [OF that] new(3) by (simp add: port_of_def)
      show "peer_of (channels ?x ! ?p) = Some ?q" using nth [OF p] new(3) by (simp add: port_of_def)
    qed (use that p len in simp_all)
    with k nj(2) show False by (simp add: c_def)
  qed
  have mono: "k < length (channels x) \<Longrightarrow> joined (channels x ! k) \<Longrightarrow>
      k < length (channels ?x) \<and> joined (channels ?x ! k) \<and> remoteId (channels ?x ! k) = remoteId (channels x ! k)" for k
    using nj(1) nth [of k] len by (auto simp: c_def)
  have okms: "msg_ok (channels ?x) (channels y) m" if "m \<in> set ms" for m
  proof (rule msg_ok_mono)
    show "msg_ok (channels x) (channels y) m" using i(7) that by (simp add: list_all_iff)
  qed (use mono in simp_all)
  have okns: "msg_ok (channels y) (channels ?x) m" if "m \<in> set ns" for m
  proof (rule msg_ok_mono)
    show "msg_ok (channels y) (channels x) m" using i(8) that by (simp add: list_all_iff)
  qed (use mono in simp_all)
  have "streams ?x y ms ns"
  proof (rule streamsI)
    fix k r assume k: "k < length (channels ?x)" and pk: "peer_of (channels ?x ! k) = Some r"
    show "link (channels ?x ! k) (channels y ! r) (stream_for (of_nat r) ms) (updates_for (of_nat k) ns)
        (sent_on ?x k) (read_on y r)"
    proof (cases "k = ?p")
      case False
      then have k': "k < length (channels x)" "peer_of (channels x ! k) = Some r"
        using k pk nth [of k] len by simp_all
      from sx(1) [OF k'] False nth [OF k'(1)] show ?thesis by simp
    next
      case True
      then have r: "r = ?q" using pk nth [OF p] new(3) by (simp add: port_of_def)
      have fr: "fresh_end (channels y ! ?q) (read_on y ?q)" using sx(4) [OF q(1) none] by blast
      have "stream_for (of_nat ?q) ms = []" by (rule stream_for_ok [OF i(7) none]) (use u32_lt in auto)
      moreover have "updates_for (of_nat ?p) ns = []"
        by (rule updates_for_ok [of "channels y" "channels x"]) (use i(8) nj u32_lt in \<open>auto simp: c_def\<close>)
      moreover have "link ?c (channels y ! ?q) [] [] [] []"
        by (rule link_start [OF new(1) session_ok_chan [OF i(4) q(1)] new(2,4) fr])
      moreover have "sent_on x ?p = []" using sx(2) [OF p] nj(2) by (simp add: c_def)
      ultimately show ?thesis using True r nth [OF p] fr by (simp add: fresh_end_def)
    qed
  next
    fix k assume "k < length (channels ?x)" "peer_of (channels ?x ! k) = None"
    then show "sent_on ?x k = []" using sx(2) [of k] nth [of k] len new(3) by (auto simp: port_of_def split: if_splits)
  next
    fix k assume "length (channels ?x) \<le> k"
    then show "sent_on ?x k = []" using sx(3) [of k] len by simp
  next
    fix r assume r: "r < length (channels y)"
      and no: "\<And>k. k < length (channels ?x) \<Longrightarrow> peer_of (channels ?x ! k) \<noteq> Some r"
    show "fresh_end (channels y ! r) (read_on y r)"
    proof (rule sx(4) [OF r])
      fix k assume k: "k < length (channels x)"
      show "peer_of (channels x ! k) \<noteq> Some r"
        using no [unfolded len, OF k] nj(2) unfolding nth [OF k] by (auto simp: c_def split: if_splits)
    qed
  qed (rule sx(5))
  moreover have "streams y ?x ns ms"
  proof (rule streamsI)
    fix r k assume r: "r < length (channels y)" "peer_of (channels y ! r) = Some k"
    have k: "k < length (channels x)" using peer_lt(1) [OF i(10) r] .
    have l: "link (channels y ! r) (channels x ! k) (stream_for (of_nat k) ns) (updates_for (of_nat r) ms)
        (sent_on y r) (read_on ?x k)"
      using sy(1) [OF r] by simp
    show "link (channels y ! r) (channels ?x ! k) (stream_for (of_nat k) ns) (updates_for (of_nat r) ms)
        (sent_on y r) (read_on ?x k)"
      unfolding nth [OF k] by (rule link_cong [OF l]) (auto simp: confirmed_end_def c_def)
  next
    fix k assume k: "k < length (channels ?x)"
      and no: "\<And>r. r < length (channels y) \<Longrightarrow> peer_of (channels y ! r) \<noteq> Some k"
    then have "fresh_end (channels x ! k) (read_on x k)" using sy(4) [of k] len by simp
    then show "fresh_end (channels ?x ! k) (read_on ?x k)"
      using new(5) nth [of k] k len by (auto simp: c_def)
  next
    fix k assume "length (channels ?x) \<le> k"
    then show "read_on ?x k = []" using sy(5) [of k] len by simp
  qed (use sy(2,3) in blast)+
  moreover have "flight ?x y ms" by (rule flight_receive [OF i(5)]) (simp_all add: r t(2))
  moreover have "flight y ?x ns" by (rule t(3)) (simp add: r)
  ultimately show ?thesis
    using i(2) hs side okms okns by (simp add: net_inv_def list_all_iff)
qed

section \<open>Every step keeps the invariant\<close>

lemma packet_step:
  assumes inv: "net_inv x y ms ns" and some: "sloop x = Running \<longrightarrow> arriving x \<noteq> []"
    and d: "loop_step (sloop x, ses x) = (st, s)" and small: "length (heap s) + 1 < 2 ^ 32"
  shows "\<exists>new ns'. net_inv (x\<lparr>sloop := st, ses := s\<rparr>) y (ms @ new) ns'"
proof -
  note i = net_invD [OF inv]
  from i(1) consider (run) "sloop x = Running" | (park) q where "sloop x = OnInbox q"
    by (auto simp: side_ok_def)
  then show ?thesis
  proof cases
    case park
    then show ?thesis using unpark_step [OF inv park] d by auto
  next
    case run
    obtain m ns' t where m: "ns = m # ns'" "onePacket (ses x) = dispatch ((ses x)\<lparr>trans := t\<rparr>) m"
      and t: "free_transport t" "length (chunks (tin t)) \<le> 1" "tout t = outgoing x"
        "\<And>z. arriving z = stream_content (tin t) \<Longrightarrow> flight y z ns'" "session_ok ((ses x)\<lparr>trans := t\<rparr>)"
      using next_message [OF inv] some run by metis
    have d': "after_packet (dispatch ((ses x)\<lparr>trans := t\<rparr>) m) = (st, s)" using d run m(2) by simp
    note inv' = inv [unfolded m(1)]
    show ?thesis
    proof (cases "\<exists>j. of_channel j m")
      case True
      then obtain j where j: "of_channel j m" by blast
      obtain c' where c': "dispatch ((ses x)\<lparr>trans := t\<rparr>) m
            = (Handled None, set_chan ((ses x)\<lparr>trans := t\<rparr>) (unat j) c')"
        "net_inv (after_stream x t (unat j) c') y ms ns'"
        using stream_step [OF inv' j t(1-4)] by blast
      then have "st = Running" "s = set_chan ((ses x)\<lparr>trans := t\<rparr>) (unat j) c'"
        using d' by (simp_all add: after_packet_def)
      then have "x\<lparr>sloop := st, ses := s\<rparr> = after_stream x t (unat j) c'"
        using run by (simp add: after_stream_def)
      then have "net_inv (x\<lparr>sloop := st, ses := s\<rparr>) y (ms @ []) ns'" using c'(2) by simp
      then show ?thesis by blast
    next
      case False
      have "msg_ok (channels y) (channels x) m" using i(8) m(1) by simp
      with False consider (op) sid ws mp where "m = OpenMessage sid ws mp"
        | (co) cid sid ws mp where "m = OpenConfirmMessage cid sid ws mp"
        by (cases m) auto
      then show ?thesis
      proof cases
        case op
        then show ?thesis using answer_step [OF inv' [unfolded op] run t(5,3,4) d' [unfolded op] small] by blast
      next
        case co
        have "net_inv (x\<lparr>sloop := st, ses := s\<rparr>) y (ms @ []) ns'"
          using confirmed_step [OF inv' [unfolded co] run t(5,3,4) d' [unfolded co]] by simp
        then show ?thesis by blast
      qed
    qed
  qed
qed

lemma side_step_inv:
  assumes "net_inv x y ms ns" "side_step x x'"
  shows "\<exists>new ns'. net_inv x' y (ms @ new) ns'"
  using assms(2)
proof (cases rule: side_step.cases)
  case (packet st s)
  then show ?thesis using packet_step [OF assms(1)] by blast
next
  case (open_start e p s)
  then show ?thesis using open_start_step [OF assms(1)] by blast
next
  case (open_finish p ctx r s)
  then have "net_inv x' y (ms @ []) ns" using open_finish_step [OF assms(1)] by simp
  then show ?thesis by blast
next
  case (accept b r s)
  then have "net_inv x' y (ms @ []) ns" using accept_step [OF assms(1)] by simp
  then show ?thesis by blast
next
  case (read p n r s)
  then show ?thesis using read_step [OF assms(1)] by blast
next
  case (write_some p data n r s)
  then show ?thesis using write_step [OF assms(1)] by blast
next
  case (close_write p e s)
  then show ?thesis using close_write_step [OF assms(1)] by blast
qed

text \<open>The network moves a packet.\<close>

lemma flight_carry:
  assumes fl: "flight x y ms" and wf: "\<And>m. m \<in> set ms \<Longrightarrow> wf_msg m" and np: "next_packet (trans (ses x)) = Some (m, t)"
  shows "flight (take_off x t) (hand_over y m) ms \<and> (\<exists>bs. t = (trans (ses x))\<lparr>tout := bs\<rparr>)"
proof -
  obtain as bs where ab: "ms = as @ bs" "arriving y = concat (map wire as)" "outgoing x = concat (map wire bs)"
    using fl by (auto simp: flight_def)
  have "bs \<noteq> []" using np ab(3) next_packet_empty by (cases bs) auto
  then obtain b bs' where bs: "bs = b # bs'" by (cases bs) auto
  have "wf_msg b" using wf ab(1) bs by simp
  then have mt: "m = b" "t = (trans (ses x))\<lparr>tout := concat (map wire bs')\<rparr>"
    using next_packet_wire [OF ab(3) [unfolded bs]] np by simp_all
  have "ms = (as @ [b]) @ bs' \<and> arriving (hand_over y m) = concat (map wire (as @ [b]))
      \<and> outgoing (take_off x t) = concat (map wire bs')"
    using ab bs mt by (simp add: take_off_def hand_over_def stream_content_def del: wire.simps)
  then show ?thesis using mt(2) unfolding flight_def by blast
qed

lemma carry_inv:
  assumes inv: "net_inv x y ms ns" and np: "next_packet (trans (ses x)) = Some (m, t)"
  shows "net_inv (take_off x t) (hand_over y m) ms ns"
proof -
  note i = net_invD [OF inv]
  have wf: "wf_msg m" if "m \<in> set ms" for m using i(7) that msg_ok_wf by (auto simp: list_all_iff)
  obtain bs where f: "flight (take_off x t) (hand_over y m) ms" and mt: "t = (trans (ses x))\<lparr>tout := bs\<rparr>"
    using flight_carry [OF i(5) wf np] by blast
  have g: "flight (hand_over y m) (take_off x t) ns"
    by (rule flight_receive [OF i(6)]) (simp_all add: mt take_off_def hand_over_def)
  have "side_ok (take_off x t)" "side_ok (hand_over y m)"
    using i(1,2) by (simp_all add: side_ok_def session_ok_def take_off_def hand_over_def mt free_transport_def)
  with f g inv show ?thesis
    by (simp add: net_inv_def hs_of_def streams_def take_off_def hand_over_def)
qed

lemma net_start: "net_inv side_start side_start [] []"
proof -
  have "side_ok side_start"
    by (simp add: side_ok_def session_ok_def side_start_def session_New_def free_transport_def)
  moreover have "hs_reachable (hs_of side_start []) (hs_of side_start [])"
    using hs_reachable.hs_start
    by (simp add: hs_of_def side_start_def session_New_def parked_on_def)
  ultimately show ?thesis
    by (simp add: net_inv_def flight_def streams_def side_start_def session_New_def stream_content_def)
qed

lemma net_reachable_inv: "net_reachable c \<Longrightarrow> \<exists>ms ns. net_inv (fst c) (snd c) ms ns"
proof (induction rule: net_reachable.induct)
  case start
  show ?case using net_start by auto
next
  case (step c c')
  then obtain ms ns where inv: "net_inv (fst c) (snd c) ms ns" by blast
  from step.hyps(2) show ?case
  proof (cases rule: net_step.cases)
    case (left x x' y)
    then show ?thesis using side_step_inv [of x y ms ns x'] inv by auto
  next
    case (right y y' x)
    then show ?thesis using side_step_inv [of y x ns ms y'] inv net_inv_sym by (metis fst_conv snd_conv)
  next
    case (carry_right x m t y)
    then show ?thesis using carry_inv [of x y ms ns m t] inv by auto
  next
    case (carry_left y m t x)
    then show ?thesis using carry_inv [of y x ns ms m t] inv net_inv_sym by (metis fst_conv snd_conv)
  qed
qed

end
