(* ===== verification/SessionNetProps.thy ===== *)
theory SessionNetProps
  imports SessionNetOpen
begin

text \<open>
  What the two connected sessions of SessionNet guarantee in every reachable state, and a run to apply
  it to: one side opens a channel, the other answers, accepts and writes to it.
\<close>

section \<open>A run\<close>

definition open_on :: "side \<Rightarrow> side" where
  "open_on x = x\<lparr>ses := snd (snd (Open_start (ses x)))\<rparr>"

definition handle_on :: "side \<Rightarrow> side" where
  "handle_on x = (case loop_step (sloop x, ses x) of (st, s) \<Rightarrow> x\<lparr>sloop := st, ses := s\<rparr>)"

definition accept_on :: "side \<Rightarrow> side" where
  "accept_on x = (case Accept (ses x) True of (r, s) \<Rightarrow> x\<lparr>ses := s, owned := owned x \<union> obtained r\<rparr>)"

definition finish_on :: "side \<Rightarrow> side" where
  "finish_on x = (case Open_finish (ses x) 0 None of (r, s) \<Rightarrow> x\<lparr>ses := s, owned := owned x \<union> obtained r\<rparr>)"

definition write_on :: "side \<Rightarrow> nat \<Rightarrow> bytes \<Rightarrow> side" where
  "write_on x p data = (case s_write_iter (ses x) p data 0 of (r, s) \<Rightarrow>
     x\<lparr>ses := s, sent_on := (sent_on x)(p := sent_on x p
       @ (case r of WContinue data' n' \<Rightarrow> take (n' - 0) data | _ \<Rightarrow> []))\<rparr>)"

fun carry :: "side \<times> side \<Rightarrow> side \<times> side" where
  "carry (x, y) = (case next_packet (trans (ses x)) of
     Some (m, t) \<Rightarrow> (take_off x t, hand_over y m) | None \<Rightarrow> (x, y))"

fun turn :: "side \<times> side \<Rightarrow> side \<times> side" where
  "turn (x, y) = (y, x)"

lemma net_reachable_sym: "net_reachable (x, y) \<Longrightarrow> net_reachable (y, x)"
proof (induction "(x, y)" arbitrary: x y rule: net_reachable.induct)
  case start
  show ?case by (rule net_reachable.start)
next
  case (step c x' y')
  obtain x y where c: "c = (x, y)" by (cases c)
  have "net_step (y, x) (y', x')"
    using step.hyps(3) unfolding c by (cases rule: net_step.cases) (auto intro: net_step.intros)
  with step.hyps(2) [OF c] show ?case by (rule net_reachable.step)
qed

lemma run_steps:
  assumes "net_reachable (x, y)"
  shows "length (channels (open_on x)) + 1 < 2 ^ 32 \<Longrightarrow> net_reachable (open_on x, y)"
    and "net_reachable (carry (x, y))"
    and "(sloop x = Running \<longrightarrow> arriving x \<noteq> []) \<Longrightarrow> length (channels (handle_on x)) + 1 < 2 ^ 32 \<Longrightarrow>
      net_reachable (handle_on x, y)"
    and "net_reachable (accept_on x, y)"
    and "p \<in> owned x \<Longrightarrow> \<not> sentEOF (channels x ! p) \<Longrightarrow> data \<noteq> [] \<Longrightarrow> length data < 2 ^ 32 \<Longrightarrow>
      net_reachable (write_on x p data, y)"
    and "0 < length (channels x) \<Longrightarrow> net_reachable (finish_on x, y)"
proof -
  note go = net_reachable.step [OF assms]
  show "net_reachable (open_on x, y)" if "length (channels (open_on x)) + 1 < 2 ^ 32"
    by (rule go [OF net_step.left])
      (use that side_step.open_start [of x] in \<open>simp add: open_on_def, metis prod.collapse\<close>)
  show "net_reachable (carry (x, y))"
    using assms go [OF net_step.carry_right] by (auto split: option.split)
  show "net_reachable (handle_on x, y)"
    if "sloop x = Running \<longrightarrow> arriving x \<noteq> []" "length (channels (handle_on x)) + 1 < 2 ^ 32"
    using that go [OF net_step.left [OF side_step.packet]] by (auto simp: handle_on_def split: prod.splits)
  show "net_reachable (accept_on x, y)"
    using go [OF net_step.left [OF side_step.accept]] by (auto simp: accept_on_def split: prod.splits)
  show "net_reachable (finish_on x, y)" if "0 < length (channels x)"
    using that go [OF net_step.left [OF side_step.open_finish [of 0]]]
    by (auto simp: finish_on_def split: prod.splits)
  show "net_reachable (write_on x p data, y)"
    if "p \<in> owned x" "\<not> sentEOF (channels x ! p)" "data \<noteq> []" "length data < 2 ^ 32"
    using that go [OF net_step.left [OF side_step.write_some [of p x data 0]]]
    by (auto simp: write_on_def split: prod.splits)
qed

text \<open>The steps on the left side of a pair, with their conditions.\<close>

fun can_handle :: "side \<times> side \<Rightarrow> bool" where
  "can_handle (x, y) \<longleftrightarrow> (sloop x = Running \<longrightarrow> arriving x \<noteq> []) \<and> length (channels (handle_on x)) = 1"

fun handle_left :: "side \<times> side \<Rightarrow> side \<times> side" where
  "handle_left (x, y) = (handle_on x, y)"

fun can_write :: "side \<times> side \<Rightarrow> bool" where
  "can_write (x, y) \<longleftrightarrow> 0 \<in> owned x \<and> \<not> sentEOF (channels x ! 0)"

fun write_left :: "side \<times> side \<Rightarrow> side \<times> side" where
  "write_left (x, y) = (write_on x 0 [1, 2, 3], y)"

fun accept_left :: "side \<times> side \<Rightarrow> side \<times> side" where
  "accept_left (x, y) = (accept_on x, y)"

lemma left_steps:
  assumes "net_reachable c"
  shows "net_reachable (carry c)" "net_reachable (turn c)" "net_reachable (accept_left c)"
    "can_handle c \<Longrightarrow> net_reachable (handle_left c)" "can_write c \<Longrightarrow> net_reachable (write_left c)"
proof -
  obtain x y where c: "c = (x, y)" by (cases c)
  note r = run_steps [OF assms [unfolded c]] and t = net_reachable_sym [OF assms [unfolded c]]
  show "net_reachable (carry c)" "net_reachable (turn c)" "net_reachable (accept_left c)"
    using r(2,4) t unfolding c turn.simps accept_left.simps by blast+
  show "net_reachable (handle_left c)" if "can_handle c" using that r(3) by (simp add: c)
  show "net_reachable (write_left c)" if "can_write c" using that r(5) by (simp add: c)
qed

text \<open>
  \<open>asked\<close>: the opening has arrived.  \<open>answered\<close>: it has been handled, and the channel accepted and written to.
  \<open>confirmed\<close>: the confirmation has arrived and been handled; \<open>quiet\<close>: the data too.
\<close>

definition asked :: "side \<times> side" where
  "asked = turn (carry (open_on side_start, side_start))"

definition answered :: "side \<times> side" where
  "answered = write_left (accept_left (handle_left asked))"

definition confirmed :: "side \<times> side" where
  "confirmed = turn (carry answered)"

definition quiet :: "side \<times> side" where
  "quiet = turn (handle_left (turn (carry (turn (handle_left confirmed)))))"

lemma asked_ok: "length (channels (open_on side_start)) = 1 \<and> can_handle asked"
  by code_simp

lemma answered_ok: "can_write (accept_left (handle_left asked))"
  by code_simp

lemma confirmed_ok: "can_handle confirmed"
  by code_simp

lemma quiet_ok: "can_handle (turn (carry (turn (handle_left confirmed))))"
  by code_simp

lemma answered_reachable: "net_reachable answered"
proof -
  have "net_reachable (open_on side_start, side_start)"
    using run_steps(1) [OF net_reachable.start] asked_ok by simp
  then have "net_reachable asked" unfolding asked_def by (intro left_steps)
  then show ?thesis unfolding answered_def using asked_ok answered_ok by (intro left_steps) blast+
qed

lemma quiet_reachable: "net_reachable quiet"
proof -
  have "net_reachable confirmed" unfolding confirmed_def using answered_reachable by (intro left_steps)
  then show ?thesis unfolding quiet_def using confirmed_ok quiet_ok by (intro left_steps) blast+
qed

text \<open>The opener takes its channel, too.\<close>

fun finish_left :: "side \<times> side \<Rightarrow> side \<times> side" where
  "finish_left (x, y) = (finish_on x, y)"

definition both_hold :: "side \<times> side" where
  "both_hold = finish_left (handle_left confirmed)"

fun hold_ends :: "side \<times> side \<Rightarrow> bool" where
  "hold_ends (x, y) \<longleftrightarrow> 0 \<in> owned x \<and> 0 \<in> owned y \<and> peer_of (channels x ! 0) = Some 0"

lemma both_hold_facts: "hold_ends both_hold"
  by code_simp

lemma some_channel: "0 < length (channels (fst (handle_left confirmed)))"
  by code_simp

lemma both_hold_reachable: "net_reachable both_hold"
proof -
  have "net_reachable confirmed" unfolding confirmed_def using answered_reachable by (intro left_steps)
  then have r: "net_reachable (handle_left confirmed)" using confirmed_ok left_steps by blast
  obtain x y where h: "handle_left confirmed = (x, y)" by (cases "handle_left confirmed")
  have "0 < length (channels x)" using some_channel unfolding h fst_conv .
  from run_steps(6) [OF r [unfolded h] this] show ?thesis by (simp add: both_hold_def h)
qed

lemma answered_facts:
  "sent_on (fst answered) 0 = [1, 2, 3] \<and> peer_of (channels (fst answered) ! 0) = Some 0
    \<and> length (channels (fst answered)) = 1"
  by code_simp

fun is_quiet :: "side \<times> side \<Rightarrow> bool" where
  "is_quiet (x, y) \<longleftrightarrow> outgoing x = [] \<and> arriving y = [] \<and> outgoing y = [] \<and> arriving x = []
     \<and> length (channels x) = 1 \<and> peer_of (channels x ! 0) = Some 0
     \<and> sent_on x 0 = [1, 2, 3] \<and> read_on y 0 = []"

lemma quiet_facts: "is_quiet quiet"
  by code_simp

section \<open>Properties\<close>

text \<open>
  Two sessions that run this code never bring each other down: however many channels both sides open, and however
  opening, accepting, writing, reading, half-closing, the two receive loops and the network interleave, no
  packet makes a loop return, panic or park for ever on a channel's queue: each loop reads packets, or
  waits for room in its inbox, which an \<open>Accept\<close> makes.
\<close>

theorem sessions_never_fail:
  assumes "net_reachable (x, y)"
  shows "serr (ses x) = None \<and> \<not> tclosed (trans (ses x)) \<and> (sloop x = Running \<or> (\<exists>q. sloop x = OnInbox q))
    \<and> serr (ses y) = None \<and> \<not> tclosed (trans (ses y)) \<and> (sloop y = Running \<or> (\<exists>q. sloop y = OnInbox q))"
  using net_reachable_inv [OF assms] by (auto simp: net_inv_def side_ok_def session_ok_def free_transport_def)

theorem sessions_never_fail_witness: "serr (ses (fst quiet)) = None \<and> serr (ses (snd quiet)) = None"
  using sessions_never_fail [of "fst quiet" "snd quiet"] quiet_reachable by simp

text \<open>
  The streams of all channels of two sessions are in order, complete and separate: what has been written to a
  channel is what the channel it is connected to has returned, then what waits in its buffer, then
  what is in the packets for it that are on their way; the credit of the writer, those bytes and the window
  updates on their way back make up one window.  No byte of one channel ever reaches another.
\<close>

theorem all_streams_in_order:
  assumes "net_reachable (x, y)" "p < length (channels x)" "peer_of (channels x ! p) = Some q"
  shows "\<exists>ms ns. flight x y ms \<and> flight y x ns \<and> q < length (channels y)
    \<and> sent_on x p = read_on y q @ buffer_content (pending (channels y ! q))
        @ concat (map payload (stream_for (of_nat q) ms))
    \<and> unat (win (remoteWin (channels x ! p))) + length (concat (map payload (stream_for (of_nat q) ms)))
        + length (buffer_content (pending (channels y ! q)))
        + sum_list (map adjustment (updates_for (of_nat p) ns)) = 2097152"
proof -
  obtain ms ns where inv: "net_inv x y ms ns" using net_reachable_inv [OF assms(1)] by auto
  note i = net_invD [OF inv]
  note l = streamsD(1) [OF i(11) assms(2,3)]
  show ?thesis
    using i(5,6) peer_lt(1) [OF i(9) assms(2,3)] link_stream(1,2) [OF l]
    by (intro exI [of _ ms] exI [of _ ns]) (simp add: full_window_def)
qed

theorem all_streams_in_order_witness: "\<exists>rest. [1, 2, 3] = read_on (snd answered) 0 @ rest"
proof -
  note f = answered_facts
  have "net_reachable (fst answered, snd answered)" "0 < length (channels (fst answered))"
    "peer_of (channels (fst answered) ! 0) = Some 0" using f answered_reachable by auto
  from all_streams_in_order [OF this] f show ?thesis by auto
qed

text \<open>
  Nothing is lost between two sessions: when no packet is on its way between them, everything that has been
  written to a channel has been read from the channel it is connected to or waits in its buffer, and the
  writer is short of exactly the credit for the bytes that wait: it can be held up only by a reader that
  does not read.
\<close>

theorem quiet_network_delivered:
  assumes "net_reachable (x, y)" "p < length (channels x)" "peer_of (channels x ! p) = Some q"
    and "outgoing x = []" "arriving y = []" "outgoing y = []" "arriving x = []"
  shows "sent_on x p = read_on y q @ buffer_content (pending (channels y ! q))
    \<and> unat (win (remoteWin (channels x ! p))) = 2097152 - length (buffer_content (pending (channels y ! q)))
    \<and> (sentEOF (channels x ! p) \<longleftrightarrow> bclosed (pending (channels y ! q)))"
proof -
  obtain ms ns where inv: "net_inv x y ms ns" using net_reachable_inv [OF assms(1)] by auto
  note i = net_invD [OF inv]
  note l = streamsD(1) [OF i(11) assms(2,3)]
  have "ms = []" "ns = []"
    using i(5,6) assms(4-7) by (auto simp: flight_def concat_eq_Nil_conv simp del: wire.simps)
  then show ?thesis
    using link_stream(1,2) [OF l] link_quiet_eof l by (simp add: full_window_def)
qed

theorem quiet_network_delivered_witness: "buffer_content (pending (channels (snd quiet) ! 0)) = [1, 2, 3]"
proof -
  obtain x y where q: "quiet = (x, y)" by (cases quiet)
  have f: "is_quiet (x, y)" using quiet_facts q by simp
  have "net_reachable (x, y)" using quiet_reachable q by simp
  moreover have "0 < length (channels x)" "peer_of (channels x ! 0) = Some 0" using f by auto
  moreover have "outgoing x = []" "arriving y = []" "outgoing y = []" "arriving x = []"
    using f unfolding is_quiet.simps by blast+
  ultimately have "sent_on x 0 = read_on y 0 @ buffer_content (pending (channels y ! 0))"
    using quiet_network_delivered by blast
  moreover have "sent_on x 0 = [1, 2, 3]" "read_on y 0 = []" using f unfolding is_quiet.simps by blast+
  ultimately show ?thesis by (simp add: q)
qed

text \<open>
  Both sessions stay well formed: every id in a channel table is the index of the channel that bears it, every
  pointer in an inbox and every pointer user code has been given is a channel whose peer is known, and
  that peer is a channel of the other session, opened by the other side if this side answered, and
  the other way round.
\<close>

theorem sessions_well_formed:
  assumes "net_reachable (x, y)"
  shows "(\<forall>i p. getChan (chans (ses x)) i = Some p \<longleftrightarrow> p < length (channels x) \<and> unat i = p)
    \<and> (\<forall>p < length (channels x). localId (channels x ! p) = of_nat p)
    \<and> (\<forall>p \<in> owned x \<union> set (qbuf (inbox (ses x))). p < length (channels x)
        \<and> (\<exists>q. peer_of (channels x ! p) = Some q \<and> q < length (channels y)
            \<and> direction (channels y ! q) \<noteq> direction (channels x ! p)))"
proof -
  obtain ms ns where inv: "net_inv x y ms ns" using net_reachable_inv [OF assms] by auto
  note i = net_invD [OF inv]
  have peers: "\<exists>q. peer_of (channels x ! p) = Some q \<and> q < length (channels y)
      \<and> direction (channels y ! q) \<noteq> direction (channels x ! p)"
    if p: "p < length (channels x)" "joined (channels x ! p)" for p
  proof -
    obtain q where q: "peer_of (channels x ! p) = Some q" using p(2) by (auto simp: joined_peer)
    have "half_inv (hs_of x ms) (hs_of y ns)" using i(9) by (simp add: hs_inv_def)
    from half_invD(6) [OF this, of p q] p(1) q show ?thesis by auto
  qed
  have "getChan (chans (ses x)) k = Some p \<longleftrightarrow> p < length (channels x) \<and> unat k = p" for k p
    using session_getChan [OF i(3), of k] by auto
  moreover have "localId (channels x ! p) = of_nat p" if "p < length (channels x)" for p
    using session_ok_chan [OF i(3) that] by (simp add: channel_ok_def)
  moreover have "p < length (channels x) \<and> joined (channels x ! p)" if "p \<in> owned x \<union> set (qbuf (inbox (ses x)))" for p
    using i(1,3) that by (auto simp: side_ok_def session_ok_def)
  ultimately show ?thesis using peers by blast
qed

theorem sessions_well_formed_witness: "localId (channels (fst answered) ! 0) = 0"
  using sessions_well_formed [of "fst answered" "snd answered"] answered_reachable answered_facts by auto

text \<open>
  The two ends of a channel name each other and nobody else: if both users hold their end of a connection,
  each end has the id of the other, and no other channel of either side has it.
\<close>

theorem channel_ends_agree:
  assumes "net_reachable (x, y)" "p \<in> owned x" "peer_of (channels x ! p) = Some q" "q \<in> owned y"
  shows "peer_of (channels y ! q) = Some p
    \<and> (\<forall>p' < length (channels x). peer_of (channels x ! p') = Some q \<longrightarrow> p' = p)
    \<and> (\<forall>q' < length (channels y). peer_of (channels y ! q') = Some p \<longrightarrow> q' = q)"
proof -
  obtain ms ns where inv: "net_inv x y ms ns" using net_reachable_inv [OF assms(1)] by auto
  note i = net_invD [OF inv]
  have p: "p < length (channels x)" and q: "q < length (channels y)" "joined (channels y ! q)"
    using i(1,2) assms(2,4) by (auto simp: side_ok_def)
  have b: "peer_of (channels y ! q) = Some p" using peer_back [OF i(9) p assms(3) q(2)] .
  then show ?thesis
    using peers_unique [OF i(9) _ p _ assms(3)] peers_unique [OF i(10) _ q(1) _ b] by blast
qed

theorem channel_ends_agree_witness: "peer_of (channels (snd both_hold) ! 0) = Some 0"
proof -
  obtain x y where b: "both_hold = (x, y)" by (cases both_hold)
  have r: "net_reachable (x, y)" using both_hold_reachable unfolding b .
  have h: "0 \<in> owned x" "peer_of (channels x ! 0) = Some 0" "0 \<in> owned y"
    using both_hold_facts unfolding b hold_ends.simps by blast+
  have "peer_of (channels y ! 0) = Some 0" using channel_ends_agree [OF r h] by blast
  then show ?thesis by (simp add: b)
qed



end
