(* ===== verification/CloseFlow.thy ===== *)
theory CloseFlow
  imports SessionNetOpen
begin

text \<open>
  One direction of a channel from its opening to its end, \<open>Close\<close> included: what the packets on their way say of
  the channels at the two ends.  \<open>flow\<close> is StreamLink's relation for channels that may be closed by either side
  at any time; it keeps what is in flight, what \<open>Read\<close> has taken but not yet given back as credit, and how far
  the closing of the two ends has got.  The lemmas say what each call and each arrival makes of the two
  directions.  CloseNet uses them for every channel of two sessions.
\<close>

section \<open>The ends of a channel\<close>

text \<open>
  An end of a channel: its \<open>Channel\<close>, whether the receive loop holds it back because the inbox is full, what has
  been written to it and read from it, and the credit that calls of \<open>Read\<close> in progress owe: \<open>eowing\<close> before it has been
  added to \<open>myWindow\<close>, \<open>euntold\<close> before the peer has been told.
\<close>

record endpoint =
  echan :: channel
  eparked :: bool
  ewrote :: bytes
  etook :: bytes
  eowing :: "u32 list"
  euntold :: "u32 list"

text \<open>The channel is out of the table: \<open>close\<close> has run.\<close>

abbreviation gone :: "channel \<Rightarrow> bool" where
  "gone c \<equiv> wclosed (remoteWin c)"

abbreviation payloads :: "message list \<Rightarrow> bytes" where
  "payloads ms \<equiv> concat (map payload ms)"

abbreviation adjustments :: "message list \<Rightarrow> nat" where
  "adjustments ms \<equiv> sum_list (map adjustment ms)"

abbreviation amount :: "u32 list \<Rightarrow> nat" where
  "amount ks \<equiv> sum_list (map unat ks)"

abbreviation waiting :: "endpoint \<Rightarrow> bytes" where
  "waiting b \<equiv> buffer_content (pending (echan b))"

text \<open>What a packet for channel \<open>y\<close> must be.\<close>

fun body_ok :: "channel \<Rightarrow> message \<Rightarrow> bool" where
  "body_ok y (DataMessage cid n d) \<longleftrightarrow> cid = localId y \<and> unat n = length d \<and> n \<le> maxIncomingPayload y"
| "body_ok y (WindowAdjustMessage cid n) \<longleftrightarrow> cid = localId y"
| "body_ok y (EOFMessage cid) \<longleftrightarrow> cid = localId y"
| "body_ok y (CloseMessage cid) \<longleftrightarrow> cid = localId y"
| "body_ok y _ \<longleftrightarrow> False"

text \<open>No data after the end of a stream; \<open>Close\<close> is the last packet.\<close>

fun quiet_after_eof :: "message list \<Rightarrow> bool" where
  "quiet_after_eof [] \<longleftrightarrow> True"
| "quiet_after_eof (m # ms) \<longleftrightarrow> (is_EOFMessage m \<longrightarrow> payloads ms = []) \<and> quiet_after_eof ms"

definition no_close :: "message list \<Rightarrow> bool" where
  "no_close ms \<longleftrightarrow> (\<forall>m \<in> set ms. \<not> is_CloseMessage m)"

definition closes :: "message list \<Rightarrow> bool" where
  "closes ms \<longleftrightarrow> ms \<noteq> [] \<and> is_CloseMessage (last ms) \<and> no_close (butlast ms)"

definition has_eof :: "message list \<Rightarrow> bool" where
  "has_eof ms \<longleftrightarrow> (\<exists>m \<in> set ms. is_EOFMessage m)"

definition closing :: "channel \<Rightarrow> channel \<Rightarrow> message list \<Rightarrow> bool" where
  "closing x y ms \<longleftrightarrow>
     (if gone y then ms = [] \<and> sentClose x \<and> sentClose y \<and> bclosed (pending y)
      else if sentClose x then closes ms else no_close ms)"

definition ending :: "channel \<Rightarrow> channel \<Rightarrow> message list \<Rightarrow> bool" where
  "ending x y ms \<longleftrightarrow>
     (bclosed (pending y) \<longrightarrow> (sentEOF x \<or> gone y) \<and> payloads ms = [])
   \<and> quiet_after_eof ms \<and> (has_eof ms \<longrightarrow> sentEOF x)
   \<and> (sentEOF x \<longrightarrow> bclosed (pending y) \<or> sentClose x \<or> has_eof ms)"

text \<open>All the credit of the direction from \<open>a\<close> to \<open>b\<close>: what the writer has, what it has used and not got back.\<close>

definition credit :: "endpoint \<Rightarrow> endpoint \<Rightarrow> message list \<Rightarrow> message list \<Rightarrow> nat" where
  "credit a b ms ns = unat (win (remoteWin (echan a))) + length (payloads ms) + length (waiting b)
     + amount (eowing b) + amount (euntold b) + adjustments ns"

definition flow :: "endpoint \<Rightarrow> endpoint \<Rightarrow> message list \<Rightarrow> message list \<Rightarrow> bool" where
  "flow a b ms ns \<longleftrightarrow>
     ewrote a = etook b @ waiting b @ payloads ms
   \<and> unat (myWindow (echan b)) + length (waiting b) + amount (eowing b) = full_window
   \<and> credit a b ms ns \<le> full_window \<and> (\<not> sentClose (echan b) \<longrightarrow> credit a b ms ns = full_window)
   \<and> list_all (body_ok (echan b)) ms
   \<and> closing (echan a) (echan b) ms \<and> ending (echan a) (echan b) ms
   \<and> maxRemotePayload (echan a) = maxIncomingPayload (echan b) \<and> maxIncomingPayload (echan b) \<noteq> 0"

definition duplex :: "endpoint \<Rightarrow> endpoint \<Rightarrow> message list \<Rightarrow> message list \<Rightarrow> bool" where
  "duplex a b ms ns \<longleftrightarrow> flow a b ms ns \<and> flow b a ns ms"

lemma duplex_sym: "duplex a b ms ns \<longleftrightarrow> duplex b a ns ms"
  by (auto simp: duplex_def)

section \<open>Lists of packets\<close>

lemma no_close_simps [simp]:
  "no_close []" "no_close (m # ms) \<longleftrightarrow> \<not> is_CloseMessage m \<and> no_close ms"
  "no_close (ms @ ns) \<longleftrightarrow> no_close ms \<and> no_close ns"
  by (auto simp: no_close_def)

lemma closes_simps [simp]:
  "\<not> closes []" "closes (ms @ [m]) \<longleftrightarrow> is_CloseMessage m \<and> no_close ms"
  "closes (m # ms) \<longleftrightarrow> (if ms = [] then is_CloseMessage m else \<not> is_CloseMessage m \<and> closes ms)"
  by (auto simp: closes_def)

lemma has_eof_simps [simp]:
  "\<not> has_eof []" "has_eof (m # ms) \<longleftrightarrow> is_EOFMessage m \<or> has_eof ms"
  "has_eof (ms @ ns) \<longleftrightarrow> has_eof ms \<or> has_eof ns"
  by (auto simp: has_eof_def)

lemma quiet_after_append [simp]:
  "quiet_after_eof (ms @ [m]) \<longleftrightarrow> quiet_after_eof ms \<and> (has_eof ms \<longrightarrow> payload m = [])"
  by (induction ms) auto

lemma quiet_payload: "quiet_after_eof (m # ms) \<Longrightarrow> is_EOFMessage m \<Longrightarrow> payloads ms = []"
  by simp

lemma flow_credit: "flow a b ms ns \<Longrightarrow> credit a b ms ns \<le> full_window"
  by (simp add: flow_def)

lemma flow_full: "flow a b ms ns \<Longrightarrow> \<not> sentClose (echan b) \<Longrightarrow> credit a b ms ns = full_window"
  by (simp add: flow_def)

lemma flow_gone:
  assumes "flow a b ms ns"
  shows "gone (echan b) \<Longrightarrow> ms = [] \<and> sentClose (echan a) \<and> sentClose (echan b)"
    and "sentClose (echan a) \<Longrightarrow> \<not> gone (echan b) \<Longrightarrow> closes ms"
    and "\<not> sentClose (echan a) \<Longrightarrow> no_close ms \<and> \<not> gone (echan b)"
  using assms by (auto simp: flow_def closing_def split: if_splits)

lemma body_ok_cong: "localId y' = localId y \<Longrightarrow> maxIncomingPayload y' = maxIncomingPayload y \<Longrightarrow> body_ok y' = body_ok y"
proof
  fix m assume "localId y' = localId y" "maxIncomingPayload y' = maxIncomingPayload y"
  then show "body_ok y' m = body_ok y m" by (cases m) simp_all
qed

lemma body_ok_simps [simp]:
  "body_ok (c\<lparr>remoteWin := v\<rparr>) = body_ok c" "body_ok (c\<lparr>pending := b\<rparr>) = body_ok c"
  "body_ok (c\<lparr>myWindow := w\<rparr>) = body_ok c" "body_ok (c\<lparr>sentEOF := e\<rparr>) = body_ok c"
  "body_ok (c\<lparr>sentClose := e\<rparr>) = body_ok c" "body_ok (c\<lparr>msgs := q\<rparr>) = body_ok c"
  by (rule body_ok_cong; simp)+

text \<open>Only some fields count.\<close>

lemma flow_cong:
  assumes "flow a b ms ns"
    and "ewrote a' = ewrote a" "sentEOF (echan a') = sentEOF (echan a)"
    "win (remoteWin (echan a')) = win (remoteWin (echan a))"
    "sentClose (echan a') = sentClose (echan a)" "maxRemotePayload (echan a') = maxRemotePayload (echan a)"
    and "etook b' = etook b" "eowing b' = eowing b" "euntold b' = euntold b"
    "localId (echan b') = localId (echan b)" "waiting b' = waiting b"
    "bclosed (pending (echan b')) = bclosed (pending (echan b))"
    "myWindow (echan b') = myWindow (echan b)" "sentClose (echan b') = sentClose (echan b)"
    "gone (echan b') = gone (echan b)" "maxIncomingPayload (echan b') = maxIncomingPayload (echan b)"
  shows "flow a' b' ms ns"
proof -
  have "body_ok (echan b') = body_ok (echan b)" using assms(10,16) by (rule body_ok_cong)
  then show ?thesis
    using assms(1) unfolding flow_def credit_def closing_def ending_def assms(2-16) by simp
qed

lemma duplex_cong:
  assumes "duplex a b ms ns"
    and "ewrote a' = ewrote a" "sentEOF (echan a') = sentEOF (echan a)"
    "win (remoteWin (echan a')) = win (remoteWin (echan a))" "gone (echan a') = gone (echan a)"
    "sentClose (echan a') = sentClose (echan a)" "maxRemotePayload (echan a') = maxRemotePayload (echan a)"
    and "etook a' = etook a" "eowing a' = eowing a" "euntold a' = euntold a"
    "localId (echan a') = localId (echan a)" "waiting a' = waiting a"
    "bclosed (pending (echan a')) = bclosed (pending (echan a))"
    "myWindow (echan a') = myWindow (echan a)" "maxIncomingPayload (echan a') = maxIncomingPayload (echan a)"
  shows "duplex a' b ms ns"
  using assms(1) unfolding duplex_def
  by (auto intro: flow_cong [OF _ assms(2-4,6,7)] flow_cong [OF _ refl refl refl refl refl assms(8-14,6,5,15)])


section \<open>Calls on an end\<close>

text \<open>An iteration of \<open>Write\<close> that sends something.\<close>

lemma duplex_write:
  assumes d: "duplex a b ms ns" and op: "\<not> sentEOF (echan a)" "\<not> sentClose (echan a)"
    and data: "data \<noteq> []" "length data < 2 ^ 32"
    and r: "reserve (remoteWin (echan a)) (min32 (maxRemotePayload (echan a)) (length data)) = (Some (k, None), v)"
  shows "unat k \<le> length data \<and> gone (echan a) = wclosed v
    \<and> duplex (a\<lparr>echan := (echan a)\<lparr>remoteWin := v\<rparr>, ewrote := ewrote a @ take (unat k) data\<rparr>) b
        (ms @ [DataMessage (localId (echan b)) k (take (unat k) data)]) ns"
proof -
  have f: "flow a b ms ns" "flow b a ns ms" using d by (simp_all add: duplex_def)
  have x: "maxRemotePayload (echan a) \<noteq> 0" "maxRemotePayload (echan a) = maxIncomingPayload (echan b)"
    using f(1) by (simp_all add: flow_def)
  have k: "unat k \<le> length data" "unat k \<le> unat (maxIncomingPayload (echan b))"
    "unat k \<le> unat (win (remoteWin (echan a)))" "unat (win v) = unat (win (remoteWin (echan a))) - unat k"
    "wclosed v = gone (echan a)"
    using reserve_grant [OF r] min32_eq [OF data(2)] x(2) by auto
  note g = flow_gone(3) [OF f(1) op(2)]
  let ?a = "a\<lparr>echan := (echan a)\<lparr>remoteWin := v\<rparr>, ewrote := ewrote a @ take (unat k) data\<rparr>"
  let ?m = "DataMessage (localId (echan b)) k (take (unat k) data)"
  have no: "\<not> bclosed (pending (echan b))" using f(1) g op(1) by (auto simp: flow_def ending_def)
  have "flow ?a b (ms @ [?m]) ns"
    using f(1) k g op no by (simp add: flow_def credit_def closing_def ending_def word_le_nat_alt)
  moreover have "flow b ?a ns (ms @ [?m])"
    using f(2) k(5) by (simp add: flow_def credit_def closing_def ending_def)
  ultimately show ?thesis using k(1,5) by (simp add: duplex_def)
qed


text \<open>One that parks, or fails because the channel has been closed.\<close>

lemma duplex_write_nothing:
  assumes d: "duplex a b ms ns"
    and r: "reserve (remoteWin (echan a)) n = (g, v)" "g = None \<or> gone (echan a)"
  shows "gone (echan a) = wclosed v \<and> duplex (a\<lparr>echan := (echan a)\<lparr>remoteWin := v\<rparr>\<rparr>) b ms ns"
proof -
  have v: "wclosed v = gone (echan a) \<and> unat (win v) \<le> unat (win (remoteWin (echan a)))
    \<and> (\<not> gone (echan a) \<longrightarrow> win v = win (remoteWin (echan a)))"
  proof (cases g)
    case None
    then show ?thesis using reserve_parked [of "remoteWin (echan a)" n v] r(1) by simp
  next
    case (Some ke)
    then have "reserve (remoteWin (echan a)) n = (Some (fst ke, snd ke), v)" using r(1) by simp
    from reserve_grant [OF this] show ?thesis using r(2) Some by simp
  qed
  have "sentClose (echan b)" if "gone (echan a)"
    using d that flow_gone(1) [of b a ns ms] by (auto simp: duplex_def)
  then show ?thesis
    using d v by (cases "gone (echan a)")
      (auto simp: duplex_def flow_def credit_def closing_def ending_def)
qed

text \<open>\<open>Read\<close> in its three parts.\<close>

lemma duplex_take:
  assumes d: "duplex a b ms ns" and r: "buffer_read (pending (echan a)) n = (r, c)"
    and bs: "bs = (case r of Some (bs, _) \<Rightarrow> bs | None \<Rightarrow> [])"
  shows "duplex (a\<lparr>echan := (echan a)\<lparr>pending := c\<rparr>, etook := etook a @ bs,
    eowing := eowing a @ (if bs = [] then [] else [of_nat (length bs)])\<rparr>) b ms ns"
proof -
  have c: "waiting a = bs @ buffer_content c"
    using rbuf.get_data [of "pending (echan a)" n] rbuf.get_result [of "pending (echan a)" n]
      rbuf.get_items [of "pending (echan a)" n] r bs by (cases r) (auto split: if_splits)
  have cl: "bclosed c = bclosed (pending (echan a))" using rbuf.get_shut [of "pending (echan a)" n] r by simp
  have "length bs \<le> full_window" using d c by (simp add: duplex_def flow_def)
  then have u: "unat (of_nat (length bs) :: u32) = length bs" by (simp add: unat_of_nat full_window_def)
  let ?a = "a\<lparr>echan := (echan a)\<lparr>pending := c\<rparr>, etook := etook a @ bs,
    eowing := eowing a @ (if bs = [] then [] else [of_nat (length bs)])\<rparr>"
  have f: "flow a b ms ns" "flow b a ns ms" using d by (simp_all add: duplex_def)
  have "flow ?a b ms ns" by (rule flow_cong [OF f(1)]) simp_all
  moreover have "credit b ?a ns ms = credit b a ns ms" using c u by (simp add: credit_def)
  then have "flow b ?a ns ms"
    using f(2) c cl u by (cases "bs = []") (simp_all add: flow_def closing_def ending_def)
  ultimately show ?thesis by (simp add: duplex_def)
qed

lemma amount_remove1: "k \<in> set ks \<Longrightarrow> amount ks = unat k + amount (remove1 k ks)"
  by (induction ks) auto

lemma duplex_credit:
  assumes d: "duplex a b ms ns" and k: "k \<in> set (eowing a)"
  shows "duplex (a\<lparr>echan := adjust_credit (echan a) k, eowing := remove1 k (eowing a),
    euntold := euntold a @ [k]\<rparr>) b ms ns"
proof -
  note am = amount_remove1 [OF k]
  have "unat (myWindow (echan a)) + unat k < 2 ^ 32"
    using d am by (simp add: duplex_def flow_def full_window_def)
  then have m: "unat (myWindow (echan a) + k) = unat (myWindow (echan a)) + unat k" by (rule unat_add_exact)
  let ?a = "a\<lparr>echan := adjust_credit (echan a) k, eowing := remove1 k (eowing a), euntold := euntold a @ [k]\<rparr>"
  have f: "flow a b ms ns" "flow b a ns ms" using d by (simp_all add: duplex_def)
  have "flow ?a b ms ns" by (rule flow_cong [OF f(1)]) (simp_all add: adjust_credit_def)
  moreover have "credit b ?a ns ms = credit b a ns ms" using am by (simp add: credit_def adjust_credit_def)
  then have "flow b ?a ns ms"
    using f(2) am m by (simp add: flow_def closing_def ending_def adjust_credit_def)
  ultimately show ?thesis by (simp add: duplex_def)
qed

text \<open>The control packets, which are not sent after a \<open>Close\<close>.\<close>

definition unless_closed :: "channel \<Rightarrow> message \<Rightarrow> message list" where
  "unless_closed c m = (if sentClose c then [] else [m])"

lemma duplex_tell:
  assumes d: "duplex a b ms ns" and k: "k \<in> set (euntold a)"
  shows "duplex (a\<lparr>euntold := remove1 k (euntold a)\<rparr>) b
    (ms @ unless_closed (echan a) (WindowAdjustMessage (localId (echan b)) k)) ns"
proof -
  have f: "flow a b ms ns" "flow b a ns ms" using d by (simp_all add: duplex_def)
  let ?a = "a\<lparr>euntold := remove1 k (euntold a)\<rparr>"
  show ?thesis
  proof (cases "sentClose (echan a)")
    case True
    have "flow ?a b ms ns" by (rule flow_cong [OF f(1)]) simp_all
    moreover have "flow b ?a ns ms"
      using f(2) amount_remove1 [OF k] True by (simp add: flow_def credit_def closing_def ending_def)
    ultimately show ?thesis using True by (simp add: duplex_def unless_closed_def)
  next
    case False
    let ?m = "WindowAdjustMessage (localId (echan b)) k"
    have "flow ?a b (ms @ [?m]) ns"
      using f(1) False flow_gone(3) [OF f(1) False] by (simp add: flow_def credit_def closing_def ending_def)
    moreover have "credit b ?a ns (ms @ [?m]) = credit b a ns ms" using amount_remove1 [OF k] by (simp add: credit_def)
    then have "flow b ?a ns (ms @ [?m])" using f(2) by (simp add: flow_def closing_def ending_def)
    ultimately show ?thesis using False by (simp add: duplex_def unless_closed_def)
  qed
qed

lemma duplex_close_write:
  assumes d: "duplex a b ms ns"
  shows "duplex (a\<lparr>echan := (echan a)\<lparr>sentEOF := True\<rparr>\<rparr>) b
    (ms @ unless_closed (echan a) (EOFMessage (localId (echan b)))) ns"
proof -
  have f: "flow a b ms ns" "flow b a ns ms" using d by (simp_all add: duplex_def)
  let ?a = "a\<lparr>echan := (echan a)\<lparr>sentEOF := True\<rparr>\<rparr>" and ?m = "EOFMessage (localId (echan b))"
  have "flow ?a b (ms @ unless_closed (echan a) ?m) ns"
    using f(1) flow_gone(3) [OF f(1)]
    by (cases "sentClose (echan a)") (simp_all add: unless_closed_def flow_def credit_def closing_def ending_def)
  moreover have "flow b ?a ns (ms @ unless_closed (echan a) ?m)"
    using f(2) by (simp add: unless_closed_def flow_def credit_def closing_def ending_def)
  ultimately show ?thesis by (simp add: duplex_def)
qed

lemma duplex_close:
  assumes d: "duplex a b ms ns"
  shows "duplex (a\<lparr>echan := (echan a)\<lparr>sentClose := True\<rparr>\<rparr>) b
    (ms @ unless_closed (echan a) (CloseMessage (localId (echan b)))) ns"
proof -
  have f: "flow a b ms ns" "flow b a ns ms" using d by (simp_all add: duplex_def)
  let ?a = "a\<lparr>echan := (echan a)\<lparr>sentClose := True\<rparr>\<rparr>" and ?m = "CloseMessage (localId (echan b))"
  have "flow ?a b (ms @ unless_closed (echan a) ?m) ns"
    using f(1) flow_gone(3) [OF f(1)]
    by (cases "sentClose (echan a)") (simp_all add: unless_closed_def flow_def credit_def closing_def ending_def)
  moreover have "flow b ?a ns (ms @ unless_closed (echan a) ?m)"
    using f(2) by (simp add: unless_closed_def flow_def credit_def closing_def ending_def)
  ultimately show ?thesis by (simp add: duplex_def)
qed


section \<open>The arrival of a packet\<close>

text \<open>What the head of a flow can be, and when the channel it is for is still there.\<close>

lemma flow_head:
  assumes "flow b a (m # ns) ms"
  shows "body_ok (echan a) m" "\<not> gone (echan a)"
    "is_CloseMessage m \<Longrightarrow> ns = [] \<and> sentClose (echan b)"
  using assms by (auto simp: flow_def closing_def split: if_splits)

lemma handleData_flow:
  assumes f: "flow b a (DataMessage cid n d # ns) ms"
  shows "handleData (echan a) n d = (None, (echan a)\<lparr>myWindow := myWindow (echan a) - n,
      pending := buffer_write (pending (echan a)) d\<rparr>)"
    and "unat (myWindow (echan a) - n) = unat (myWindow (echan a)) - length d"
    and "length d \<le> unat (myWindow (echan a))"
proof -
  have b: "unat n = length d" "n \<le> maxIncomingPayload (echan a)" using flow_head(1) [OF f] by simp_all
  have "unat (myWindow (echan a)) + length (waiting a) + amount (eowing a) = full_window"
    "credit b a (DataMessage cid n d # ns) ms \<le> full_window" using f flow_credit [OF f] by (simp_all add: flow_def)
  then have l: "length d \<le> unat (myWindow (echan a))" by (simp add: credit_def)
  then have le: "n \<le> myWindow (echan a)" using b(1) by (simp add: word_le_nat_alt)
  have "of_nat (unat n) = (of_nat (length d) :: u32)" using b(1) by simp
  then have "n = of_nat (length d)" by simp
  then show "handleData (echan a) n d = (None, (echan a)\<lparr>myWindow := myWindow (echan a) - n,
      pending := buffer_write (pending (echan a)) d\<rparr>)"
    using b(2) le by (simp add: handleData_def not_less [symmetric])
  show "unat (myWindow (echan a) - n) = unat (myWindow (echan a)) - length d"
    using unat_sub_exact [OF le] b(1) by simp
  show "length d \<le> unat (myWindow (echan a))" by (rule l)
qed

text \<open>Data, an end of stream or a window update arrives; it is never refused.\<close>

lemma duplex_receive:
  assumes d: "duplex a b ms (m # ns)" and h: "handle_stream (echan a) m = Some (e, c)"
  shows "e = None \<and> gone c = gone (echan a) \<and> duplex (a\<lparr>echan := c\<rparr>) b ms ns"
proof -
  have f: "flow a b ms (m # ns)" "flow b a (m # ns) ms" using d by (simp_all add: duplex_def)
  note ok = flow_head [OF f(2)] flow_credit [OF f(2)] flow_full [OF f(2)]
  show ?thesis
  proof (cases m)
    case (DataMessage cid n dt)
    note hd = handleData_flow [OF f(2) [unfolded DataMessage]]
    have c: "e = None" "c = (echan a)\<lparr>myWindow := myWindow (echan a) - n, pending := buffer_write (pending (echan a)) dt\<rparr>"
      using h hd(1) by (simp_all add: DataMessage)
    have "flow (a\<lparr>echan := c\<rparr>) b ms (m # ns)" by (rule flow_cong [OF f(1)]) (simp_all add: c)
    then have "flow (a\<lparr>echan := c\<rparr>) b ms ns" by (simp add: flow_def credit_def DataMessage)
    moreover have "credit b (a\<lparr>echan := c\<rparr>) ns ms = credit b a (m # ns) ms"
      by (simp add: credit_def c DataMessage)
    then have "flow b (a\<lparr>echan := c\<rparr>) ns ms"
      using f(2) ok hd(2,3) by (auto simp: flow_def closing_def ending_def c DataMessage split: if_splits)
    ultimately show ?thesis by (simp add: duplex_def c)
  next
    case (EOFMessage cid)
    have c: "e = None" "c = (echan a)\<lparr>pending := buffer_eof (pending (echan a))\<rparr>"
      using h by (simp_all add: EOFMessage)
    have "flow (a\<lparr>echan := c\<rparr>) b ms (m # ns)" by (rule flow_cong [OF f(1)]) (simp_all add: c)
    then have "flow (a\<lparr>echan := c\<rparr>) b ms ns" by (simp add: flow_def credit_def EOFMessage)
    moreover have "credit b (a\<lparr>echan := c\<rparr>) ns ms = credit b a (m # ns) ms"
      by (simp add: credit_def c EOFMessage)
    then have "flow b (a\<lparr>echan := c\<rparr>) ns ms"
      using f(2) ok by (simp add: flow_def closing_def ending_def c EOFMessage split: if_splits)
    ultimately show ?thesis by (simp add: duplex_def c)
  next
    case (WindowAdjustMessage cid n)
    have "unat (win (remoteWin (echan a))) + unat n < 2 ^ 32"
      using flow_credit [OF f(1)] by (simp add: WindowAdjustMessage credit_def full_window_def)
    then have w: "fst (window_add (remoteWin (echan a)) n)" by (simp add: window_add_True)
    then have c: "e = None" "c = (echan a)\<lparr>remoteWin := snd (window_add (remoteWin (echan a)) n)\<rparr>"
      using h by (auto simp: WindowAdjustMessage split: prod.splits)
    have "credit (a\<lparr>echan := c\<rparr>) b ms ns = credit a b ms (m # ns)"
      using w by (simp add: credit_def c WindowAdjustMessage window_add_win)
    then have "flow (a\<lparr>echan := c\<rparr>) b ms ns"
      using f(1) by (simp add: flow_def closing_def ending_def c)
    moreover have "flow b (a\<lparr>echan := c\<rparr>) (m # ns) ms" by (rule flow_cong [OF f(2)]) (simp_all add: c)
    then have "flow b (a\<lparr>echan := c\<rparr>) ns ms"
      using ok by (simp add: flow_def credit_def closing_def ending_def c WindowAdjustMessage split: if_splits)
    ultimately show ?thesis by (simp add: duplex_def c)
  qed (use h in simp_all)
qed

text \<open>\<open>Close\<close> arrives: the end answers unless it has sent a \<open>Close\<close> of its own, and is gone.\<close>

lemma duplex_closed:
  assumes d: "duplex a b ms (m # ns)" and m: "is_CloseMessage m" and c: "ch_close ((echan a)\<lparr>sentClose := True\<rparr>) = Some c"
  shows "ns = [] \<and> duplex (a\<lparr>echan := c\<rparr>) b
    (ms @ unless_closed (echan a) (CloseMessage (localId (echan b)))) ns"
proof -
  let ?new = "unless_closed (echan a) (CloseMessage (localId (echan b)))"
  have "duplex (a\<lparr>echan := (echan a)\<lparr>sentClose := True\<rparr>\<rparr>) b (ms @ ?new) (m # ns)" by (rule duplex_close [OF d])
  then have f: "flow (a\<lparr>echan := (echan a)\<lparr>sentClose := True\<rparr>\<rparr>) b (ms @ ?new) (m # ns)"
    "flow b (a\<lparr>echan := (echan a)\<lparr>sentClose := True\<rparr>\<rparr>) (m # ns) (ms @ ?new)" by (simp_all add: duplex_def)
  note hd = flow_head [OF f(2)]
  have n: "ns = []" "sentClose (echan b)" using hd(3) m by simp_all
  have pm: "payload m = []" "adjustment m = 0" "\<not> is_EOFMessage m" using m by (cases m; simp)+
  note e = ch_close_effect [OF c]
  have s: "sentEOF c = sentEOF (echan a)" "maxRemotePayload c = maxRemotePayload (echan a)"
    "localId c = localId (echan a)" "maxIncomingPayload c = maxIncomingPayload (echan a)"
    using c by (auto simp: ch_close_def chan_close_def Let_def split: if_splits)
  have "flow (a\<lparr>echan := c\<rparr>) b (ms @ ?new) (m # ns)"
    by (rule flow_cong [OF f(1)]) (use e s in simp_all)
  then have "flow (a\<lparr>echan := c\<rparr>) b (ms @ ?new) ns"
    using pm by (simp add: flow_def credit_def)
  moreover have "flow b (a\<lparr>echan := c\<rparr>) ns (ms @ ?new)"
    using f(2) e s n pm by (simp add: flow_def credit_def closing_def ending_def)
  ultimately show ?thesis using n by (simp add: duplex_def)
qed


section \<open>From the opening on\<close>

text \<open>
  A channel that its session has made for the other side or for a call of \<open>Open\<close>.  \<open>settled\<close> is a channel whose
  opening has not been answered yet, as the answer will make it.
\<close>

definition chan_fit :: "channel \<Rightarrow> bool" where
  "chan_fit c \<longleftrightarrow> qcap (msgs c) = chanSize \<and> (qclosed (msgs c) \<longleftrightarrow> gone c)
     \<and> maxIncomingPayload c = channelMaxPacket \<and> (joined c \<longrightarrow> maxRemotePayload c = channelMaxPacket)
     \<and> (direction c = channelInbound \<longrightarrow> qbuf (msgs c) = [])
     \<and> (\<not> joined c \<longrightarrow> direction c = channelOutbound \<and> remoteWin c = new_window \<and> \<not> sentEOF c
          \<and> \<not> sentClose c \<and> qbuf (msgs c) = [])"

definition settled :: "channel \<Rightarrow> u32 \<Rightarrow> channel" where
  "settled c i = (if joined c then c
     else c\<lparr>remoteId := i, maxRemotePayload := channelMaxPacket,
            remoteWin := new_window\<lparr>win := channelWindowSize\<rparr>\<rparr>)"

definition settle :: "endpoint \<Rightarrow> endpoint \<Rightarrow> endpoint" where
  "settle a b = a\<lparr>echan := settled (echan a) (localId (echan b))\<rparr>"

definition confirm_of :: "channel \<Rightarrow> channel \<Rightarrow> message" where
  "confirm_of c d = OpenConfirmMessage (localId c) (localId d) channelWindowSize channelMaxPacket"

definition no_confirm :: "message list \<Rightarrow> bool" where
  "no_confirm ms \<longleftrightarrow> (\<forall>m \<in> set ms. \<not> is_OpenConfirmMessage m)"

abbreviation body :: "message list \<Rightarrow> message list" where
  "body \<equiv> filter (\<lambda>m. \<not> is_OpenConfirmMessage m)"

text \<open>What end \<open>a\<close> knows of its peer \<open>b\<close>: everything, or nothing while the confirmation is still due or on its way.\<close>

definition announced :: "endpoint \<Rightarrow> endpoint \<Rightarrow> message list \<Rightarrow> message list \<Rightarrow> bool" where
  "announced a b ms ns \<longleftrightarrow>
     (if joined (echan a)
      then remoteId (echan a) = localId (echan b) \<and> \<not> eparked b \<and> no_confirm ns
      else ms = [] \<and> ewrote a = [] \<and> joined (echan b)
        \<and> (if eparked b then ns = [] \<and> eowing b = []
           else \<exists>rest. ns = confirm_of (echan a) (echan b) # rest \<and> no_confirm rest))"

definition connected_ends :: "endpoint \<Rightarrow> endpoint \<Rightarrow> message list \<Rightarrow> message list \<Rightarrow> bool" where
  "connected_ends a b ms ns \<longleftrightarrow> direction (echan a) \<noteq> direction (echan b)
     \<and> announced a b ms ns \<and> announced b a ns ms \<and> duplex (settle a b) (settle b a) (body ms) (body ns)"

text \<open>An end whose request has not been handled by the other side.\<close>

definition asking :: "endpoint \<Rightarrow> message list \<Rightarrow> message list \<Rightarrow> bool" where
  "asking a rs ns \<longleftrightarrow> \<not> joined (echan a) \<and> \<not> eparked a \<and> pending (echan a) = newBuffer
     \<and> myWindow (echan a) = channelWindowSize \<and> ewrote a = [] \<and> etook a = [] \<and> eowing a = [] \<and> euntold a = []
     \<and> rs = [OpenMessage (localId (echan a)) channelWindowSize channelMaxPacket] \<and> ns = []"

lemma conn_sym: "connected_ends a b ms ns \<longleftrightarrow> connected_ends b a ns ms"
  by (auto simp: connected_ends_def duplex_sym)

lemma no_confirm_simps [simp]:
  "no_confirm []" "no_confirm (m # ms) \<longleftrightarrow> \<not> is_OpenConfirmMessage m \<and> no_confirm ms"
  "no_confirm (ms @ ns) \<longleftrightarrow> no_confirm ms \<and> no_confirm ns"
  by (auto simp: no_confirm_def)

lemma no_confirm_body: "no_confirm ms \<Longrightarrow> body ms = ms"
  by (induction ms) simp_all

lemma no_confirm_unless: "no_confirm [m] \<Longrightarrow> no_confirm (unless_closed c m)"
  by (simp add: unless_closed_def)

lemma settled_simps [simp]:
  "joined c \<Longrightarrow> settled c i = c" "localId (settled c i) = localId c" "joined (settled c i)"
  "sentClose (settled c i) = sentClose c" "sentEOF (settled c i) = sentEOF c"
  by (simp_all add: settled_def joined_def)

lemma settle_simps [simp]:
  "joined (echan a) \<Longrightarrow> settle a b = a" "echan (settle a b) = settled (echan a) (localId (echan b))"
  by (simp_all add: settle_def)

text \<open>A call on an end, and the arrival of a packet at it.\<close>

lemma conn_call:
  assumes c: "connected_ends a b ms ns" and a: "joined (echan a)" "\<not> eparked a" and no: "no_confirm new"
    and a': "joined (echan a')" "eparked a' = eparked a" "remoteId (echan a') = remoteId (echan a)"
      "localId (echan a') = localId (echan a)" "direction (echan a') = direction (echan a)"
    and d: "duplex a (settle b a) (body ms) (body ns) \<Longrightarrow> duplex a' (settle b a) (body ms @ new) (body ns)"
  shows "connected_ends a' b (ms @ new) ns"
proof -
  have e: "settle b a' = settle b a" by (simp add: settle_def a'(4))
  have "duplex a (settle b a) (body ms) (body ns)" using c a(1) by (simp add: connected_ends_def)
  then have "duplex (settle a' b) (settle b a') (body (ms @ new)) (body ns)"
    using d a'(1) no by (simp add: e no_confirm_body)
  moreover have "announced a' b (ms @ new) ns" "announced b a' ns (ms @ new)"
    using c a a' no by (auto simp: connected_ends_def announced_def confirm_of_def split: if_splits)
  ultimately show ?thesis using c a'(5) by (simp add: connected_ends_def)
qed

lemma conn_head:
  assumes c: "connected_ends a b ms (m # ns)" and m: "\<not> is_OpenConfirmMessage m"
  shows "joined (echan a)" "joined (echan b)" "\<not> eparked a" "\<not> gone (echan a)" "body_ok (echan a) m"
    and "remoteId (echan a) = localId (echan b)"
    and "duplex a b ms (m # ns)" "no_confirm ms" "no_confirm ns"
proof -
  show j: "joined (echan a)" "joined (echan b)" "\<not> eparked a" "remoteId (echan a) = localId (echan b)"
    "no_confirm ms" "no_confirm ns"
    using c m by (auto simp: connected_ends_def announced_def confirm_of_def split: if_splits)
  then show d: "duplex a b ms (m # ns)" using c m by (simp add: connected_ends_def no_confirm_body)
  then show "\<not> gone (echan a)" "body_ok (echan a) m"
    using flow_head [of b a m ns ms] by (simp_all add: duplex_def)
qed

lemma conn_receive:
  assumes c: "connected_ends a b ms (m # ns)" and m: "\<not> is_OpenConfirmMessage m" and no: "no_confirm new"
    and a': "joined (echan a')" "eparked a' = eparked a" "remoteId (echan a') = remoteId (echan a)"
      "localId (echan a') = localId (echan a)" "direction (echan a') = direction (echan a)"
    and d: "duplex a' b (ms @ new) ns"
  shows "connected_ends a' b (ms @ new) ns"
  using conn_head [OF c m] c no a' d by (auto simp: connected_ends_def announced_def no_confirm_body split: if_splits)

lemma conn_confirmed:
  assumes c: "connected_ends a b ms (m # ns)" and m: "is_OpenConfirmMessage m"
  shows "m = confirm_of (echan a) (echan b)" "\<not> joined (echan a)"
    and "connected_ends (a\<lparr>echan := (settled (echan a) (localId (echan b)))\<lparr>msgs := q\<rparr>\<rparr>) b ms ns"
proof -
  show nj: "m = confirm_of (echan a) (echan b)" "\<not> joined (echan a)"
    using c m by (auto simp: connected_ends_def announced_def split: if_splits)
  let ?a = "a\<lparr>echan := (settled (echan a) (localId (echan b)))\<lparr>msgs := q\<rparr>\<rparr>"
  have j: "joined (echan b)" "ms = []" "ewrote a = []" "\<not> eparked a" "\<not> eparked b" "no_confirm ns"
    "remoteId (echan b) = localId (echan a)"
    using c nj by (auto simp: connected_ends_def announced_def split: if_splits)
  have d: "duplex (settle a b) b (body ms) (body ns)" using c m j(1) by (simp add: connected_ends_def)
  have "duplex ?a b (body ms) (body ns)" by (rule duplex_cong [OF d]) (simp_all add: settle_def)
  moreover have "joined (echan ?a)" "remoteId (echan ?a) = localId (echan b)"
    "direction (echan ?a) = direction (echan a)" "localId (echan ?a) = localId (echan a)"
    using nj(2) by (simp_all add: settled_def joined_def)
  ultimately show "connected_ends ?a b ms ns"
    using c j by (auto simp: connected_ends_def announced_def)
qed

lemma conn_unpark:
  assumes c: "connected_ends a b ms ns" and p: "eparked a"
  shows "joined (echan a)" "remoteId (echan a) = localId (echan b)" "myWindow (echan a) = channelWindowSize"
    and "connected_ends (a\<lparr>eparked := False\<rparr>) b (ms @ [confirm_of (echan b) (echan a)]) ns"
proof -
  have nj: "\<not> joined (echan b)" using c p by (auto simp: connected_ends_def announced_def split: if_splits)
  then show j: "joined (echan a)" "remoteId (echan a) = localId (echan b)"
    using c by (auto simp: connected_ends_def announced_def split: if_splits)
  have e: "ms = []" "ns = []" "ewrote b = []" "eowing a = []"
    using c p nj by (auto simp: connected_ends_def announced_def split: if_splits)
  have d: "duplex a (settle b a) [] []" using c j(1) e by (simp add: connected_ends_def)
  then have "unat (myWindow (echan a)) = full_window"
    using e unfolding duplex_def flow_def settle_def by auto
  then show "myWindow (echan a) = channelWindowSize" by (simp add: word_unat_eq_iff full_window_def)
  have "duplex (a\<lparr>eparked := False\<rparr>) (settle b a) [] []" by (rule duplex_cong [OF d]) simp_all
  moreover have "settle b (a\<lparr>eparked := False\<rparr>) = settle b a" by (simp add: settle_def)
  ultimately show "connected_ends (a\<lparr>eparked := False\<rparr>) b (ms @ [confirm_of (echan b) (echan a)]) ns"
    using c j e nj p by (auto simp: connected_ends_def announced_def confirm_of_def)
qed


text \<open>The other side makes its end of a channel it is asked for.\<close>

lemma conn_new:
  assumes a: "asking a rs ns" "chan_fit (echan a)"
    and b: "echan b = answering_end i (localId (echan a))" "ewrote b = []" "etook b = []" "eowing b = []" "euntold b = []"
  shows "connected_ends a b [] (if eparked b then [] else [confirm_of (echan a) (echan b)])"
proof -
  have fit: "\<not> joined (echan a)" "direction (echan a) = channelOutbound" "remoteWin (echan a) = new_window"
    "\<not> sentEOF (echan a)" "\<not> sentClose (echan a)" "maxIncomingPayload (echan a) = channelMaxPacket"
    and ask: "\<not> eparked a" "pending (echan a) = newBuffer" "myWindow (echan a) = channelWindowSize"
      "ewrote a = []" "etook a = []" "eowing a = []" "euntold a = []"
    using a by (auto simp: asking_def chan_fit_def)
  have n: "joined (echan b)" "direction (echan b) = channelInbound" "remoteId (echan b) = localId (echan a)"
    unfolding b(1) by (simp_all add: answering_end_def joined_def new_chan_def)
  have "duplex (settle a b) b [] []"
    using fit ask b
    by (simp add: duplex_def settle_def answering_end_def flow_def credit_def closing_def ending_def settled_def
        new_chan_def new_window_def full_window_def)
  then show ?thesis
    using fit(1,2) n ask b(4) by (auto simp: connected_ends_def announced_def confirm_of_def)
qed

lemma chan_fit_new:
  "chan_fit (opening_end i)" "chan_fit (answering_end i r)"
  by (simp_all add: chan_fit_def opening_end_def answering_end_def new_chan_def new_window_def joined_def)

lemma asking_new:
  assumes "echan a = opening_end i" "\<not> eparked a" "ewrote a = []" "etook a = []" "eowing a = []" "euntold a = []"
  shows "asking a [OpenMessage (localId (echan a)) channelWindowSize channelMaxPacket] []"
  using assms by (simp add: asking_def opening_end_def new_chan_def joined_def)

end
