(* ===== verification/CloseNet.thy ===== *)
theory CloseNet
  imports CloseFlow
begin

text \<open>
  Two connected sessions that open, use and close any number of channels; the id of a closed channel is given to
  the next one.  It is SessionNet with \<open>Close\<close> added and with \<open>Read\<close> split at its locks.  This theory has the
  steps and the invariant; CloseNetInv shows that every step keeps it, CloseNetProps what it gives.

  A handled \<open>Close\<close> and an iteration of \<open>Write\<close> are one step each, and so is answering an opening.
  CloseRace shows that this matters: the code takes no lock there, and the properties fail without it.
\<close>

section \<open>State and steps\<close>

text \<open>A side of SessionNet, with the credit that calls of \<open>Read\<close> in progress owe for each channel.\<close>

record party = side +
  owing :: "nat \<Rightarrow> u32 list"
  untold :: "nat \<Rightarrow> u32 list"

definition party_start :: party where
  "party_start = side.extend side_start \<lparr>owing = (\<lambda>_. []), untold = (\<lambda>_. [])\<rparr>"

text \<open>\<open>send\<close> of a channel, on the session.\<close>

definition s_send :: "session \<Rightarrow> nat \<Rightarrow> message \<Rightarrow> go_error option \<times> session" where
  "s_send s p m = (case ch_send (heap s ! p) m (trans s) of (e, c, t) \<Rightarrow> (e, (set_chan s p c)\<lparr>trans := t\<rparr>))"

text \<open>
  The steps of one party.  \<open>Read\<close> takes bytes from the buffer, adds them to \<open>myWindow\<close>, and tells the peer.
  User code may call any method of a channel it has got from \<open>Open\<close> or \<open>Accept\<close> at any time, but does not
  start writing after \<open>CloseWrite\<close>, nor between its \<open>Close\<close> and the peer's answer to it.  Ids are bounded by
  the number of channels open at one time.
\<close>

inductive party_step :: "party \<Rightarrow> party \<Rightarrow> bool" where
  packet: "(sloop x = Running \<longrightarrow> arriving x \<noteq> []) \<Longrightarrow> loop_step (sloop x, ses x) = (st, s) \<Longrightarrow>
     length (chans s) + 1 < 2 ^ 32 \<Longrightarrow> party_step x (x\<lparr>sloop := st, ses := s\<rparr>)"
| open_start: "Open_start (ses x) = (e, p, s) \<Longrightarrow> length (chans s) + 1 < 2 ^ 32 \<Longrightarrow>
     party_step x (x\<lparr>ses := s\<rparr>)"
| open_finish: "p < length (channels x) \<Longrightarrow> Open_finish (ses x) p ctx = (r, s) \<Longrightarrow>
     party_step x (x\<lparr>ses := s, owned := owned x \<union> obtained r\<rparr>)"
| accept: "Accept (ses x) b = (r, s) \<Longrightarrow> party_step x (x\<lparr>ses := s, owned := owned x \<union> obtained r\<rparr>)"
| read_take: "p \<in> owned x \<Longrightarrow> buffer_read (pending (channels x ! p)) n = (r, c) \<Longrightarrow>
     bs = (case r of Some (bs, _) \<Rightarrow> bs | None \<Rightarrow> []) \<Longrightarrow>
     party_step x (x\<lparr>ses := set_chan (ses x) p ((channels x ! p)\<lparr>pending := c\<rparr>),
       read_on := (read_on x)(p := read_on x p @ bs),
       owing := (owing x)(p := owing x p @ (if bs = [] then [] else [of_nat (length bs)]))\<rparr>)"
| read_credit: "p \<in> owned x \<Longrightarrow> k \<in> set (owing x p) \<Longrightarrow>
     party_step x (x\<lparr>ses := set_chan (ses x) p (adjust_credit (channels x ! p) k),
       owing := (owing x)(p := remove1 k (owing x p)), untold := (untold x)(p := untold x p @ [k])\<rparr>)"
| read_tell: "p \<in> owned x \<Longrightarrow> k \<in> set (untold x p) \<Longrightarrow>
     s_send (ses x) p (WindowAdjustMessage (remoteId (channels x ! p)) k) = (e, s) \<Longrightarrow>
     party_step x (x\<lparr>ses := s, untold := (untold x)(p := remove1 k (untold x p))\<rparr>)"
| write_some: "p \<in> owned x \<Longrightarrow> \<not> sentEOF (channels x ! p) \<Longrightarrow>
     (sentClose (channels x ! p) \<longrightarrow> gone (channels x ! p)) \<Longrightarrow> data \<noteq> [] \<Longrightarrow> length data < 2 ^ 32 \<Longrightarrow>
     s_write_iter (ses x) p data n = (r, s) \<Longrightarrow>
     party_step x (x\<lparr>ses := s, sent_on := (sent_on x)(p := sent_on x p
       @ (case r of WContinue data' n' \<Rightarrow> take (n' - n) data | _ \<Rightarrow> []))\<rparr>)"
| close_write: "p \<in> owned x \<Longrightarrow> s_CloseWrite (ses x) p = (e, s) \<Longrightarrow> party_step x (x\<lparr>ses := s\<rparr>)"
| close: "p \<in> owned x \<Longrightarrow> s_Close (ses x) p = (e, s) \<Longrightarrow> party_step x (x\<lparr>ses := s\<rparr>)"

text \<open>
  The two parties and the connections between them: \<open>(p, q)\<close> is recorded when a side makes channel \<open>q\<close> for the request
  of the peer's channel \<open>p\<close>.  Pointers are never reused, so the record says who talks to whom when ids no longer do.
\<close>

definition made :: "party \<Rightarrow> party \<Rightarrow> party \<Rightarrow> (nat \<times> nat) set" where
  "made x x' y =
     (case drop (length (channels x)) (channels x') of
        [c] \<Rightarrow> if direction c = channelInbound
               then (case getChan (chans (ses y)) (remoteId c) of Some q \<Rightarrow> {(length (channels x), q)} | None \<Rightarrow> {})
               else {}
      | _ \<Rightarrow> {})"

type_synonym parties = "party \<times> party \<times> (nat \<times> nat) set"

inductive close_step :: "parties \<Rightarrow> parties \<Rightarrow> bool" where
  left: "party_step x x' \<Longrightarrow> close_step (x, y, M) (x', y, M \<union> made x x' y)"
| right: "party_step y y' \<Longrightarrow> close_step (x, y, M) (x, y', M \<union> (made y y' x)\<inverse>)"
| carry_right: "next_packet (trans (ses x)) = Some (m, t) \<Longrightarrow>
     close_step (x, y, M) (take_off x t, hand_over y m, M)"
| carry_left: "next_packet (trans (ses y)) = Some (m, t) \<Longrightarrow>
     close_step (x, y, M) (hand_over x m, take_off y t, M)"

inductive close_reachable :: "parties \<Rightarrow> bool" where
  start: "close_reachable (party_start, party_start, {})"
| step: "close_reachable c \<Longrightarrow> close_step c c' \<Longrightarrow> close_reachable c'"

section \<open>The invariant\<close>

text \<open>
  The table holds exactly the channels that are not gone, each under its id.
\<close>

definition table_fit :: "session \<Rightarrow> bool" where
  "table_fit s \<longleftrightarrow> length (chans s) + 1 < 2 ^ 32
     \<and> (\<forall>i p. getChan (chans s) i = Some p \<longleftrightarrow> p < length (heap s) \<and> localId (heap s ! p) = i \<and> \<not> gone (heap s ! p))"

definition session_fit :: "session \<Rightarrow> bool" where
  "session_fit s \<longleftrightarrow> free_transport (trans s) \<and> length (chunks (tin (trans s))) \<le> 1 \<and> table_fit s
     \<and> (\<forall>p < length (heap s). chan_fit (heap s ! p))
     \<and> \<not> qclosed (inbox s) \<and> qcap (inbox s) = chanSize
     \<and> (\<forall>p \<in> set (qbuf (inbox s)). p < length (heap s) \<and> joined (heap s ! p))
     \<and> qbuf (closeCh s) = [] \<and> \<not> qclosed (closeCh s) \<and> serr s = None"

definition party_fit :: "party \<Rightarrow> bool" where
  "party_fit x \<longleftrightarrow> session_fit (ses x)
     \<and> (sloop x = Running \<or> (\<exists>q. sloop x = OnInbox q \<and> q < length (channels x) \<and> joined (channels x ! q)
          \<and> q \<notin> owned x \<and> q \<notin> set (qbuf (inbox (ses x)))))
     \<and> (\<forall>p \<in> owned x. p < length (channels x) \<and> joined (channels x ! p))
     \<and> (\<forall>p \<ge> length (channels x). sent_on x p = [] \<and> read_on x p = [] \<and> owing x p = [] \<and> untold x p = [])"

definition end_of :: "party \<Rightarrow> nat \<Rightarrow> endpoint" where
  "end_of x p = \<lparr>echan = channels x ! p, eparked = (parked_on (sloop x) = Some p), ewrote = sent_on x p,
     etook = read_on x p, eowing = owing x p, euntold = untold x p\<rparr>"

text \<open>The messages for a channel, and the requests a channel has made.\<close>

definition toward :: "channel \<Rightarrow> message list \<Rightarrow> message list" where
  "toward c ms = (if gone c then [] else filter (\<lambda>m. msg_Channel m = (localId c, True)) ms)"

definition requests :: "channel \<Rightarrow> message list \<Rightarrow> message list" where
  "requests c ms = filter (\<lambda>m. is_OpenMessage m \<and> SenderID m = localId c) ms"

text \<open>
  Every message on its way from \<open>x\<close> to \<open>y\<close> is a request of a channel of \<open>x\<close> without a connection, or is for a channel that is
  in the table of \<open>y\<close>; \<open>U\<close> are the channels of \<open>x\<close> with a connection.
\<close>

definition routed :: "party \<Rightarrow> party \<Rightarrow> nat set \<Rightarrow> message \<Rightarrow> bool" where
  "routed x y U m \<longleftrightarrow> wf_msg m \<and>
     (if is_OpenMessage m
      then \<exists>p < length (channels x). p \<notin> U
        \<and> m = OpenMessage (localId (channels x ! p)) channelWindowSize channelMaxPacket
      else \<exists>q. getChan (chans (ses y)) (fst (msg_Channel m)) = Some q)"

definition side_inv :: "party \<Rightarrow> party \<Rightarrow> nat set \<Rightarrow> message list \<Rightarrow> message list \<Rightarrow> bool" where
  "side_inv x y U ms ns \<longleftrightarrow> party_fit x \<and> flight x y ms \<and> (\<forall>m \<in> set ms. routed x y U m)
     \<and> (\<forall>p < length (channels x). p \<notin> U \<longrightarrow>
          asking (end_of x p) (requests (channels x ! p) ms) (toward (channels x ! p) ns))"

definition matched :: "party \<Rightarrow> party \<Rightarrow> (nat \<times> nat) set \<Rightarrow> message list \<Rightarrow> message list \<Rightarrow> bool" where
  "matched x y M ms ns \<longleftrightarrow> single_valued M \<and> single_valued (M\<inverse>)
     \<and> (\<forall>(p, q) \<in> M. p < length (channels x) \<and> q < length (channels y)
          \<and> connected_ends (end_of x p) (end_of y q) (toward (channels y ! q) ms) (toward (channels x ! p) ns))"

definition close_inv :: "party \<Rightarrow> party \<Rightarrow> (nat \<times> nat) set \<Rightarrow> message list \<Rightarrow> message list \<Rightarrow> bool" where
  "close_inv x y M ms ns \<longleftrightarrow> side_inv x y (Domain M) ms ns \<and> side_inv y x (Range M) ns ms \<and> matched x y M ms ns"

lemma matched_sym: "matched x y M ms ns \<longleftrightarrow> matched y x (M\<inverse>) ns ms"
  by (auto simp: matched_def conn_sym)

lemma close_inv_sym: "close_inv x y M ms ns \<longleftrightarrow> close_inv y x (M\<inverse>) ns ms"
  by (auto simp: close_inv_def matched_sym [of x y M])

end
