(* ===== verification/CloseNetInv.thy ===== *)
theory CloseNetInv
  imports CloseNet
begin

text \<open>
  The invariant of CloseNet is kept by every step.  \<open>touch\<close> is the one lemma about the whole system for the steps that
  change one channel: what is left to show for such a step is what it makes of the two ends of that channel, which
  is in CloseFlow.  Requests and answers, which add a channel, have a lemma each.
\<close>

section \<open>The table and the messages\<close>

lemma table_get: "table_fit s \<Longrightarrow> p < length (heap s) \<Longrightarrow> \<not> gone (heap s ! p) \<Longrightarrow> getChan (chans s) (localId (heap s ! p)) = Some p"
  by (simp add: table_fit_def)

lemma table_got:
  "table_fit s \<Longrightarrow> getChan (chans s) i = Some p \<Longrightarrow> p < length (heap s) \<and> localId (heap s ! p) = i \<and> \<not> gone (heap s ! p)"
  by (simp add: table_fit_def)

lemma ids_differ:
  assumes "table_fit s" "p < length (heap s)" "q < length (heap s)" "\<not> gone (heap s ! p)" "\<not> gone (heap s ! q)" "p \<noteq> q"
  shows "localId (heap s ! p) \<noteq> localId (heap s ! q)"
  using table_get [OF assms(1,2,4)] table_get [OF assms(1,3,5)] assms(6) by auto

lemma toward_simps [simp]:
  "toward c [] = []" "toward c (ms @ ns) = toward c ms @ toward c ns"
  "toward c (m # ms) = (if \<not> gone c \<and> msg_Channel m = (localId c, True) then m # toward c ms else toward c ms)"
  by (simp_all add: toward_def)

lemma requests_simps [simp]:
  "requests c [] = []" "requests c (ms @ ns) = requests c ms @ requests c ns"
  "requests c (m # ms) = (if is_OpenMessage m \<and> SenderID m = localId c then m # requests c ms else requests c ms)"
  by (simp_all add: requests_def)

text \<open>\<open>addressed i ms\<close>: all of \<open>ms\<close> is for the channel with id \<open>i\<close>.\<close>

definition addressed :: "u32 \<Rightarrow> message list \<Rightarrow> bool" where
  "addressed i ms \<longleftrightarrow> (\<forall>m \<in> set ms. msg_Channel m = (i, True))"

lemma addressed_simps [simp]:
  "addressed i []" "addressed i (m # ms) \<longleftrightarrow> msg_Channel m = (i, True) \<and> addressed i ms"
  by (simp_all add: addressed_def)

lemma channel_not_open: "msg_Channel m = (i, True) \<Longrightarrow> \<not> is_OpenMessage m"
  by (cases m) simp_all

lemma addressed_requests: "addressed i ms \<Longrightarrow> requests c ms = []"
  by (auto simp: addressed_def requests_def filter_empty_conv dest: channel_not_open)

lemma addressed_toward: "addressed (localId c) ms \<Longrightarrow> \<not> gone c \<Longrightarrow> toward c ms = ms"
  by (simp add: addressed_def toward_def)

lemma addressed_other:
  assumes "table_fit s" "p < length (heap s)" "q < length (heap s)" "\<not> gone (heap s ! q)" "p \<noteq> q"
    and "addressed (localId (heap s ! q)) ms"
  shows "toward (heap s ! p) ms = []"
proof (cases "gone (heap s ! p)")
  case False
  then have "localId (heap s ! p) \<noteq> localId (heap s ! q)" using ids_differ assms by blast
  then show ?thesis using assms(6) by (auto simp: toward_def addressed_def filter_empty_conv)
qed (simp add: toward_def)

lemma toward_cong: "localId c' = localId c \<Longrightarrow> gone c' = gone c \<Longrightarrow> toward c' = toward c"
  by (simp add: toward_def fun_eq_iff)

section \<open>What the invariant gives\<close>

lemma close_invD:
  assumes "close_inv x y M ms ns"
  shows "party_fit x" "party_fit y" "session_fit (ses x)" "session_fit (ses y)"
    "table_fit (ses x)" "table_fit (ses y)" "flight x y ms" "flight y x ns"
    "m \<in> set ms \<Longrightarrow> routed x y (Domain M) m" "m \<in> set ns \<Longrightarrow> routed y x (Range M) m"
    "p < length (channels x) \<Longrightarrow> p \<notin> Domain M \<Longrightarrow>
       asking (end_of x p) (requests (channels x ! p) ms) (toward (channels x ! p) ns)"
    "q < length (channels y) \<Longrightarrow> q \<notin> Range M \<Longrightarrow>
       asking (end_of y q) (requests (channels y ! q) ns) (toward (channels y ! q) ms)"
    "(p, q) \<in> M \<Longrightarrow> p < length (channels x) \<and> q < length (channels y)"
    "(p, q) \<in> M \<Longrightarrow> connected_ends (end_of x p) (end_of y q) (toward (channels y ! q) ms) (toward (channels x ! p) ns)"
    "(p, q) \<in> M \<Longrightarrow> (p, q') \<in> M \<Longrightarrow> q' = q" "(p, q) \<in> M \<Longrightarrow> (p', q) \<in> M \<Longrightarrow> p' = p"
    "p < length (channels x) \<Longrightarrow> chan_fit (channels x ! p)" "q < length (channels y) \<Longrightarrow> chan_fit (channels y ! q)"
  using assms by (auto simp: close_inv_def side_inv_def matched_def party_fit_def session_fit_def single_valued_def)

lemma end_of_simps [simp]:
  "echan (end_of x p) = channels x ! p" "eparked (end_of x p) \<longleftrightarrow> parked_on (sloop x) = Some p"
  "ewrote (end_of x p) = sent_on x p" "etook (end_of x p) = read_on x p" "eowing (end_of x p) = owing x p"
  "euntold (end_of x p) = untold x p"
  by (simp_all add: end_of_def)

lemma end_of_eq:
  "channels x' ! p = channels x ! p \<Longrightarrow> parked_on (sloop x') = Some p \<longleftrightarrow> parked_on (sloop x) = Some p \<Longrightarrow>
   sent_on x' p = sent_on x p \<Longrightarrow> read_on x' p = read_on x p \<Longrightarrow> owing x' p = owing x p \<Longrightarrow> untold x' p = untold x p \<Longrightarrow>
   end_of x' p = end_of x p"
  by (simp add: end_of_def)

section \<open>A step of one channel\<close>

lemma touch:
  assumes inv: "close_inv x y M ms (pre @ ns)" and pq: "(p, q) \<in> M"
    and x': "party_fit x'" "channels x' = (channels x)[p := c']" "flight y x' ns"
      "outgoing x' = outgoing x @ concat (map wire new)"
    and same: "\<And>r. r \<noteq> p \<Longrightarrow> r < length (channels x) \<Longrightarrow> end_of x' r = end_of x r"
    and c': "localId c' = localId (channels x ! p)"
    and pre: "addressed (localId (channels x ! p)) pre" "pre \<noteq> [] \<longrightarrow> \<not> gone (channels x ! p)"
    and new: "addressed (localId (channels y ! q)) new" "new \<noteq> [] \<longrightarrow> \<not> gone (channels y ! q)"
      "\<And>m. m \<in> set new \<Longrightarrow> wf_msg m"
    and rest: "gone c' \<longrightarrow> toward (channels x ! p) ns = []"
    and connected_ends: "connected_ends (end_of x' p) (end_of y q) (toward (channels y ! q) ms @ new) (toward c' ns)"
  shows "close_inv x' y M (ms @ new) ns"
proof -
  note i = close_invD [OF inv]
  have b: "p < length (channels x)" "q < length (channels y)" using i(13) [OF pq] by auto
  have nth: "channels x' ! r = channels x ! r" if "r \<noteq> p" for r using that by (simp add: x'(2))
  have nthp: "channels x' ! p = c'" and len: "length (channels x') = length (channels x)"
    using b(1) by (simp_all add: x'(2))
  have tx': "table_fit (ses x')" using x'(1) by (simp add: party_fit_def session_fit_def)
  have newy: "toward (channels y ! q) new = new"
    using new(1,2) addressed_toward by (cases "new = []") auto
  have othery: "toward (channels y ! r) new = []" if "r < length (channels y)" "r \<noteq> q" for r
    using addressed_other [OF i(6) that(1) b(2) _ that(2) new(1)] new(2) by (cases "new = []") auto
  have otherx: "toward (channels x ! r) pre = []" if "r < length (channels x)" "r \<noteq> p" for r
    using addressed_other [OF i(5) that(1) b(1) _ that(2) pre(1)] pre(2) by (cases "pre = []") auto
  have "side_inv x' y (Domain M) (ms @ new) ns"
    unfolding side_inv_def
  proof (intro conjI ballI allI impI)
    show "party_fit x'" by (rule x'(1))
    show "flight x' y (ms @ new)" by (rule flight_send [OF i(7) x'(4)])
  next
    fix m assume "m \<in> set (ms @ new)"
    then consider "m \<in> set ms" | "m \<in> set new" by auto
    then show "routed x' y (Domain M) m"
    proof cases
      case 1
      have "channels x' ! r = channels x ! r" if "r \<notin> Domain M" for r using nth [of r] that pq by (cases "r = p") auto
      then have "(\<exists>r < length (channels x'). r \<notin> Domain M \<and> m = OpenMessage (localId (channels x' ! r)) channelWindowSize channelMaxPacket)
          \<longleftrightarrow> (\<exists>r < length (channels x). r \<notin> Domain M \<and> m = OpenMessage (localId (channels x ! r)) channelWindowSize channelMaxPacket)"
        using len by metis
      then show ?thesis using i(9) [OF 1] by (cases "is_OpenMessage m") (simp_all add: routed_def)
    next
      case 2
      then have "msg_Channel m = (localId (channels y ! q), True)" "\<not> gone (channels y ! q)"
        using new(1,2) by (auto simp: addressed_def)
      then show ?thesis
        using new(3) [OF 2] table_get [OF i(6) b(2)] channel_not_open by (auto simp: routed_def)
    qed
  next
    fix r assume r: "r < length (channels x')" "r \<notin> Domain M"
    then have "r \<noteq> p" "r < length (channels x)" using pq len by auto
    then show "asking (end_of x' r) (requests (channels x' ! r) (ms @ new)) (toward (channels x' ! r) ns)"
      using i(11) [of r] r(2) same nth addressed_requests [OF new(1)] otherx by simp
  qed
  moreover have "side_inv y x' (Range M) ns (ms @ new)"
    unfolding side_inv_def
  proof (intro conjI ballI allI impI)
    show "party_fit y" by (rule i(2))
    show "flight y x' ns" by (rule x'(3))
  next
    fix m assume m: "m \<in> set ns"
    have r: "routed y x (Range M) m" using i(10) m by simp
    show "routed y x' (Range M) m"
    proof (cases "is_OpenMessage m")
      case False
      then obtain r where r: "getChan (chans (ses x)) (fst (msg_Channel m)) = Some r" "wf_msg m"
        using r by (auto simp: routed_def)
      note g = table_got [OF i(5) r(1)]
      have ch: "msg_Channel m = (localId (channels x ! r), True)"
        using g False by (cases m) auto
      have "r < length (channels x') \<and> localId (channels x' ! r) = localId (channels x ! r) \<and> \<not> gone (channels x' ! r)"
      proof (cases "r = p")
        case True
        have "\<not> gone c'"
        proof
          assume "gone c'"
          then have "toward (channels x ! p) ns = []" using rest by simp
          with ch m g True show False by (auto simp: toward_def filter_empty_conv)
        qed
        then show ?thesis using True b(1) len nthp c' by simp
      qed (use g len nth in simp)
      then have "getChan (chans (ses x')) (fst (msg_Channel m)) = Some r"
        using table_get [OF tx', of r] ch by simp
      then show ?thesis using False r(2) by (auto simp: routed_def)
    qed (use r in \<open>auto simp: routed_def\<close>)
  next
    fix r assume r: "r < length (channels y)" "r \<notin> Range M"
    then have "r \<noteq> q" using pq by auto
    then show "asking (end_of y r) (requests (channels y ! r) ns) (toward (channels y ! r) (ms @ new))"
      using i(12) [OF r] othery [OF r(1)] addressed_requests [OF pre(1)] by simp
  qed
  moreover have "matched x' y M (ms @ new) ns"
    unfolding matched_def
  proof (intro conjI ballI, goal_cases)
    case (3 pq')
    obtain p' q' where e: "pq' = (p', q')" by (cases pq')
    have M: "(p', q') \<in> M" using 3 e by simp
    have b': "p' < length (channels x)" "q' < length (channels y)" using i(13) [OF M] by auto
    have "connected_ends (end_of x' p') (end_of y q') (toward (channels y ! q') (ms @ new)) (toward (channels x' ! p') ns)"
    proof (cases "p' = p")
      case True
      then have "q' = q" using i(15) [OF pq] M by blast
      then show ?thesis using connected_ends True newy nthp by simp
    next
      case False
      then have "q' \<noteq> q" using i(16) [OF pq] M by blast
      then show ?thesis
        using i(14) [OF M] False same [OF False b'(1)] nth [OF False] othery [OF b'(2)] otherx [OF b'(1)] by simp
    qed
    then show ?case using b' e len by simp
  qed (use inv in \<open>simp_all add: close_inv_def matched_def\<close>)
  ultimately show ?thesis by (simp add: close_inv_def)
qed


section \<open>Calls of user code\<close>

lemma table_fit_set:
  "table_fit s \<Longrightarrow> localId c = localId (heap s ! p) \<Longrightarrow> gone c = gone (heap s ! p) \<Longrightarrow>
   table_fit ((set_chan s p c)\<lparr>trans := t\<rparr>)"
proof -
  assume s: "table_fit s" and c: "localId c = localId (heap s ! p)" "gone c = gone (heap s ! p)"
  have "localId ((heap s)[p := c] ! r) = localId (heap s ! r) \<and> gone ((heap s)[p := c] ! r) = gone (heap s ! r)" for r
    using c by (cases "p = r"; cases "r < length (heap s)") (simp_all add: list_update_beyond)
  then show ?thesis using s by (simp add: table_fit_def)
qed

lemma session_fit_set:
  assumes "session_fit s" "p < length (heap s)" "chan_fit c" "localId c = localId (heap s ! p)"
    "gone c = gone (heap s ! p)" "joined (heap s ! p) \<Longrightarrow> joined c"
    and "free_transport t" "length (chunks (tin t)) \<le> 1"
  shows "session_fit ((set_chan s p c)\<lparr>trans := t\<rparr>)"
  using assms table_fit_set [of s c p t] by (auto simp: session_fit_def nth_list_update)

lemma party_fit_set:
  assumes "party_fit x" "session_fit s" "heap s = (channels x)[p := c]" "joined c"
    "set (qbuf (inbox s)) \<subseteq> set (qbuf (inbox (ses x)))"
  shows "party_fit (x\<lparr>ses := s\<rparr>)"
proof -
  have "joined ((channels x)[p := c] ! r)" if "joined (channels x ! r)" for r
    using that assms(4) by (cases "p = r"; cases "r < length (channels x)") (simp_all add: list_update_beyond)
  then show ?thesis using assms unfolding party_fit_def by auto
qed

lemma session_fit_trans: "session_fit s \<Longrightarrow> free_transport (trans s) \<and> length (chunks (tin (trans s))) \<le> 1"
  by (simp add: session_fit_def)

text \<open>User code holds channels whose peer is known; the loop does not hold them back.\<close>

lemma owned_end:
  assumes inv: "close_inv x y M ms ns" and p: "p \<in> owned x"
  obtains q where "p < length (channels x)" "joined (channels x ! p)" "\<not> eparked (end_of x p)" "(p, q) \<in> M"
    "remoteId (channels x ! p) = localId (channels y ! q)"
proof -
  note i = close_invD [OF inv]
  have o: "p < length (channels x)" "joined (channels x ! p)" "\<not> eparked (end_of x p)"
    using i(1) p by (auto simp: party_fit_def parked_on_def)
  have "p \<in> Domain M"
  proof (rule ccontr)
    assume "p \<notin> Domain M"
    from i(11) [OF o(1) this] o(2) show False by (simp add: asking_def)
  qed
  then obtain q where q: "(p, q) \<in> M" by blast
  have "remoteId (channels x ! p) = localId (channels y ! q)"
    using i(14) [OF q] o(2) by (simp add: connected_ends_def announced_def)
  with o q show ?thesis using that by blast
qed

text \<open>A party after a call has made \<open>e\<close> of its end \<open>p\<close> and sent \<open>new\<close>.\<close>

definition after_party :: "party \<Rightarrow> nat \<Rightarrow> endpoint \<Rightarrow> message list \<Rightarrow> party" where
  "after_party x p e new = x\<lparr>
     ses := (set_chan (ses x) p (echan e))\<lparr>trans := (trans (ses x))\<lparr>tout := outgoing x @ concat (map wire new)\<rparr>\<rparr>,
     sent_on := (sent_on x)(p := ewrote e), read_on := (read_on x)(p := etook e),
     owing := (owing x)(p := eowing e), untold := (untold x)(p := euntold e)\<rparr>"

lemma gone_settled: "chan_fit c \<Longrightarrow> gone (settled c i) = gone c"
  by (auto simp: settled_def chan_fit_def new_window_def)

lemma party_call:
  assumes inv: "close_inv x y M ms ns" and p: "p \<in> owned x"
    and e: "chan_fit (echan e)" "joined (echan e)" "remoteId (echan e) = remoteId (channels x ! p)"
      "localId (echan e) = localId (channels x ! p)" "direction (echan e) = direction (channels x ! p)"
      "gone (echan e) = gone (channels x ! p)" "\<not> eparked e"
    and new: "addressed (remoteId (channels x ! p)) new" "no_confirm new" "\<And>m. m \<in> set new \<Longrightarrow> wf_msg m"
      "new \<noteq> [] \<Longrightarrow> \<not> sentClose (channels x ! p)"
    and d: "\<And>b ms' ns'. duplex (end_of x p) b ms' ns' \<Longrightarrow> localId (echan b) = remoteId (channels x ! p) \<Longrightarrow>
      duplex e b (ms' @ new) ns'"
  shows "close_inv (after_party x p e new) y M (ms @ new) ns"
proof -
  note i = close_invD [OF inv]
  obtain q where q: "p < length (channels x)" "joined (channels x ! p)" "\<not> eparked (end_of x p)" "(p, q) \<in> M"
    "remoteId (channels x ! p) = localId (channels y ! q)" using owned_end [OF inv p] .
  let ?x = "after_party x p e new"
  have b: "q < length (channels y)" using i(13) [OF q(4)] by simp
  have ch: "channels ?x = (channels x)[p := echan e]" by (simp add: after_party_def)
  have end_p: "end_of ?x p = e"
    using q(1,3) e(7) by (cases e) (simp add: after_party_def end_of_def)
  have fit: "party_fit ?x"
  proof -
    have "session_fit (ses ?x)"
      using session_fit_set [OF i(3) q(1) e(1,4,6), of "(trans (ses x))\<lparr>tout := outgoing x @ concat (map wire new)\<rparr>"]
        session_fit_trans [OF i(3)] e(2) by (simp add: after_party_def)
    then show ?thesis
      using i(1) q(1) e(2) by (auto simp: party_fit_def after_party_def nth_list_update)
  qed
  have c: "connected_ends (end_of x p) (end_of y q) (toward (channels y ! q) ms) (toward (channels x ! p) ns)" by (rule i(14) [OF q(4)])
  then have dup: "duplex (end_of x p) (settle (end_of y q) (end_of x p)) (body (toward (channels y ! q) ms)) (body (toward (channels x ! p) ns))"
    using q(2) by (simp add: connected_ends_def)
  have open_y: "\<not> gone (channels y ! q)" if "new \<noteq> []"
  proof -
    have "\<not> gone (echan (settle (end_of y q) (end_of x p)))"
      using dup flow_gone(3) [of "end_of x p"] new(4) [OF that] unfolding duplex_def by (metis end_of_simps(1))
    then show ?thesis using gone_settled [OF i(18) [OF b]] by simp
  qed
  show ?thesis
  proof (rule touch [where pre = "[]" and c' = "echan e" and q = q and p = p])
    show "close_inv x y M ms ([] @ ns)" using inv by simp
    show "(p, q) \<in> M" "party_fit ?x" "channels ?x = (channels x)[p := echan e]" by (rule q(4), rule fit, rule ch)
    show "flight y ?x ns" using i(8) by (simp add: flight_def after_party_def)
    show "outgoing ?x = outgoing x @ concat (map wire new)" by (simp add: after_party_def)
    show "end_of ?x r = end_of x r" if "r \<noteq> p" "r < length (channels x)" for r
      using that by (simp add: end_of_def after_party_def)
    show "connected_ends (end_of ?x p) (end_of y q) (toward (channels y ! q) ms @ new) (toward (echan e) ns)"
      unfolding end_p toward_cong [OF e(4,6)]
      by (rule conn_call [OF c]) (use q e new(2) d [OF dup] in simp_all)
    show "gone (echan e) \<longrightarrow> toward (channels x ! p) ns = []" using e(6) by (simp add: toward_def)
  qed (use e(4) new q(5) open_y in simp_all)
qed


lemma owned_fit:
  assumes "close_inv x y M ms ns" "p \<in> owned x"
  shows "p < length (channels x)" "joined (channels x ! p)" "\<not> eparked (end_of x p)" "chan_fit (channels x ! p)"
    "free_transport (trans (ses x))"
  using owned_end [OF assms] close_invD(3,17) [OF assms(1)] session_fit_trans by metis+

lemma joined_sentClose [simp]: "joined (c\<lparr>sentClose := e\<rparr>) = joined c"
  by (simp add: joined_def)

lemma chan_fit_simps:
  "chan_fit c \<Longrightarrow> chan_fit (c\<lparr>pending := b\<rparr>)" "chan_fit c \<Longrightarrow> chan_fit (c\<lparr>myWindow := w\<rparr>)"
  "chan_fit c \<Longrightarrow> joined c \<Longrightarrow> chan_fit (c\<lparr>sentEOF := e\<rparr>)" "chan_fit c \<Longrightarrow> joined c \<Longrightarrow> chan_fit (c\<lparr>sentClose := e\<rparr>)"
  "chan_fit c \<Longrightarrow> joined c \<Longrightarrow> wclosed v = gone c \<Longrightarrow> chan_fit (c\<lparr>remoteWin := v\<rparr>)"
  by (simp_all add: chan_fit_def)

lemma read_take_step:
  assumes inv: "close_inv x y M ms ns" and p: "p \<in> owned x" and r: "buffer_read (pending (channels x ! p)) n = (r, c)"
    and bs: "bs = (case r of Some (bs, _) \<Rightarrow> bs | None \<Rightarrow> [])"
  shows "close_inv (x\<lparr>ses := set_chan (ses x) p ((channels x ! p)\<lparr>pending := c\<rparr>),
       read_on := (read_on x)(p := read_on x p @ bs),
       owing := (owing x)(p := owing x p @ (if bs = [] then [] else [of_nat (length bs)]))\<rparr>) y M (ms @ []) ns"
proof -
  note o = owned_fit [OF inv p]
  let ?e = "(end_of x p)\<lparr>echan := (channels x ! p)\<lparr>pending := c\<rparr>, etook := read_on x p @ bs,
    eowing := owing x p @ (if bs = [] then [] else [of_nat (length bs)])\<rparr>"
  have "close_inv (after_party x p ?e []) y M (ms @ []) ns"
  proof (rule party_call [OF inv p])
    fix b ms' ns' assume "duplex (end_of x p) b ms' ns'"
    from duplex_take [OF this _ bs, of n c] r show "duplex ?e b (ms' @ []) ns'" by simp
  qed (use o chan_fit_simps in simp_all)
  then show ?thesis by (simp add: after_party_def set_chan_def)
qed

lemma read_credit_step:
  assumes inv: "close_inv x y M ms ns" and p: "p \<in> owned x" and k: "k \<in> set (owing x p)"
  shows "close_inv (x\<lparr>ses := set_chan (ses x) p (adjust_credit (channels x ! p) k),
       owing := (owing x)(p := remove1 k (owing x p)), untold := (untold x)(p := untold x p @ [k])\<rparr>) y M (ms @ []) ns"
proof -
  note o = owned_fit [OF inv p]
  let ?e = "(end_of x p)\<lparr>echan := adjust_credit (channels x ! p) k, eowing := remove1 k (owing x p),
    euntold := untold x p @ [k]\<rparr>"
  have "close_inv (after_party x p ?e []) y M (ms @ []) ns"
  proof (rule party_call [OF inv p])
    fix b ms' ns' assume "duplex (end_of x p) b ms' ns'"
    from duplex_credit [OF this, of k] k show "duplex ?e b (ms' @ []) ns'" by simp
  qed (use o chan_fit_simps in \<open>simp_all add: adjust_credit_def\<close>)
  then show ?thesis by (simp add: after_party_def set_chan_def)
qed

text \<open>The control packets of a channel, sent unless its end has been announced.\<close>

lemma ch_send_free:
  assumes "free_transport t"
  shows "ch_send c m t = (if sentClose c then Some EOF else None,
    if is_CloseMessage m then c\<lparr>sentClose := True\<rparr> else c,
    t\<lparr>tout := tout t @ concat (map wire (unless_closed c m))\<rparr>)"
  using assms by (cases "sentClose c") (simp_all add: ch_send_eq Encode_free unless_closed_def)

lemma read_tell_step:
  assumes inv: "close_inv x y M ms ns" and p: "p \<in> owned x" and k: "k \<in> set (untold x p)"
    and s: "s_send (ses x) p (WindowAdjustMessage (remoteId (channels x ! p)) k) = (e, s)"
  shows "\<exists>new. close_inv (x\<lparr>ses := s, untold := (untold x)(p := remove1 k (untold x p))\<rparr>) y M (ms @ new) ns"
proof -
  note o = owned_fit [OF inv p]
  let ?c = "channels x ! p"
  let ?e = "(end_of x p)\<lparr>euntold := remove1 k (untold x p)\<rparr>"
    and ?new = "unless_closed ?c (WindowAdjustMessage (remoteId ?c) k)"
  have "close_inv (after_party x p ?e ?new) y M (ms @ ?new) ns"
  proof (rule party_call [OF inv p])
    fix b ms' ns' assume "duplex (end_of x p) b ms' ns'" "localId (echan b) = remoteId ?c"
    from duplex_tell [OF this(1), of k] this(2) k show "duplex ?e b (ms' @ ?new) ns'" by simp
  qed (use o in \<open>simp_all add: unless_closed_def split: if_splits\<close>)
  moreover have "x\<lparr>ses := s, untold := (untold x)(p := remove1 k (untold x p))\<rparr> = after_party x p ?e ?new"
    using s ch_send_free [OF o(5)] by (auto simp: s_send_def after_party_def simp del: wire.simps)
  ultimately show ?thesis by metis
qed

lemma close_write_keeps:
  assumes inv: "close_inv x y M ms ns" and p: "p \<in> owned x" and s: "s_CloseWrite (ses x) p = (e, s)"
  shows "\<exists>new. close_inv (x\<lparr>ses := s\<rparr>) y M (ms @ new) ns"
proof -
  note o = owned_fit [OF inv p]
  let ?c = "channels x ! p"
  let ?e = "(end_of x p)\<lparr>echan := ?c\<lparr>sentEOF := True\<rparr>\<rparr>"
    and ?new = "unless_closed ?c (EOFMessage (remoteId ?c))"
  have "close_inv (after_party x p ?e ?new) y M (ms @ ?new) ns"
  proof (rule party_call [OF inv p])
    fix b ms' ns' assume "duplex (end_of x p) b ms' ns'" "localId (echan b) = remoteId ?c"
    from duplex_close_write [OF this(1)] this(2) show "duplex ?e b (ms' @ ?new) ns'" by simp
  qed (use o chan_fit_simps in \<open>simp_all add: unless_closed_def split: if_splits\<close>)
  moreover have "x\<lparr>ses := s\<rparr> = after_party x p ?e ?new"
    using s ch_send_free [OF o(5)]
    by (auto simp: s_CloseWrite_def CloseWrite_def Let_def after_party_def unless_closed_def simp del: wire.simps)
  ultimately show ?thesis by metis
qed

lemma close_keeps:
  assumes inv: "close_inv x y M ms ns" and p: "p \<in> owned x" and s: "s_Close (ses x) p = (e, s)"
  shows "\<exists>new. close_inv (x\<lparr>ses := s\<rparr>) y M (ms @ new) ns"
proof -
  note o = owned_fit [OF inv p]
  let ?c = "channels x ! p"
  let ?e = "(end_of x p)\<lparr>echan := ?c\<lparr>sentClose := True\<rparr>\<rparr>"
    and ?new = "unless_closed ?c (CloseMessage (remoteId ?c))"
  have "close_inv (after_party x p ?e ?new) y M (ms @ ?new) ns"
  proof (rule party_call [OF inv p])
    fix b ms' ns' assume "duplex (end_of x p) b ms' ns'" "localId (echan b) = remoteId ?c"
    from duplex_close [OF this(1)] this(2) show "duplex ?e b (ms' @ ?new) ns'" by simp
  qed (use o chan_fit_simps in \<open>simp_all add: unless_closed_def split: if_splits\<close>)
  moreover have "x\<lparr>ses := s\<rparr> = after_party x p ?e ?new"
    using s ch_send_free [OF o(5)]
    by (auto simp: s_Close_def ch_Close_def after_party_def simp del: wire.simps)
  ultimately show ?thesis by metis
qed


lemma write_keeps:
  assumes inv: "close_inv x y M ms ns" and p: "p \<in> owned x" and eof: "\<not> sentEOF (channels x ! p)"
    and cl: "sentClose (channels x ! p) \<longrightarrow> gone (channels x ! p)" and d: "data \<noteq> []" "length data < 2 ^ 32"
    and w: "s_write_iter (ses x) p data n = (r, s)"
  shows "\<exists>new. close_inv (x\<lparr>ses := s, sent_on := (sent_on x)(p := sent_on x p
       @ (case r of WContinue data' n' \<Rightarrow> take (n' - n) data | _ \<Rightarrow> []))\<rparr>) y M (ms @ new) ns"
proof -
  note o = owned_fit [OF inv p]
  define c where "c = channels x ! p"
  obtain q where q: "(p, q) \<in> M" using owned_end [OF inv p] by blast
  have dup: "duplex (end_of x p) (settle (end_of y q) (end_of x p)) (body (toward (channels y ! q) ms)) (body (toward (channels x ! p) ns))"
    using close_invD(14) [OF inv q] o(2) by (simp add: connected_ends_def)
  obtain g v where r: "reserve (remoteWin c) (min32 (maxRemotePayload c) (length data)) = (g, v)"
    by (cases "reserve (remoteWin c) (min32 (maxRemotePayload c) (length data))")
  show ?thesis
  proof (cases "g = None \<or> gone c")
    case True
    let ?e = "(end_of x p)\<lparr>echan := c\<lparr>remoteWin := v\<rparr>\<rparr>"
    have v: "wclosed v = gone c" using duplex_write_nothing [OF dup] r True by (simp add: c_def)
    have "close_inv (after_party x p ?e []) y M (ms @ []) ns"
    proof (rule party_call [OF inv p])
      fix b ms' ns' assume "duplex (end_of x p) b ms' ns'"
      from duplex_write_nothing [OF this] r True show "duplex ?e b (ms' @ []) ns'" by (simp add: c_def)
    qed (use o chan_fit_simps v in \<open>simp_all add: c_def\<close>)
    moreover have "g = None \<or> (\<exists>k. g = Some (k, Some EOF))"
      using r True reserve_grant [of "remoteWin c" _ "fst (the g)" "snd (the g)" v] by (cases g) auto
    then have "case r of WContinue data' n' \<Rightarrow> False | _ \<Rightarrow> True" "s = set_chan (ses x) p (c\<lparr>remoteWin := v\<rparr>)"
      using w r by (auto simp: s_write_iter_def write_iter_def c_def Let_def set_chan_def)
    then have "x\<lparr>ses := s, sent_on := (sent_on x)(p := sent_on x p
        @ (case r of WContinue data' n' \<Rightarrow> take (n' - n) data | _ \<Rightarrow> []))\<rparr> = after_party x p ?e []"
      by (cases r) (simp_all add: after_party_def set_chan_def)
    ultimately show ?thesis by metis
  next
    case False
    then obtain k er where k: "g = Some (k, er)" by (cases g) auto
    have er: "er = None" "\<not> sentClose c" using reserve_grant [OF r [unfolded k]] False cl by (auto simp: c_def)
    note r' = r [unfolded k er(1)]
    note dw = duplex_write [OF dup _ _ d, of k v]
    have v: "unat k \<le> length data" "wclosed v = gone c" using dw r' eof er(2) by (simp_all add: c_def)
    let ?m = "DataMessage (remoteId c) k (take (unat k) data)"
    let ?e = "(end_of x p)\<lparr>echan := c\<lparr>remoteWin := v\<rparr>, ewrote := sent_on x p @ take (unat k) data\<rparr>"
    have len: "(of_nat (length (take (unat k) data)) :: u32) = k" using v(1) by (simp add: min_def)
    have "close_inv (after_party x p ?e [?m]) y M (ms @ [?m]) ns"
    proof (rule party_call [OF inv p])
      fix b ms' ns' assume "duplex (end_of x p) b ms' ns'" "localId (echan b) = remoteId (channels x ! p)"
      from duplex_write [OF this(1) _ _ d, of k v] this(2) r' eof er(2) show "duplex ?e b (ms' @ [?m]) ns'"
        by (simp add: c_def)
    qed (use o chan_fit_simps v er(2) in \<open>auto simp: c_def min_def\<close>)
    moreover have "x\<lparr>ses := s, sent_on := (sent_on x)(p := sent_on x p
        @ (case r of WContinue data' n' \<Rightarrow> take (n' - n) data | _ \<Rightarrow> []))\<rparr> = after_party x p ?e [?m]"
      using w r' v(1) len Encode_free [OF o(5)]
      by (auto simp: s_write_iter_def write_iter_def c_def Let_def after_party_def set_chan_def
          min_def simp del: wire.simps)
    ultimately show ?thesis by metis
  qed
qed

text \<open>Taking a channel from its queue of messages or from the inbox changes nothing the invariant speaks of.\<close>

lemma close_inv_same:
  assumes inv: "close_inv x y M ms ns" and fit: "party_fit x'"
    and same: "length (channels x') = length (channels x)"
      "\<And>p. localId (channels x' ! p) = localId (channels x ! p) \<and> gone (channels x' ! p) = gone (channels x ! p)"
      "\<And>p a ms ns. asking (end_of x p) a ns \<Longrightarrow> asking (end_of x' p) a ns"
      "\<And>p b ms ns. connected_ends (end_of x p) b ms ns \<Longrightarrow> connected_ends (end_of x' p) b ms ns"
      "arriving x' = arriving x" "outgoing x' = outgoing x" "chans (ses x') = chans (ses x)"
  shows "close_inv x' y M ms ns"
proof -
  note i = close_invD [OF inv]
  have t: "toward (channels x' ! p) = toward (channels x ! p)" "requests (channels x' ! p) = requests (channels x ! p)" for p
    using same(2) [of p] by (simp_all add: toward_def requests_def fun_eq_iff)
  have "flight x' y ms" "flight y x' ns" using i(7,8) by (simp_all add: flight_def same)
  moreover have "routed x' y U = routed x y U" "routed y x' U = routed y x U" for U
    using same(1,2,7) by (auto simp: routed_def fun_eq_iff)
  ultimately show ?thesis
    using inv fit same(1,3,4) unfolding close_inv_def side_inv_def matched_def t by auto
qed


lemma conn_msgs:
  assumes "connected_ends a b ms ns"
  shows "connected_ends (a\<lparr>echan := (echan a)\<lparr>msgs := q\<rparr>\<rparr>) b ms ns"
proof -
  let ?a = "a\<lparr>echan := (echan a)\<lparr>msgs := q\<rparr>\<rparr>"
  have "duplex (settle a b) (settle b a) (body ms) (body ns)" using assms by (simp add: connected_ends_def)
  then have "duplex (settle ?a b) (settle b a) (body ms) (body ns)"
    by (rule duplex_cong) (simp_all add: settle_def settled_def)
  moreover have "settle b ?a = settle b a" by (simp add: settle_def)
  moreover have "announced ?a b ms ns = announced a b ms ns" "announced b ?a ns ms = announced b a ns ms"
    by (simp_all add: announced_def confirm_of_def)
  ultimately show ?thesis using assms by (simp add: connected_ends_def)
qed

lemma open_finish_keeps:
  assumes inv: "close_inv x y M ms ns" and p: "p < length (channels x)"
    and f: "Open_finish (ses x) p ctx = (r, s)"
  shows "close_inv (x\<lparr>ses := s, owned := owned x \<union> obtained r\<rparr>) y M ms ns"
proof -
  note i = close_invD [OF inv]
  define c where "c = channels x ! p"
  have ok: "chan_fit c" unfolding c_def using i(17) [OF p] .
  have "\<exists>q. s = set_chan (ses x) p (c\<lparr>msgs := q\<rparr>) \<and> chan_fit (c\<lparr>msgs := q\<rparr>)
      \<and> (obtained r = {} \<or> obtained r = {p} \<and> joined c \<and> direction c = channelOutbound)"
  proof (cases "ctx \<noteq> None \<or> qbuf (msgs c) = []")
    case True
    then have "s = ses x" "obtained r = {}"
      using f by (cases ctx; auto simp: Open_finish_def chan_recv_def obtained_def c_def split: if_splits)+
    then show ?thesis using ok by (intro exI [of _ "msgs c"]) (simp add: set_chan_def c_def)
  next
    case False
    then obtain m q where m: "qbuf (msgs c) = m # q" "ctx = None" by (cases "qbuf (msgs c)") auto
    then have "joined c" "direction c = channelOutbound" "chan_fit (c\<lparr>msgs := (msgs c)\<lparr>qbuf := q\<rparr>\<rparr>)"
      using ok by (cases "direction c"; auto simp: chan_fit_def)+
    moreover have "s = set_chan (ses x) p (c\<lparr>msgs := (msgs c)\<lparr>qbuf := q\<rparr>\<rparr>)" "obtained r = {} \<or> obtained r = {p}"
      using f m by (auto simp: Open_finish_def chan_recv_def obtained_def c_def split: message.splits)
    ultimately show ?thesis by blast
  qed
  then obtain q where q: "s = set_chan (ses x) p (c\<lparr>msgs := q\<rparr>)" "chan_fit (c\<lparr>msgs := q\<rparr>)"
    "obtained r = {} \<or> obtained r = {p} \<and> joined c \<and> direction c = channelOutbound" by blast
  let ?x = "x\<lparr>ses := s, owned := owned x \<union> obtained r\<rparr>"
  have e: "end_of ?x r = (if r = p then (end_of x p)\<lparr>echan := c\<lparr>msgs := q\<rparr>\<rparr> else end_of x r)" for r
    using q(1) p by (simp add: end_of_def)
  have ch: "channels ?x = (channels x)[p := c\<lparr>msgs := q\<rparr>]" using q(1) by simp
  have "party_fit ?x"
  proof -
    have "session_fit s"
      using session_fit_set [OF i(3) p q(2), of "trans (ses x)"] session_fit_trans [OF i(3)] q(1)
      by (simp add: c_def set_chan_def)
    moreover have "parked_on (sloop x) \<noteq> Some p" if "obtained r = {p}"
    proof
      assume k: "parked_on (sloop x) = Some p"
      have "p \<in> Domain M"
      proof (rule ccontr)
        assume "p \<notin> Domain M"
        from i(11) [OF p this] k show False by (simp add: asking_def)
      qed
      then obtain q' where q': "(p, q') \<in> M" by blast
      note cn = i(14) [OF q']
      have "\<not> joined (channels y ! q')" using cn k by (auto simp: connected_ends_def announced_def split: if_splits)
      then have "direction (channels y ! q') = channelOutbound"
        using i(13) [OF q'] i(18) [of q'] by (simp add: chan_fit_def)
      then show False using cn q(3) that by (simp add: connected_ends_def c_def)
    qed
    ultimately show ?thesis
      using i(1) p q(1,3) by (auto simp: party_fit_def nth_list_update c_def parked_on_def split: if_splits)
  qed
  then show ?thesis
  proof (rule close_inv_same [OF inv])
    show "localId (channels ?x ! r) = localId (channels x ! r) \<and> gone (channels ?x ! r) = gone (channels x ! r)" for r
      unfolding ch using p by (cases "r = p") (simp_all add: c_def)
    show "asking (end_of ?x r) a ns'" if "asking (end_of x r) a ns'" for r a ns'
      using that unfolding e by (auto simp: asking_def c_def)
    show "connected_ends (end_of ?x r) b ms' ns'" if "connected_ends (end_of x r) b ms' ns'" for r b ms' ns'
      using that conn_msgs [of "end_of x p" b ms' ns' q] unfolding e by (auto simp: c_def)
  qed (simp_all add: q(1) set_chan_def)
qed

lemma accept_keeps:
  assumes inv: "close_inv x y M ms ns" and a: "Accept (ses x) b = (r, s)"
  shows "close_inv (x\<lparr>ses := s, owned := owned x \<union> obtained r\<rparr>) y M ms ns"
proof -
  note i = close_invD [OF inv]
  have "qbuf (closeCh (ses x)) = []" "\<not> qclosed (closeCh (ses x))" "\<not> qclosed (inbox (ses x))"
    using i(3) by (auto simp: session_fit_def)
  then have "s = ses x \<and> obtained r = {} \<or> (\<exists>p q. qbuf (inbox (ses x)) = p # q
      \<and> s = (ses x)\<lparr>inbox := (inbox (ses x))\<lparr>qbuf := q\<rparr>\<rparr> \<and> obtained r = {p})"
    using a by (auto simp: Accept_def chan_recv_def obtained_def split: list.splits)
  then have s: "heap s = heap (ses x)" "chans s = chans (ses x)" "trans s = trans (ses x)" "session_fit s"
    "obtained r \<subseteq> set (qbuf (inbox (ses x)))" "set (qbuf (inbox s)) \<subseteq> set (qbuf (inbox (ses x)))"
    using i(3) by (auto simp: session_fit_def table_fit_def)
  let ?x = "x\<lparr>ses := s, owned := owned x \<union> obtained r\<rparr>"
  have "\<forall>p \<in> obtained r. p < length (channels x) \<and> joined (channels x ! p)"
    using i(3) s(5) by (auto simp: session_fit_def)
  then have "party_fit ?x" using i(1) s(1,4,5,6) unfolding party_fit_def by auto
  moreover have e: "end_of ?x p = end_of x p" for p by (simp add: end_of_def s(1))
  ultimately show ?thesis by (intro close_inv_same [OF inv]) (simp_all add: e s(1-3) del: end_of_simps)
qed


section \<open>The arrival of a packet\<close>

text \<open>Every packet but a request is for a channel in the table, and is the next of its connection.\<close>

lemma arrival:
  assumes inv: "close_inv x y M ms (m # ns)" and m: "\<not> is_OpenMessage m"
  obtains p q where "getChan (chans (ses x)) (fst (msg_Channel m)) = Some p" "msg_Channel m = (localId (channels x ! p), True)"
    "(p, q) \<in> M" "p < length (channels x)" "\<not> gone (channels x ! p)"
    "connected_ends (end_of x p) (end_of y q) (toward (channels y ! q) ms) (m # toward (channels x ! p) ns)"
proof -
  note i = close_invD [OF inv]
  have "routed y x (Range M) m" using i(10) by simp
  then obtain p where p: "getChan (chans (ses x)) (fst (msg_Channel m)) = Some p" using m by (auto simp: routed_def)
  note g = table_got [OF i(5) p]
  have ch: "msg_Channel m = (localId (channels x ! p), True)" using g m by (cases m) auto
  have "p \<in> Domain M"
  proof (rule ccontr)
    assume "p \<notin> Domain M"
    have "asking (end_of x p) (requests (channels x ! p) ms) (toward (channels x ! p) (m # ns))"
      using i(11) g \<open>p \<notin> Domain M\<close> by blast
    with conjunct2 [OF conjunct2 [OF g]] ch show False by (simp add: asking_def)
  qed
  then obtain q where q: "(p, q) \<in> M" by blast
  have "connected_ends (end_of x p) (end_of y q) (toward (channels y ! q) ms) (m # toward (channels x ! p) ns)"
    using i(14) [OF q] conjunct2 [OF conjunct2 [OF g]] ch by simp
  then show ?thesis by (rule that [OF p ch q conjunct1 [OF g] conjunct2 [OF conjunct2 [OF g]]])
qed

lemma handle_stream_fit:
  assumes "handle_stream c m = Some (e, c')" "chan_fit c" "joined c"
  shows "chan_fit c' \<and> localId c' = localId c \<and> remoteId c' = remoteId c \<and> direction c' = direction c \<and> joined c'"
proof (cases m)
  case (WindowAdjustMessage cid n)
  then have "c' = c\<lparr>remoteWin := snd (window_add (remoteWin c) n)\<rparr>"
    using assms(1) by (auto simp: split_beta)
  then show ?thesis using assms(2,3) chan_fit_simps(5) by simp
qed (use assms chan_fit_simps(1,2) in \<open>auto simp: handleData_def split: if_splits\<close>)

lemma stream_keeps:
  assumes inv: "close_inv x y M ms (m # ns)" and m: "\<not> is_OpenMessage m" "\<not> is_OpenConfirmMessage m" "\<not> is_CloseMessage m"
    and t: "free_transport t" "length (chunks (tin t)) \<le> 1" "tout t = outgoing x"
      "\<And>z. arriving z = stream_content (tin t) \<Longrightarrow> flight y z ns"
    and d: "dispatch ((ses x)\<lparr>trans := t\<rparr>) m = (h, s)"
  shows "h = Handled None \<and> close_inv (x\<lparr>ses := s\<rparr>) y M (ms @ []) ns"
proof -
  note i = close_invD [OF inv]
  obtain p q where g: "getChan (chans (ses x)) (fst (msg_Channel m)) = Some p" "msg_Channel m = (localId (channels x ! p), True)"
    and pq: "(p, q) \<in> M" and p: "p < length (channels x)" "\<not> gone (channels x ! p)"
    and c: "connected_ends (end_of x p) (end_of y q) (toward (channels y ! q) ms) (m # toward (channels x ! p) ns)"
    using arrival [OF inv m(1)] .
  note hd = conn_head [OF c m(2)]
  have "handle_stream (channels x ! p) m \<noteq> None"
    using hd(5) m by (cases m) (auto split: prod.splits)
  then obtain e c' where hs: "handle_stream (channels x ! p) m = Some (e, c')" by auto
  have rc: "e = None \<and> gone c' = gone (channels x ! p)
      \<and> duplex ((end_of x p)\<lparr>echan := c'\<rparr>) (end_of y q) (toward (channels y ! q) ms) (toward (channels x ! p) ns)"
    using duplex_receive [OF hd(7)] hs by simp
  note ft = handle_stream_fit [OF hs i(17) [OF p(1)]]
  have j: "joined (channels x ! p)" using hd(1) by simp
  let ?s = "set_chan ((ses x)\<lparr>trans := t\<rparr>) p c'"
  have "dispatch ((ses x)\<lparr>trans := t\<rparr>) m = handle ((ses x)\<lparr>trans := t\<rparr>) p m"
    using g by (simp add: dispatch_def)
  also have "\<dots> = (Handled e, ?s)" by (rule handle_stream_handle) (simp add: hs)
  finally have hs': "h = Handled None" "s = ?s" using d rc by simp_all
  have s: "s = (set_chan (ses x) p c')\<lparr>trans := t\<rparr>" using hs'(2) by (simp add: set_chan_def)
  let ?x = "x\<lparr>ses := s\<rparr>"
  have e: "end_of ?x r = (if r = p then (end_of x p)\<lparr>echan := c'\<rparr> else end_of x r)" for r
    using p(1) by (simp add: end_of_def s)
  have "session_fit s"
    using session_fit_set [OF i(3) p(1), of c' t] ft [OF j] rc t(1,2) s by simp
  then have fit: "party_fit ?x" by (rule party_fit_set [OF i(1), where p = p and c = c']) (use s ft [OF j] in simp_all)
  have "close_inv ?x y M (ms @ []) ns"
  proof (rule touch [OF _ pq fit, where pre = "[m]" and c' = c'])
    show "close_inv x y M ms ([m] @ ns)" using inv by simp
    show "flight y ?x ns" by (rule t(4)) (simp add: s)
    show "connected_ends (end_of ?x p) (end_of y q) (toward (channels y ! q) ms @ []) (toward c' ns)"
      unfolding e using conn_receive [OF c m(2), of "[]" "(end_of x p)\<lparr>echan := c'\<rparr>"] ft [OF j] rc hd
        toward_cong [of c' "channels x ! p"] by simp
  qed (use p g(2) ft [OF j] rc t(3) in \<open>simp_all add: s e\<close>)
  then show ?thesis using hs'(1) by simp
qed


text \<open>A handled \<open>Close\<close>.\<close>

lemma handle_close_eq:
  assumes "free_transport (trans s)" "\<not> qclosed (msgs (heap s ! p))"
  obtains c where "ch_close ((heap s ! p)\<lparr>sentClose := True\<rparr>) = Some c"
    "handle_close s p = (Handled None, (set_chan s p c)\<lparr>chans := chans_remove (chans s) (localId (heap s ! p)),
       trans := (trans s)\<lparr>tout := tout (trans s)
         @ concat (map wire (unless_closed (heap s ! p) (CloseMessage (remoteId (heap s ! p)))))\<rparr>\<rparr>)"
proof -
  let ?c = "(heap s ! p)\<lparr>sentClose := True\<rparr>"
  have "ch_close ?c \<noteq> None" using assms(2) ch_close_Some [of ?c] by simp
  then obtain c where c: "ch_close ?c = Some c" by blast
  have "?c = heap s ! p" if "sentClose (heap s ! p)" using that by simp
  then show ?thesis
    using that [OF c] c ch_send_free [OF assms(1), of "heap s ! p"]
    by (simp add: handle_close_def Let_def set_chan_def split: if_splits)
qed

lemma ch_close_fit:
  assumes "ch_close c = Some c'" "chan_fit c" "joined c"
  shows "chan_fit c' \<and> joined c' \<and> localId c' = localId c \<and> remoteId c' = remoteId c \<and> direction c' = direction c \<and> gone c'"
  using assms
  by (auto simp: ch_close_def chan_close_def Let_def chan_fit_def joined_def window_close_def split: if_splits)

lemma table_fit_remove:
  assumes "table_fit s" "p < length (heap s)" "\<not> gone (heap s ! p)" "gone c"
  shows "table_fit ((set_chan s p c)\<lparr>chans := chans_remove (chans s) (localId (heap s ! p)), trans := t\<rparr>)"
proof -
  have sm: "small (chans s)" using assms(1) by (simp add: table_fit_def small_def)
  have g: "getChan (chans s) (localId (heap s ! p)) = Some p" by (rule table_get [OF assms(1-3)])
  let ?i = "localId (heap s ! p)"
  have "getChan (chans_remove (chans s) ?i) i = Some r \<longleftrightarrow> r < length (heap s)
      \<and> localId ((heap s)[p := c] ! r) = i \<and> \<not> gone ((heap s)[p := c] ! r)" for i r
  proof (cases "r = p")
    case True
    have "getChan (chans s) i = Some p \<Longrightarrow> i = ?i" using table_got [OF assms(1), of i p] by simp
    then show ?thesis using True assms(2,4) ctab.find_drop [OF sm, of ?i i] by auto
  next
    case False
    have "getChan (chans s) ?i \<noteq> Some r" using g False by simp
    then show ?thesis using False assms(1) ctab.find_drop [OF sm, of ?i i] by (auto simp: table_fit_def)
  qed
  moreover have "length (chans_remove (chans s) ?i) = length (chans s)" by (simp add: chans_remove_def)
  ultimately show ?thesis using assms(1) by (simp add: table_fit_def)
qed

lemma close_arrives:
  assumes inv: "close_inv x y M ms (m # ns)" and m: "is_CloseMessage m"
    and t: "free_transport t" "length (chunks (tin t)) \<le> 1" "tout t = outgoing x"
      "\<And>z. arriving z = stream_content (tin t) \<Longrightarrow> flight y z ns"
    and d: "dispatch ((ses x)\<lparr>trans := t\<rparr>) m = (h, s)"
  shows "h = Handled None \<and> (\<exists>new. close_inv (x\<lparr>ses := s\<rparr>) y M (ms @ new) ns)"
proof -
  note i = close_invD [OF inv]
  have no: "\<not> is_OpenMessage m" "\<not> is_OpenConfirmMessage m" using m by (cases m; simp)+
  obtain p q where g: "getChan (chans (ses x)) (fst (msg_Channel m)) = Some p" "msg_Channel m = (localId (channels x ! p), True)"
    and pq: "(p, q) \<in> M" and p: "p < length (channels x)" "\<not> gone (channels x ! p)"
    and c: "connected_ends (end_of x p) (end_of y q) (toward (channels y ! q) ms) (m # toward (channels x ! p) ns)"
    using arrival [OF inv no(1)] .
  note hd = conn_head [OF c no(2)]
  have j: "joined (channels x ! p)" and r: "remoteId (channels x ! p) = localId (channels y ! q)"
    using hd(1,6) by simp_all
  note fit = i(17) [OF p(1)]
  define new where "new = unless_closed (channels x ! p) (CloseMessage (localId (channels y ! q)))"
  let ?s = "(ses x)\<lparr>trans := t\<rparr>"
  have "\<not> qclosed (msgs (heap ?s ! p))" using fit p(2) by (simp add: chan_fit_def)
  then obtain c' where c': "ch_close ((channels x ! p)\<lparr>sentClose := True\<rparr>) = Some c'"
    and hc: "handle_close ?s p = (Handled None, (set_chan ?s p c')\<lparr>chans := chans_remove (chans ?s) (localId (channels x ! p)),
       trans := t\<lparr>tout := outgoing x @ concat (map wire new)\<rparr>\<rparr>)"
    using handle_close_eq [of ?s p] t(1,3) by (auto simp: r new_def)
  have "dispatch ?s m = handle_close ?s p" using m g by (cases m) (simp_all add: dispatch_def)
  then have hs: "h = Handled None" "s = (set_chan (ses x) p c')\<lparr>chans := chans_remove (chans (ses x)) (localId (channels x ! p)),
       trans := t\<lparr>tout := outgoing x @ concat (map wire new)\<rparr>\<rparr>"
    using d hc by (simp_all add: set_chan_def)
  have "chan_fit ((channels x ! p)\<lparr>sentClose := True\<rparr>)" using fit j chan_fit_simps(4) by blast
  with ch_close_fit [OF c'] j have ft: "chan_fit c' \<and> joined c' \<and> localId c' = localId (channels x ! p)
      \<and> remoteId c' = remoteId (channels x ! p) \<and> direction c' = direction (channels x ! p) \<and> gone c'" by simp
  have dc: "toward (channels x ! p) ns = []"
    "duplex ((end_of x p)\<lparr>echan := c'\<rparr>) (end_of y q) (toward (channels y ! q) ms @ new) (toward (channels x ! p) ns)"
    using duplex_closed [OF hd(7) m, of c'] c' unfolding new_def by (simp, metis end_of_simps(1))
  let ?x = "x\<lparr>ses := s\<rparr>"
  have e: "end_of ?x r = (if r = p then (end_of x p)\<lparr>echan := c'\<rparr> else end_of x r)" for r
    using p(1) by (simp add: end_of_def hs(2))
  have "session_fit s"
    using p(1) i(3) table_fit_remove [OF i(5) p(1,2), of c'] ft t(1,2) unfolding hs(2) session_fit_def
    by (auto simp: nth_list_update)
  then have fit': "party_fit ?x" by (rule party_fit_set [OF i(1), where p = p and c = c']) (use hs(2) ft in simp_all)
  have oy: "new \<noteq> [] \<longrightarrow> \<not> gone (channels y ! q)"
    using flow_gone(3) [of "end_of x p" "end_of y q"] hd(7) by (auto simp: duplex_def new_def unless_closed_def)
  have "close_inv ?x y M (ms @ new) ns"
  proof (rule touch [OF _ pq fit', where pre = "[m]" and c' = c'])
    show "close_inv x y M ms ([m] @ ns)" using inv by simp
    show "flight y ?x ns" by (rule t(4)) (simp add: hs(2))
    show "connected_ends (end_of ?x p) (end_of y q) (toward (channels y ! q) ms @ new) (toward c' ns)"
      unfolding e using conn_receive [OF c no(2), of new "(end_of x p)\<lparr>echan := c'\<rparr>"] ft dc hd(3)
      by (simp add: toward_def new_def unless_closed_def)
  qed (use p g(2) ft dc(1) oy in \<open>simp_all add: hs(2) e new_def unless_closed_def split: if_splits\<close>)
  then show ?thesis using hs(1) by blast
qed


text \<open>A confirmation.\<close>

lemma confirm_handled:
  assumes g: "getChan (chans s) (localId (heap s ! p)) = Some p" and fit: "chan_fit (heap s ! p)" "\<not> joined (heap s ! p)"
  shows "dispatch s (confirm_of (heap s ! p) d) = (Handled None, set_chan s p
    ((settled (heap s ! p) (localId d))\<lparr>msgs := (msgs (heap s ! p))\<lparr>qbuf := [confirm_of (heap s ! p) d]\<rparr>\<rparr>))"
proof -
  let ?c = "heap s ! p"
  have c: "responseMessageReceived ?c = None" "remoteWin ?c = new_window" "qbuf (msgs ?c) = []"
    "\<not> qclosed (msgs ?c)" "qcap (msgs ?c) = chanSize"
    using fit by (auto simp: chan_fit_def responseMessageReceived_def new_window_def)
  have w: "snd (window_add new_window channelWindowSize) = new_window\<lparr>win := channelWindowSize\<rparr>"
    by (simp add: window_add_def new_window_def)
  show ?thesis
    using g c w fit(2)
    by (cases "p < length (heap s)")
      (simp_all add: confirm_of_def dispatch_def Let_def deliver_def chan_send_def set_chan_def settled_def list_update_beyond)
qed

lemma confirm_arrives:
  assumes inv: "close_inv x y M ms (m # ns)" and m: "is_OpenConfirmMessage m"
    and t: "free_transport t" "length (chunks (tin t)) \<le> 1" "tout t = outgoing x"
      "\<And>z. arriving z = stream_content (tin t) \<Longrightarrow> flight y z ns"
    and d: "dispatch ((ses x)\<lparr>trans := t\<rparr>) m = (h, s)"
  shows "h = Handled None \<and> close_inv (x\<lparr>ses := s\<rparr>) y M (ms @ []) ns"
proof -
  note i = close_invD [OF inv]
  have no: "\<not> is_OpenMessage m" using m by (cases m; simp)
  obtain p q where g: "getChan (chans (ses x)) (fst (msg_Channel m)) = Some p" "msg_Channel m = (localId (channels x ! p), True)"
    and pq: "(p, q) \<in> M" and p: "p < length (channels x)" "\<not> gone (channels x ! p)"
    and c: "connected_ends (end_of x p) (end_of y q) (toward (channels y ! q) ms) (m # toward (channels x ! p) ns)"
    using arrival [OF inv no] .
  note cf = conn_confirmed [OF c m, simplified]
  note fit = i(17) [OF p(1)]
  let ?s = "(ses x)\<lparr>trans := t\<rparr>"
  define c' where "c' = (settled (channels x ! p) (localId (channels y ! q)))\<lparr>msgs := (msgs (channels x ! p))\<lparr>qbuf := [m]\<rparr>\<rparr>"
  have "dispatch ?s m = (Handled None, set_chan ?s p c')"
    using confirm_handled [of ?s p "channels y ! q"] g fit cf(1,2) by (simp add: c'_def)
  then have hs: "h = Handled None" "s = (set_chan (ses x) p c')\<lparr>trans := t\<rparr>" using d by (simp_all add: set_chan_def)
  have ft: "chan_fit c'" "joined c'" "localId c' = localId (channels x ! p)" "gone c' = gone (channels x ! p)"
    using fit cf(2) by (auto simp: c'_def settled_def chan_fit_def joined_def new_window_def)
  let ?x = "x\<lparr>ses := s\<rparr>"
  have e: "end_of ?x r = (if r = p then (end_of x p)\<lparr>echan := c'\<rparr> else end_of x r)" for r
    using p(1) by (simp add: end_of_def hs(2))
  have "session_fit s"
    using session_fit_set [OF i(3) p(1) ft(1,3,4), of t] ft(2) t(1,2) hs(2) by simp
  then have fit': "party_fit ?x" by (rule party_fit_set [OF i(1), where p = p and c = c']) (use hs(2) ft in simp_all)
  have "close_inv ?x y M (ms @ []) ns"
  proof (rule touch [OF _ pq fit', where pre = "[m]" and c' = c'])
    show "close_inv x y M ms ([m] @ ns)" using inv by simp
    show "flight y ?x ns" by (rule t(4)) (simp add: hs(2))
    show "connected_ends (end_of ?x p) (end_of y q) (toward (channels y ! q) ms @ []) (toward c' ns)"
      unfolding e using cf(3) [of "(msgs (channels x ! p))\<lparr>qbuf := [m]\<rparr>"] toward_cong [OF ft(3,4)] by (simp add: c'_def)
  qed (use p g(2) ft t(3) in \<open>simp_all add: hs(2) e\<close>)
  then show ?thesis using hs(1) by simp
qed

end
