(* ===== verification/CloseNetOpen.thy ===== *)
theory CloseNetOpen
  imports CloseNetInv
begin

text \<open>
  Opening channels in CloseNet: a request, its answer, which may be held back by a full inbox, and with it the
  connection of the two ends.  The new channel takes the lowest free id, which a closed channel may have had
  before; no message on its way names that id.  The last section puts the steps together.
\<close>

section \<open>A new channel\<close>

definition fresh_id :: "session \<Rightarrow> u32" where
  "fresh_id s = fst (chans_add (chans s) (length (heap s)))"

definition add_chan :: "session \<Rightarrow> channel \<Rightarrow> session" where
  "add_chan s c = s\<lparr>heap := heap s @ [c], chans := snd (chans_add (chans s) (length (heap s)))\<rparr>"

lemma add_chan_simps [simp]:
  "heap (add_chan s c) = heap s @ [c]" "trans (add_chan s c) = trans s" "inbox (add_chan s c) = inbox s"
  "closeCh (add_chan s c) = closeCh s" "serr (add_chan s c) = serr s"
  by (simp_all add: add_chan_def)

lemma add_chan_set [simp]: "set_chan (add_chan s c) (length (heap s)) c' = add_chan s c'"
  by (simp add: set_chan_def add_chan_def)

lemma newChannel_eq: "newChannel s dir = (length (heap s), add_chan s ((new_chan dir)\<lparr>localId := fresh_id s\<rparr>))"
  by (simp add: newChannel_def add_chan_def fresh_id_def Let_def split: prod.split)

lemma fresh_unused: "table_fit s \<Longrightarrow> getChan (chans s) (fresh_id s) = None"
  by (simp add: fresh_id_def table_fit_def small_def ctab.insert_fresh)

lemma fresh_id_differs:
  "table_fit s \<Longrightarrow> p < length (heap s) \<Longrightarrow> \<not> gone (heap s ! p) \<Longrightarrow> localId (heap s ! p) \<noteq> fresh_id s"
  using fresh_unused [of s] table_get [of s p] by force

lemma add_chan_get:
  "table_fit s \<Longrightarrow> getChan (chans (add_chan s c)) i = (if i = fresh_id s then Some (length (heap s)) else getChan (chans s) i)"
  by (simp add: add_chan_def fresh_id_def table_fit_def ctab.find_insert)

lemma table_fit_add:
  assumes "table_fit s" "localId c = fresh_id s" "\<not> gone c" "length (chans (add_chan s c)) + 1 < 2 ^ 32"
  shows "table_fit (add_chan s c)"
proof -
  have "getChan (chans (add_chan s c)) i = Some r \<longleftrightarrow> r < length (heap (add_chan s c))
      \<and> localId (heap (add_chan s c) ! r) = i \<and> \<not> gone (heap (add_chan s c) ! r)" for i r
  proof (cases "r < length (heap s)")
    case True
    then show ?thesis
      using assms(1) fresh_id_differs [OF assms(1) True] add_chan_get [OF assms(1), of c i]
      by (auto simp: nth_append table_fit_def)
  next
    case False
    have "getChan (chans s) i \<noteq> Some r" using False assms(1) by (simp add: table_fit_def)
    then show ?thesis
      using False assms(2,3) add_chan_get [OF assms(1), of c i] by (auto simp: nth_append less_Suc_eq)
  qed
  then show ?thesis using assms(4) by (simp add: table_fit_def)
qed

lemma session_fit_add:
  assumes "session_fit s" "localId c = fresh_id s" "\<not> gone c" "chan_fit c" "length (chans (add_chan s c)) + 1 < 2 ^ 32"
  shows "session_fit (add_chan s c)"
  using assms table_fit_add [of s c] by (auto simp: session_fit_def nth_append less_Suc_eq)

lemma session_fit_queue:
  assumes "session_fit s" "heap s' = heap s" "chans s' = chans s" "closeCh s' = closeCh s" "serr s' = serr s"
    "qclosed (inbox s') = qclosed (inbox s)" "qcap (inbox s') = qcap (inbox s)"
    "set (qbuf (inbox s')) \<subseteq> insert p (set (qbuf (inbox s)))" "p < length (heap s)" "joined (heap s ! p)"
    "free_transport (trans s')" "length (chunks (tin (trans s'))) \<le> 1"
  shows "session_fit s'"
proof -
  have "\<forall>r \<in> set (qbuf (inbox s')). r < length (heap s) \<and> joined (heap s ! r)"
    using assms(1,8-10) by (auto simp: session_fit_def)
  then show ?thesis using assms by (simp add: session_fit_def table_fit_def)
qed

lemma party_fit_grow:
  assumes "party_fit x" "session_fit s" "heap s = channels x @ [c]" "sloop x = Running"
    "st = Running \<or> st = OnInbox (length (channels x)) \<and> joined c \<and> set (qbuf (inbox s)) = set (qbuf (inbox (ses x)))"
  shows "party_fit (x\<lparr>sloop := st, ses := s\<rparr>)"
proof -
  have o: "\<forall>p \<in> owned x. p < length (channels x) \<and> joined (channels x ! p)"
    using assms(1) by (simp add: party_fit_def)
  then have "length (channels x) \<notin> owned x" by blast
  moreover have "length (channels x) \<notin> set (qbuf (inbox (ses x)))"
    using assms(1) by (auto simp: party_fit_def session_fit_def)
  moreover have "\<forall>p \<in> owned x. p < length (heap s) \<and> joined (heap s ! p)"
    using o assms(3) by (auto simp: nth_append)
  ultimately show ?thesis
    using assms by (auto simp: party_fit_def)
qed

text \<open>A channel of a connection, and one that waits for it, is in the table when it has a message or no peer.\<close>

lemma waits_in_table:
  assumes "close_inv x y M ms ns" "p < length (channels x)" "p \<notin> Domain M"
  shows "\<not> gone (channels x ! p)" "\<not> joined (channels x ! p)"
proof -
  note i = close_invD [OF assms(1)]
  show j: "\<not> joined (channels x ! p)" using i(11) [OF assms(2,3)] by (simp add: asking_def)
  then show "\<not> gone (channels x ! p)" using i(17) [OF assms(2)] by (simp add: chan_fit_def new_window_def)
qed

lemma fresh_unnamed:
  assumes inv: "close_inv x y M ms ns" and c: "localId c = fresh_id (ses x)"
  shows "requests c ms = []" "toward c ns = []"
proof -
  note i = close_invD [OF inv]
  have "\<not> (is_OpenMessage m \<and> SenderID m = localId c)" if mem: "m \<in> set ms" for m
  proof
    assume o: "is_OpenMessage m \<and> SenderID m = localId c"
    then obtain p where p: "p < length (channels x)" "p \<notin> Domain M" "localId (channels x ! p) = localId c"
      using i(9) [OF mem] by (auto simp: routed_def)
    show False using fresh_id_differs [OF i(5) p(1) waits_in_table(1) [OF inv p(1,2)]] p(3) c by simp
  qed
  then show "requests c ms = []" by (auto simp: requests_def filter_empty_conv)
  have "msg_Channel m \<noteq> (localId c, True)" if mem: "m \<in> set ns" for m
  proof
    assume ch: "msg_Channel m = (localId c, True)"
    then obtain p where "getChan (chans (ses x)) (localId c) = Some p"
      using i(10) [OF mem] channel_not_open [OF ch] by (auto simp: routed_def)
    then show False using fresh_unused [OF i(5)] c by simp
  qed
  then show "toward c ns = []" by (auto simp: toward_def filter_empty_conv)
qed

text \<open>What a party keeps when it adds a channel.\<close>

definition grown :: "party \<Rightarrow> party \<Rightarrow> channel \<Rightarrow> bool" where
  "grown x x' c \<longleftrightarrow> channels x' = channels x @ [c] \<and> chans (ses x') = chans (add_chan (ses x) c)
     \<and> localId c = fresh_id (ses x) \<and> (\<forall>r < length (channels x). end_of x' r = end_of x r)"

lemma grown_nth:
  assumes "grown x x' c"
  shows "length (channels x') = Suc (length (channels x))"
    "r < length (channels x) \<Longrightarrow> channels x' ! r = channels x ! r" "channels x' ! length (channels x) = c"
    "r < length (channels x) \<Longrightarrow> end_of x' r = end_of x r"
  using assms by (simp_all add: grown_def nth_append)

lemma grown_routed_from:
  assumes g: "grown x x' c" and r: "routed x y U m" and U: "\<And>r. r < length (channels x) \<Longrightarrow> r \<in> U' \<Longrightarrow> r \<in> U"
  shows "routed x' y U' m"
proof (cases "is_OpenMessage m")
  case True
  with r obtain p where "p < length (channels x)" "p \<notin> U" "m = OpenMessage (localId (channels x ! p)) channelWindowSize channelMaxPacket"
    by (auto simp: routed_def)
  then have "p < length (channels x') \<and> p \<notin> U' \<and> m = OpenMessage (localId (channels x' ! p)) channelWindowSize channelMaxPacket"
    using U grown_nth [OF g] by auto
  then show ?thesis using r True unfolding routed_def by auto
qed (use r in \<open>simp add: routed_def\<close>)

lemma grown_routed_to:
  assumes g: "grown x x' c" and t: "table_fit (ses x)" and r: "routed y x U m"
    and U: "\<And>q. is_OpenMessage m \<Longrightarrow> q \<notin> U \<Longrightarrow> SenderID m = localId (channels y ! q) \<Longrightarrow>
      q < length (channels y) \<Longrightarrow> q \<notin> U'"
  shows "routed y x' U' m"
proof (cases "is_OpenMessage m")
  case True
  with r obtain q where "q < length (channels y)" "q \<notin> U" "m = OpenMessage (localId (channels y ! q)) channelWindowSize channelMaxPacket"
    by (auto simp: routed_def)
  then have "q < length (channels y) \<and> q \<notin> U' \<and> m = OpenMessage (localId (channels y ! q)) channelWindowSize channelMaxPacket"
    using U [of q] by auto
  then show ?thesis using r True unfolding routed_def by auto
next
  case False
  with r obtain p where p: "getChan (chans (ses x)) (fst (msg_Channel m)) = Some p" "wf_msg m" by (auto simp: routed_def)
  then have "getChan (chans (ses x')) (fst (msg_Channel m)) = Some p"
    using g add_chan_get [OF t, of c] fresh_unused [OF t] by (auto simp: grown_def)
  then show ?thesis using False p(2) by (simp add: routed_def)
qed

section \<open>A request\<close>

lemma Open_start_fit:
  assumes "free_transport (trans s)"
  shows "Open_start s = (None, length (heap s), (add_chan s (opening_end (unat (fresh_id s))))\<lparr>trans :=
    (trans s)\<lparr>tout := tout (trans s) @ wire (OpenMessage (fresh_id s) channelWindowSize channelMaxPacket)\<rparr>\<rparr>)"
  using assms Encode_free
  by (simp add: Open_start_def newChannel_eq Let_def set_chan_def add_chan_def opening_end_def new_chan_def del: wire.simps)

lemma open_keeps:
  assumes inv: "close_inv x y M ms ns" and o: "Open_start (ses x) = (e, p, s)" and small: "length (chans s) + 1 < 2 ^ 32"
  shows "\<exists>new. close_inv (x\<lparr>ses := s\<rparr>) y (M \<union> made x (x\<lparr>ses := s\<rparr>) y) (ms @ new) ns"
proof -
  note i = close_invD [OF inv]
  define n where "n = length (channels x)"
  define c where "c = opening_end (unat (fresh_id (ses x)))"
  define m where "m = OpenMessage (fresh_id (ses x)) channelWindowSize channelMaxPacket"
  let ?x = "x\<lparr>ses := s\<rparr>"
  have tr: "free_transport (trans (ses x))" using session_fit_trans [OF i(3)] by simp
  have s: "s = (add_chan (ses x) c)\<lparr>trans := (trans (ses x))\<lparr>tout := outgoing x @ wire m\<rparr>\<rparr>"
    using o unfolding Open_start_fit [OF tr] c_def m_def by simp
  have "chan_fit c" unfolding c_def by (rule chan_fit_new)
  then have c: "localId c = fresh_id (ses x)" "\<not> gone c" "chan_fit c" "direction c = channelOutbound"
    by (simp_all add: c_def opening_end_def new_chan_def new_window_def)
  have none: "made x ?x y = {}" by (auto simp: made_def s c(4))
  have "session_fit (add_chan (ses x) c)" by (rule session_fit_add [OF i(3) c(1,2,3)]) (use small s in simp)
  then have "session_fit s" by (simp add: s session_fit_def table_fit_def)
  then have fit: "party_fit ?x"
    using i(1) unfolding party_fit_def by (auto simp: s nth_append)
  have g: "grown x ?x c" using c(1) by (simp add: grown_def s end_of_def nth_append)
  note gn = grown_nth [OF g, folded n_def]
  have dom: "r < n" if "r \<in> Domain M" for r using that i(13) by (auto simp: n_def)
  have mine: "asking (end_of ?x n) (requests c (ms @ [m])) (toward c ns)"
  proof -
    have "asking (end_of ?x n) [OpenMessage (localId (echan (end_of ?x n))) channelWindowSize channelMaxPacket] []"
    proof (rule asking_new)
      show "echan (end_of ?x n) = opening_end (unat (fresh_id (ses x)))" using gn(3) by (simp add: c_def)
      show "\<not> eparked (end_of ?x n)" using i(1) by (auto simp: party_fit_def parked_on_def n_def)
    qed (use i(1) in \<open>simp_all add: party_fit_def n_def\<close>)
    then show ?thesis using gn(3) fresh_unnamed [OF inv c(1)] c(1) by (simp add: m_def)
  qed
  have "side_inv ?x y (Domain M) (ms @ [m]) ns"
    unfolding side_inv_def
  proof (intro conjI ballI allI impI)
    show "party_fit ?x" by (rule fit)
    show "flight ?x y (ms @ [m])" by (rule flight_send [OF i(7)]) (simp add: s)
  next
    have "n < length (channels ?x) \<and> n \<notin> Domain M \<and> m = OpenMessage (localId (channels ?x ! n)) channelWindowSize channelMaxPacket"
      using gn(1,3) dom [of n] c(1) by (auto simp: m_def)
    then have "routed ?x y (Domain M) m" unfolding routed_def by (auto simp: m_def)
    then show "routed ?x y (Domain M) k" if "k \<in> set (ms @ [m])" for k
      using that grown_routed_from [OF g i(9)] by auto
  next
    fix r assume r: "r < length (channels ?x)" "r \<notin> Domain M"
    show "asking (end_of ?x r) (requests (channels ?x ! r) (ms @ [m])) (toward (channels ?x ! r) ns)"
    proof (cases "r < n")
      case True
      have "localId (channels x ! r) \<noteq> fresh_id (ses x)"
        using fresh_id_differs [OF i(5)] waits_in_table(1) [OF inv _ r(2)] True by (simp add: n_def)
      then show ?thesis unfolding gn(4) [OF True] gn(2) [OF True]
        using i(11) [OF _ r(2)] True by (simp add: n_def m_def)
    next
      case False
      then have "r = n" using r(1) gn(1) by simp
      then show ?thesis using mine gn(3) by simp
    qed
  qed
  moreover have "side_inv y ?x (Range M) ns (ms @ [m])"
    unfolding side_inv_def
  proof (intro conjI ballI allI impI)
    show "flight y ?x ns" using i(8) by (simp add: flight_def s)
    show "routed y ?x (Range M) k" if "k \<in> set ns" for k
      by (rule grown_routed_to [OF g i(5) i(10) [OF that]])
    show "asking (end_of y r) (requests (channels y ! r) ns) (toward (channels y ! r) (ms @ [m]))"
      if "r < length (channels y)" "r \<notin> Range M" for r
      using i(12) [OF that] by (simp add: m_def)
  qed (rule i(2))
  moreover have "connected_ends (end_of ?x p) (end_of y q) (toward (channels y ! q) (ms @ [m])) (toward (channels ?x ! p) ns)"
    if "(p, q) \<in> M" for p q
  proof -
    have "p < n" using i(13) [OF that] by (simp add: n_def)
    then show ?thesis unfolding gn(4) [OF \<open>p < n\<close>] gn(2) [OF \<open>p < n\<close>] using i(14) [OF that] by (simp add: m_def)
  qed
  then have "matched ?x y M (ms @ [m]) ns"
    using inv i(13) gn(1) by (fastforce simp: close_inv_def matched_def n_def)
  ultimately have "close_inv ?x y (M \<union> made x ?x y) (ms @ [m]) ns" by (simp add: close_inv_def none)
  then show ?thesis by blast
qed


section \<open>The answer\<close>

text \<open>
  The loop makes its end of the channel; it puts it into the inbox and confirms it, or waits for room.
\<close>

definition answer_chan :: "session \<Rightarrow> u32 \<Rightarrow> channel" where
  "answer_chan s sid = answering_end (unat (fresh_id s)) sid"

lemma answer_chan_facts:
  "localId (answer_chan s sid) = fresh_id s" "remoteId (answer_chan s sid) = sid" "\<not> gone (answer_chan s sid)"
  "joined (answer_chan s sid)" "direction (answer_chan s sid) = channelInbound" "chan_fit (answer_chan s sid)"
  "myWindow (answer_chan s sid) = channelWindowSize" "maxIncomingPayload (answer_chan s sid) = channelMaxPacket"
  using chan_fit_new(2) [of "unat (fresh_id s)" sid] unfolding answer_chan_def
  by (simp_all add: answering_end_def new_chan_def new_window_def joined_def)

lemma handleOpen_fit:
  "dispatch s (OpenMessage sid channelWindowSize channelMaxPacket)
     = enqueue_open (add_chan s (answer_chan s sid)) (length (heap s))"
  by (simp add: dispatch_def handleOpen_def newChannel_eq Let_def add_chan_set answer_chan_def
      answering_end_def new_chan_def window_add_def new_window_def)

lemma answer_result:
  assumes fit: "session_fit s" and free: "free_transport t"
    and d: "after_packet (dispatch (s\<lparr>trans := t\<rparr>) (OpenMessage sid channelWindowSize channelMaxPacket)) = (st, s')"
  shows "heap s' = heap s @ [answer_chan s sid]" "chans s' = chans (add_chan s (answer_chan s sid))"
    "closeCh s' = closeCh s" "serr s' = serr s"
    and "st = OnInbox (length (heap s)) \<and> inbox s' = inbox s \<and> trans s' = t
      \<or> st = Running \<and> inbox s' = (inbox s)\<lparr>qbuf := qbuf (inbox s) @ [length (heap s)]\<rparr>
        \<and> trans s' = t\<lparr>tout := tout t @ wire (OpenConfirmMessage sid (fresh_id s) channelWindowSize channelMaxPacket)\<rparr>"
proof -
  let ?s = "add_chan (s\<lparr>trans := t\<rparr>) (answer_chan (s\<lparr>trans := t\<rparr>) sid)"
  have same: "answer_chan (s\<lparr>trans := t\<rparr>) sid = answer_chan s sid" "chans ?s = chans (add_chan s (answer_chan s sid))"
    by (simp_all add: answer_chan_def fresh_id_def add_chan_def)
  have q: "\<not> qclosed (inbox ?s)" "qcap (inbox ?s) = chanSize" "free_transport (trans ?s)"
    using fit free by (simp_all add: session_fit_def)
  note f = answer_chan_facts [of s sid]
  have "enqueue_open ?s (length (heap s)) =
      (if length (qbuf (inbox s)) < chanSize
       then (Handled None, ?s\<lparr>inbox := (inbox s)\<lparr>qbuf := qbuf (inbox s) @ [length (heap s)]\<rparr>,
         trans := t\<lparr>tout := tout t @ wire (OpenConfirmMessage sid (fresh_id s) channelWindowSize channelMaxPacket)\<rparr>\<rparr>)
       else (BlockedInbox (length (heap s)), ?s))"
    using enqueue_open_eq [OF q(3,1,2), of "length (heap s)"] f
    by (simp add: confirmation_def same(1) del: wire.simps)
  then have "(st, s') = (if length (qbuf (inbox s)) < chanSize
       then (Running, ?s\<lparr>inbox := (inbox s)\<lparr>qbuf := qbuf (inbox s) @ [length (heap s)]\<rparr>,
         trans := t\<lparr>tout := tout t @ wire (OpenConfirmMessage sid (fresh_id s) channelWindowSize channelMaxPacket)\<rparr>\<rparr>)
       else (OnInbox (length (heap s)), ?s))"
    using d handleOpen_fit [of "s\<lparr>trans := t\<rparr>" sid] by (simp add: after_packet_def del: wire.simps split: if_splits)
  then show "heap s' = heap s @ [answer_chan s sid]" "chans s' = chans (add_chan s (answer_chan s sid))"
    "closeCh s' = closeCh s" "serr s' = serr s"
    "st = OnInbox (length (heap s)) \<and> inbox s' = inbox s \<and> trans s' = t
      \<or> st = Running \<and> inbox s' = (inbox s)\<lparr>qbuf := qbuf (inbox s) @ [length (heap s)]\<rparr>
        \<and> trans s' = t\<lparr>tout := tout t @ wire (OpenConfirmMessage sid (fresh_id s) channelWindowSize channelMaxPacket)\<rparr>"
    using same by (auto simp del: wire.simps split: if_splits)
qed

text \<open>The request that arrives is that of exactly one channel without a connection.\<close>

lemma request_arrives:
  assumes inv: "close_inv x y M ms (OpenMessage sid ws mp # ns)"
  obtains q where "q < length (channels y)" "q \<notin> Range M" "localId (channels y ! q) = sid" "\<not> gone (channels y ! q)"
    "ws = channelWindowSize" "mp = channelMaxPacket" "requests (channels y ! q) ns = []" "toward (channels y ! q) ms = []"
    "asking (end_of y q) [OpenMessage sid ws mp] []" "getChan (chans (ses y)) sid = Some q"
proof -
  note i = close_invD [OF inv]
  have "routed y x (Range M) (OpenMessage sid ws mp)" by (rule i(10)) simp
  then obtain q where q: "q < length (channels y)" "q \<notin> Range M" "localId (channels y ! q) = sid"
    "ws = channelWindowSize" "mp = channelMaxPacket" by (auto simp: routed_def)
  have ng: "\<not> gone (channels y ! q)"
    using waits_in_table(1) [of y x "M\<inverse>"] inv q(1,2) close_inv_sym [of x y M] by auto
  note a = i(12) [OF q(1,2)]
  have r: "requests (channels y ! q) ns = []" "toward (channels y ! q) ms = []"
    using a q(3) by (simp_all add: asking_def)
  have "asking (end_of y q) [OpenMessage sid ws mp] []" using a q(3) r by simp
  then show ?thesis using that q ng r table_get [OF i(6) q(1) ng] by blast
qed


lemma answer_keeps:
  assumes inv: "close_inv x y M ms (OpenMessage sid ws mp # ns)" and run: "sloop x = Running"
    and t: "free_transport t" "length (chunks (tin t)) \<le> 1" "tout t = outgoing x"
      "\<And>z. arriving z = stream_content (tin t) \<Longrightarrow> flight y z ns"
    and d: "after_packet (dispatch ((ses x)\<lparr>trans := t\<rparr>) (OpenMessage sid ws mp)) = (st, s)"
    and small: "length (chans s) + 1 < 2 ^ 32"
  shows "\<exists>new. close_inv (x\<lparr>sloop := st, ses := s\<rparr>) y (M \<union> made x (x\<lparr>sloop := st, ses := s\<rparr>) y) (ms @ new) ns"
proof -
  note i = close_invD [OF inv]
  obtain q where q: "q < length (channels y)" "q \<notin> Range M" "localId (channels y ! q) = sid" "\<not> gone (channels y ! q)"
    and w: "ws = channelWindowSize" "mp = channelMaxPacket"
    and nq: "requests (channels y ! q) ns = []" "toward (channels y ! q) ms = []"
    and a: "asking (end_of y q) [OpenMessage sid ws mp] []" and gq: "getChan (chans (ses y)) sid = Some q"
    using request_arrives [OF inv] .
  define n where "n = length (channels x)"
  define c where "c = answer_chan (ses x) sid"
  let ?x = "x\<lparr>sloop := st, ses := s\<rparr>"
  note f = answer_chan_facts [of "ses x" sid, folded c_def]
  note ar = answer_result [OF i(3) t(1) d [unfolded w], folded c_def n_def]
  define new where "new = (if st = Running then [confirm_of (channels y ! q) c] else [])"
  have wire_new: "trans s = t\<lparr>tout := outgoing x @ concat (map wire new)\<rparr>"
    using ar(5) q(3) f(1) t(3) by (auto simp: new_def confirm_of_def simp del: wire.simps)
  have nst: "st = Running \<or> st = OnInbox n" using ar(5) by blast
  have none: "n \<notin> Domain M" using i(13) by (auto simp: n_def)
  have made: "made x ?x y = {(n, q)}" using f(2,5) gq ar(1) by (auto simp: made_def n_def)
  have fit0: "session_fit (add_chan (ses x) c)" by (rule session_fit_add [OF i(3) f(1,3,6)]) (use small ar(2) in simp)
  have "session_fit s"
    by (rule session_fit_queue [OF fit0, where p = n])
      (use ar t(1,2) f(4) wire_new in \<open>auto simp: n_def nth_append\<close>)
  then have fit: "party_fit ?x"
    by (rule party_fit_grow [OF i(1), where c = c]) (use ar run f(4) in \<open>auto simp: n_def\<close>)
  have g: "grown x ?x c"
    using ar(1,2) f(1) nst run by (auto simp: grown_def end_of_def nth_append parked_on_def n_def)
  note gn = grown_nth [OF g, folded n_def]
  have addr: "addressed (localId (channels y ! q)) new" by (simp add: new_def confirm_of_def)
  have noreq: "requests k new = []" for k by (rule addressed_requests [OF addr])
  have other: "toward (channels y ! r) new = []" if "r < length (channels y)" "r \<noteq> q" for r
    by (rule addressed_other [OF i(6) that(1) q(1,4) that(2) addr])
  have self: "toward (channels y ! q) new = new" by (rule addressed_toward [OF addr q(4)])
  have mine: "connected_ends (end_of ?x n) (end_of y q) new []"
  proof -
    have e: "echan (end_of ?x n) = answering_end (unat (fresh_id (ses x))) (localId (echan (end_of y q)))"
      using gn(3) q(3) by (simp add: c_def answer_chan_def)
    have pk: "eparked (end_of ?x n) \<longleftrightarrow> st \<noteq> Running" using nst by (auto simp: parked_on_def)
    have "chan_fit (echan (end_of y q))" using i(18) [OF q(1)] by simp
    from conn_new [OF a this e] i(1) have "connected_ends (end_of y q) (end_of ?x n) []
        (if st \<noteq> Running then [] else [confirm_of (echan (end_of y q)) (echan (end_of ?x n))])"
      unfolding pk by (simp add: party_fit_def n_def)
    then have "connected_ends (end_of y q) (end_of ?x n) [] new"
      using gn(3) by (cases "st = Running") (simp_all add: new_def)
    then show ?thesis using conn_sym by blast
  qed
  have "side_inv ?x y (Domain (insert (n, q) M)) (ms @ new) ns"
    unfolding side_inv_def
  proof (intro conjI ballI allI impI)
    show "party_fit ?x" by (rule fit)
    show "flight ?x y (ms @ new)" by (rule flight_send [OF i(7)]) (simp add: wire_new)
    show "routed ?x y (Domain (insert (n, q) M)) k" if "k \<in> set (ms @ new)" for k
    proof -
      have "routed ?x y (Domain (insert (n, q) M)) (confirm_of (channels y ! q) c)"
        using gq q(3) by (simp add: routed_def confirm_of_def)
      then show ?thesis
        using that grown_routed_from [OF g i(9), of k "Domain (insert (n, q) M)"]
        by (auto simp: new_def n_def split: if_splits)
    qed
    show "asking (end_of ?x r) (requests (channels ?x ! r) (ms @ new)) (toward (channels ?x ! r) ns)"
      if "r < length (channels ?x)" "r \<notin> Domain (insert (n, q) M)" for r
    proof -
      have r: "r < n" "r \<notin> Domain M" using that gn(1) by (auto simp: n_def)
      then show ?thesis unfolding gn(4) [OF r(1)] gn(2) [OF r(1)]
        using i(11) [OF _ r(2)] noreq by (simp add: n_def)
    qed
  qed
  moreover have "side_inv y ?x (Range (insert (n, q) M)) ns (ms @ new)"
    unfolding side_inv_def
  proof (intro conjI ballI allI impI)
    show "flight y ?x ns" by (rule t(4)) (simp add: wire_new)
    show "routed y ?x (Range (insert (n, q) M)) k" if "k \<in> set ns" for k
    proof (rule grown_routed_to [OF g i(5) i(10)])
      fix r assume k: "is_OpenMessage k" "r \<notin> Range M" "SenderID k = localId (channels y ! r)"
      have "r \<noteq> q" using nq(1) k that by (auto simp: requests_def filter_empty_conv)
      then show "r \<notin> Range (insert (n, q) M)" using k(2) by auto
    qed (use that in simp)
    show "asking (end_of y r) (requests (channels y ! r) ns) (toward (channels y ! r) (ms @ new))"
      if "r < length (channels y)" "r \<notin> Range (insert (n, q) M)" for r
    proof -
      have r: "r \<notin> Range M" "r \<noteq> q" using that(2) by auto
      have "\<not> gone (channels y ! r)"
        using waits_in_table(1) [of y x "M\<inverse>"] inv that(1) r(1) close_inv_sym [of x y M] by auto
      then have "localId (channels y ! r) \<noteq> sid" using ids_differ [OF i(6) that(1) q(1) _ q(4) r(2)] q(3) by simp
      then show ?thesis using i(12) [OF that(1) r(1)] other [OF that(1) r(2)] by simp
    qed
  qed (rule i(2))
  moreover have "connected_ends (end_of ?x p) (end_of y r) (toward (channels y ! r) (ms @ new)) (toward (channels ?x ! p) ns)"
    if "(p, r) \<in> insert (n, q) M" for p r
  proof (cases "(p, r) = (n, q)")
    case True
    then show ?thesis using mine gn(3) nq(2) self fresh_unnamed(2) [OF inv f(1)] by simp
  next
    case False
    then have M: "(p, r) \<in> M" using that by blast
    then have p: "p < n" "r < length (channels y)" "r \<noteq> q" using i(13) q(2) by (auto simp: n_def)
    then show ?thesis unfolding gn(4) [OF p(1)] gn(2) [OF p(1)] using i(14) [OF M] other by simp
  qed
  then have "matched ?x y (insert (n, q) M) (ms @ new) ns"
    using inv i(13) gn(1,3) none q(1,2) by (fastforce simp: close_inv_def matched_def n_def single_valued_def)
  ultimately have "close_inv ?x y (M \<union> made x ?x y) (ms @ new) ns" by (simp add: close_inv_def made)
  then show ?thesis by blast
qed


text \<open>A loop that waits for room in the inbox tries again.\<close>

lemma unpark_keeps:
  assumes inv: "close_inv x y M ms ns" and park: "sloop x = OnInbox p"
    and d: "after_packet (enqueue_open (ses x) p) = (st, s)"
  shows "heap s = channels x \<and> (\<exists>new. close_inv (x\<lparr>sloop := st, ses := s\<rparr>) y M (ms @ new) ns)"
proof -
  note i = close_invD [OF inv]
  note tr = session_fit_trans [OF i(3)]
  have q: "\<not> qclosed (inbox (ses x))" "qcap (inbox (ses x)) = chanSize" using i(3) by (simp_all add: session_fit_def)
  have p: "p < length (channels x)" "joined (channels x ! p)" "p \<notin> owned x"
    using i(1) park by (auto simp: party_fit_def)
  note eq = enqueue_open_eq [OF conjunct1 [OF tr] q, of p]
  show ?thesis
  proof (cases "length (qbuf (inbox (ses x))) < chanSize")
    case False
    then have "st = OnInbox p" "s = ses x" using d eq by (simp_all add: after_packet_def)
    then have "x\<lparr>sloop := st, ses := s\<rparr> = x" using park by simp
    then have "close_inv (x\<lparr>sloop := st, ses := s\<rparr>) y M (ms @ []) ns" using inv by simp
    then show ?thesis using \<open>s = ses x\<close> by blast
  next
    case True
    have pk: "eparked (end_of x p)" using park by (simp add: parked_on_def)
    have "p \<in> Domain M"
    proof (rule ccontr)
      assume "p \<notin> Domain M"
      from i(11) [OF p(1) this] pk show False by (simp add: asking_def)
    qed
    then obtain r where M: "(p, r) \<in> M" by blast
    have b: "r < length (channels y)" using i(13) [OF M] by simp
    note cu = conn_unpark [OF i(14) [OF M] pk, simplified]
    define new where "new = [confirm_of (channels y ! r) (channels x ! p)]"
    have "confirmation (ses x) p = confirm_of (channels y ! r) (channels x ! p)"
      using cu(2,3) i(17) [OF p(1)] by (simp add: confirmation_def confirm_of_def chan_fit_def)
    then have s: "st = Running" "s = (ses x)\<lparr>inbox := (inbox (ses x))\<lparr>qbuf := qbuf (inbox (ses x)) @ [p]\<rparr>,
        trans := (trans (ses x))\<lparr>tout := outgoing x @ concat (map wire new)\<rparr>\<rparr>"
      using d eq True by (auto simp: after_packet_def new_def simp del: wire.simps)
    let ?x = "x\<lparr>sloop := st, ses := s\<rparr>"
    have "session_fit s" by (rule session_fit_queue [OF i(3), where p = p]) (use s(2) p tr in auto)
    then have fit: "party_fit ?x" using i(1) s by (simp add: party_fit_def)
    have e: "end_of ?x k = (if k = p then (end_of x p)\<lparr>eparked := False\<rparr> else end_of x k)" for k
      using park by (simp add: end_of_def s parked_on_def)
    have nj: "\<not> joined (channels y ! r)"
      using i(14) [OF M] pk by (auto simp: connected_ends_def announced_def split: if_splits)
    have "close_inv ?x y M (ms @ new) ns"
    proof (rule touch [where pre = "[]" and p = p and q = r and c' = "channels x ! p"])
      show "close_inv x y M ms ([] @ ns)" using inv by simp
      show "(p, r) \<in> M" "party_fit ?x" by (rule M, rule fit)
      show "flight y ?x ns" using i(8) by (simp add: flight_def s)
      show "end_of ?x k = end_of x k" if "k \<noteq> p" "k < length (channels x)" for k using that by (simp add: e)
      show "connected_ends (end_of ?x p) (end_of y r) (toward (channels y ! r) ms @ new) (toward (channels x ! p) ns)"
        unfolding e using cu(4) by (simp add: new_def)
      show "gone (channels x ! p) \<longrightarrow> toward (channels x ! p) ns = []" by (simp add: toward_def)
      show "new \<noteq> [] \<longrightarrow> \<not> gone (channels y ! r)"
        using i(18) [OF b] nj by (simp add: chan_fit_def new_window_def)
    qed (simp_all add: s new_def confirm_of_def)
    then show ?thesis using s(2) by auto
  qed
qed

section \<open>Every step keeps the invariant\<close>

lemma made_none: "length (channels x') = length (channels x) \<Longrightarrow> made x x' y = {}"
  by (auto simp: made_def)

lemma handle_heap: "handle s p m = (h, s') \<Longrightarrow> length (heap s') = length (heap s)"
  by (cases m) (auto simp: handle_close_def deliver_def set_chan_def Let_def
      split: prod.splits option.splits if_splits chan_send.splits)

lemma dispatch_heap:
  "dispatch s m = (h, s') \<Longrightarrow> \<not> is_OpenMessage m \<Longrightarrow> length (heap s') = length (heap s)"
  by (cases m) (auto simp: dispatch_def split: option.splits simp del: handle.simps dest: handle_heap)

lemma packet_keeps:
  assumes inv: "close_inv x y M ms ns" and some: "sloop x = Running \<longrightarrow> arriving x \<noteq> []"
    and d: "loop_step (sloop x, ses x) = (st, s)" and small: "length (chans s) + 1 < 2 ^ 32"
  shows "\<exists>new ns'. close_inv (x\<lparr>sloop := st, ses := s\<rparr>) y (M \<union> made x (x\<lparr>sloop := st, ses := s\<rparr>) y) (ms @ new) ns'"
proof -
  note i = close_invD [OF inv]
  from i(1) consider (run) "sloop x = Running" | (park) q where "sloop x = OnInbox q"
    by (auto simp: party_fit_def)
  then show ?thesis
  proof cases
    case park
    then have "after_packet (enqueue_open (ses x) q) = (st, s)" using d by simp
    from unpark_keeps [OF inv park this] show ?thesis by (auto simp: made_none)
  next
    case run
    have wf: "wf_msg m" if "m \<in> set ns" for m using i(10) [OF that] by (simp add: routed_def)
    obtain m ns' t where m: "ns = m # ns'" "onePacket (ses x) = dispatch ((ses x)\<lparr>trans := t\<rparr>) m"
      and t: "free_transport t" "length (chunks (tin t)) \<le> 1" "tout t = outgoing x"
        "\<And>z. arriving z = stream_content (tin t) \<Longrightarrow> flight y z ns'"
      using flight_next [OF i(8) wf] some run session_fit_trans [OF i(3)] by metis
    note inv' = inv [unfolded m(1)]
    have d': "after_packet (dispatch ((ses x)\<lparr>trans := t\<rparr>) m) = (st, s)" using d run m(2) by simp
    obtain h s' where ds: "dispatch ((ses x)\<lparr>trans := t\<rparr>) m = (h, s')" by (cases "dispatch ((ses x)\<lparr>trans := t\<rparr>) m")
    have plain: ?thesis if "h = Handled None \<and> close_inv (x\<lparr>ses := s'\<rparr>) y M (ms @ new) ns'" "\<not> is_OpenMessage m" for new
    proof -
      have "st = Running" "s = s'" using d' ds that(1) by (auto simp: after_packet_def)
      then have e: "x\<lparr>sloop := st, ses := s\<rparr> = x\<lparr>ses := s'\<rparr>" using run by simp
      have "length (channels (x\<lparr>ses := s'\<rparr>)) = length (channels x)"
        using dispatch_heap [OF ds that(2)] by simp
      then show ?thesis using that(1) unfolding e by (auto simp: made_none)
    qed
    consider (op) sid ws mp where "m = OpenMessage sid ws mp" | (co) "is_OpenConfirmMessage m" | (cl) "is_CloseMessage m"
      | (st) "\<not> is_OpenMessage m" "\<not> is_OpenConfirmMessage m" "\<not> is_CloseMessage m"
      by (cases m) auto
    then show ?thesis
    proof cases
      case op
      then show ?thesis using answer_keeps [OF inv' [unfolded op] run t d' [unfolded op] small] by blast
    next
      case co
      have "\<not> is_OpenMessage m" using co by (cases m) simp_all
      then show ?thesis using plain confirm_arrives [OF inv' co t ds] by blast
    next
      case cl
      have "\<not> is_OpenMessage m" using cl by (cases m) simp_all
      then show ?thesis using plain close_arrives [OF inv' cl t ds] by blast
    next
      case st
      show ?thesis by (rule plain [OF stream_keeps [OF inv' st t ds] st(1)])
    qed
  qed
qed


lemma party_step_inv:
  assumes inv: "close_inv x y M ms ns" and st: "party_step x x'"
  shows "\<exists>new ns'. close_inv x' y (M \<union> made x x' y) (ms @ new) ns'"
  using st
proof (cases rule: party_step.cases)
  case (packet st s)
  then show ?thesis using packet_keeps [OF inv] by blast
next
  case (open_start e p s)
  then show ?thesis using open_keeps [OF inv] by blast
next
  case (open_finish p ctx r s)
  then have "close_inv x' y M ms ns" using open_finish_keeps [OF inv] by blast
  moreover have "length (heap s) = length (channels x)"
    using open_finish(3) by (auto simp: Open_finish_def split: option.splits chan_recv.splits)
  then have "made x x' y = {}" unfolding open_finish(1) by (simp add: made_none)
  ultimately show ?thesis by (metis append_Nil2 sup_bot_right)
next
  case (accept b r s)
  then have "close_inv x' y M ms ns" using accept_keeps [OF inv] by blast
  moreover have "heap s = channels x" using accept(2) by (auto simp: Accept_def split: chan_recv.splits if_splits)
  then have "made x x' y = {}" unfolding accept(1) by (simp add: made_none)
  ultimately show ?thesis by (metis append_Nil2 sup_bot_right)
next
  case (read_take p n r c bs)
  then have "close_inv x' y M (ms @ []) ns" using read_take_step [OF inv] by blast
  moreover have "made x x' y = {}" unfolding read_take(1) by (simp add: made_none)
  ultimately show ?thesis by (metis sup_bot_right)
next
  case (read_credit p k)
  then have "close_inv x' y M (ms @ []) ns" using read_credit_step [OF inv] by blast
  moreover have "made x x' y = {}" unfolding read_credit(1) by (simp add: made_none)
  ultimately show ?thesis by (metis sup_bot_right)
next
  case (read_tell p k e s)
  then obtain new where "close_inv x' y M (ms @ new) ns" using read_tell_step [OF inv] by blast
  moreover have "made x x' y = {}"
    using read_tell(4) unfolding read_tell(1) by (intro made_none) (auto simp: s_send_def split: prod.splits)
  ultimately show ?thesis by (metis sup_bot_right)
next
  case (write_some p data n r s)
  then obtain new where "close_inv x' y M (ms @ new) ns" using write_keeps [OF inv] by blast
  moreover have "made x x' y = {}"
    using write_some(7) unfolding write_some(1) by (intro made_none) (auto simp: s_write_iter_def split: prod.splits)
  ultimately show ?thesis by (metis sup_bot_right)
next
  case (close_write p e s)
  then obtain new where "close_inv x' y M (ms @ new) ns" using close_write_keeps [OF inv] by blast
  moreover have "made x x' y = {}"
    using close_write(3) unfolding close_write(1) by (intro made_none) (auto simp: s_CloseWrite_def split: prod.splits)
  ultimately show ?thesis by (metis sup_bot_right)
next
  case (close p e s)
  then obtain new where "close_inv x' y M (ms @ new) ns" using close_keeps [OF inv] by blast
  moreover have "made x x' y = {}"
    using close(3) unfolding close(1) by (intro made_none) (auto simp: s_Close_def split: prod.splits)
  ultimately show ?thesis by (metis sup_bot_right)
qed

text \<open>The network moves a packet.\<close>

lemma carry_keeps:
  assumes inv: "close_inv x y M ms ns" and np: "next_packet (trans (ses x)) = Some (m, t)"
  shows "close_inv (take_off x t) (hand_over y m) M ms ns"
proof -
  note i = close_invD [OF inv]
  have wf: "wf_msg m" if "m \<in> set ms" for m using i(9) [OF that] by (simp add: routed_def)
  obtain bs where f: "flight (take_off x t) (hand_over y m) ms" and mt: "t = (trans (ses x))\<lparr>tout := bs\<rparr>"
    using flight_carry [OF i(7) wf np] by blast
  have g: "flight (hand_over y m) (take_off x t) ns"
    by (rule flight_receive [OF i(8)]) (simp_all add: mt take_off_def hand_over_def)
  have "party_fit (take_off x t)" "party_fit (hand_over y m)"
    using i(1,2) by (simp_all add: party_fit_def session_fit_def table_fit_def take_off_def hand_over_def mt free_transport_def)
  moreover have "end_of (take_off x t) = end_of x" "end_of (hand_over y m) = end_of y"
    "routed (take_off x t) (hand_over y m) = routed x y" "routed (hand_over y m) (take_off x t) = routed y x"
    by (simp_all add: end_of_def routed_def take_off_def hand_over_def fun_eq_iff)
  ultimately show ?thesis
    using f g inv by (simp add: close_inv_def side_inv_def matched_def take_off_def hand_over_def)
qed

lemma close_start: "close_inv party_start party_start {} [] []"
proof -
  have "session_fit (ses side_start)"
    by (simp add: session_fit_def table_fit_def side_start_def session_New_def free_transport_def getChan_def)
  then have "party_fit party_start"
    by (simp add: party_fit_def party_start_def side.defs side_start_def session_New_def)
  then show ?thesis
    by (simp add: close_inv_def side_inv_def matched_def flight_def party_start_def side.defs side_start_def
        session_New_def stream_content_def)
qed

lemma close_reachable_inv: "close_reachable (x, y, M) \<Longrightarrow> \<exists>ms ns. close_inv x y M ms ns"
proof (induction "(x, y, M)" arbitrary: x y M rule: close_reachable.induct)
  case start
  show ?case using close_start by blast
next
  case (step c x' y' M')
  obtain x y M where c: "c = (x, y, M)" by (cases c)
  obtain ms ns where inv: "close_inv x y M ms ns" using step.hyps(2) [OF c] by blast
  have inv': "close_inv y x (M\<inverse>) ns ms" using inv close_inv_sym by blast
  from step.hyps(3) show ?case unfolding c
  proof (cases rule: close_step.cases)
    case left
    then show ?thesis using party_step_inv [OF inv] by blast
  next
    case right
    then obtain new ms' where "close_inv y' x (M\<inverse> \<union> made y y' x) (ns @ new) ms'"
      using party_step_inv [OF inv'] by blast
    then have "close_inv x y' ((M\<inverse> \<union> made y y' x)\<inverse>) ms' (ns @ new)" using close_inv_sym by blast
    moreover have "(M\<inverse> \<union> made y y' x)\<inverse> = M \<union> (made y y' x)\<inverse>" by auto
    ultimately show ?thesis using right by auto
  next
    case (carry_right m t)
    then show ?thesis using carry_keeps [OF inv] by blast
  next
    case (carry_left m t)
    then show ?thesis using carry_keeps [OF inv'] close_inv_sym by blast
  qed
qed

end
