(* ===== verification/CloseNetProps.thy ===== *)
theory CloseNetProps
  imports CloseNetOpen
begin

text \<open>
  What two sessions of CloseNet guarantee in every reachable state, with \<open>Close\<close> and the reuse of ids, and a run to
  apply it to: a channel is opened, accepted, written to and closed, and its id is given to the next one.
\<close>

section \<open>A connection\<close>

lemma settled_fields [simp]:
  "pending (settled c i) = pending c" "myWindow (settled c i) = myWindow c"
  by (simp_all add: settled_def)

lemma payloads_body: "payloads (body ms) = payloads ms"
proof (induction ms)
  case (Cons m ms)
  then show ?case by (cases m) simp_all
qed simp

lemma connected:
  assumes inv: "close_inv x y M ms ns" and pq: "(p, q) \<in> M"
  shows "sent_on x p = read_on y q @ buffer_content (pending (channels y ! q)) @ payloads (toward (channels y ! q) ms)"
    "bclosed (pending (channels y ! q)) \<Longrightarrow>
       (sentEOF (channels x ! p) \<or> sentClose (channels x ! p)) \<and> payloads (toward (channels y ! q) ms) = []"
    "gone (channels y ! q) \<Longrightarrow> sentClose (channels x ! p) \<and> sentClose (channels y ! q) \<and> bclosed (pending (channels y ! q))"
    "toward (channels y ! q) ms = [] \<Longrightarrow> sentClose (channels x ! p) \<Longrightarrow> gone (channels y ! q)"
    "toward (channels y ! q) ms = [] \<Longrightarrow> sentEOF (channels x ! p) \<Longrightarrow> bclosed (pending (channels y ! q))"
    "joined (channels x ! p) \<Longrightarrow> unat (win (remoteWin (channels x ! p))) + length (payloads (toward (channels y ! q) ms))
       + length (buffer_content (pending (channels y ! q))) \<le> full_window"
proof -
  note i = close_invD [OF inv]
  have b: "p < length (channels x)" "q < length (channels y)" using i(13) [OF pq] by auto
  define a where "a = settle (end_of x p) (end_of y q)"
  define c where "c = settle (end_of y q) (end_of x p)"
  have f: "flow a c (body (toward (channels y ! q) ms)) (body (toward (channels x ! p) ns))"
    using i(14) [OF pq] by (simp add: connected_ends_def duplex_def a_def c_def)
  have ac: "ewrote a = sent_on x p" "etook c = read_on y q" "sentEOF (echan a) = sentEOF (channels x ! p)"
    "sentClose (echan a) = sentClose (channels x ! p)" "sentClose (echan c) = sentClose (channels y ! q)"
    "pending (echan c) = pending (channels y ! q)" "gone (echan c) = gone (channels y ! q)"
    using gone_settled [OF i(18) [OF b(2)]] by (simp_all add: a_def c_def settle_def)
  note fl = f [unfolded flow_def closing_def ending_def ac payloads_body]
  show "sent_on x p = read_on y q @ buffer_content (pending (channels y ! q)) @ payloads (toward (channels y ! q) ms)"
    using fl by blast
  show "(sentEOF (channels x ! p) \<or> sentClose (channels x ! p)) \<and> payloads (toward (channels y ! q) ms) = []"
    if "bclosed (pending (channels y ! q))" using fl that by (auto split: if_splits)
  show "sentClose (channels x ! p) \<and> sentClose (channels y ! q) \<and> bclosed (pending (channels y ! q))"
    if "gone (channels y ! q)" using fl that by simp
  show "gone (channels y ! q)" if "toward (channels y ! q) ms = []" "sentClose (channels x ! p)"
    using fl that by (auto split: if_splits)
  show "bclosed (pending (channels y ! q))" if "toward (channels y ! q) ms = []" "sentEOF (channels x ! p)"
    using fl that by (auto split: if_splits)
  show "unat (win (remoteWin (channels x ! p))) + length (payloads (toward (channels y ! q) ms))
       + length (buffer_content (pending (channels y ! q))) \<le> full_window" if "joined (channels x ! p)"
  proof -
    have "echan a = channels x ! p" using that by (simp add: a_def settle_def)
    then show ?thesis
      using flow_credit [OF f] ac by (simp add: credit_def payloads_body)
  qed
qed

lemma reachable_connected:
  assumes "close_reachable (x, y, M)" "(p, q) \<in> M"
  obtains ms ns where "close_inv x y M ms ns" "flight x y ms" "flight y x ns"
    "p < length (channels x)" "q < length (channels y)"
  using close_reachable_inv [OF assms(1)] close_invD(7,8,13) assms(2) by metis

section \<open>Runs\<close>

text \<open>
  Moves of the left party, the network from left to right, and the exchange of the sides; \<open>play\<close> makes a list of
  moves, each if its step allows it.
\<close>

datatype move = Open_chan | Accept_chan | Finish_open nat | Write_chan nat bytes | Read_chan nat nat | Close_chan nat | Handle_packet | Deliver | Turn

fun try_move :: "move \<Rightarrow> party \<Rightarrow> party option" where
  "try_move Open_chan x = (case Open_start (ses x) of (e, p, s) \<Rightarrow>
     if length (chans s) \<le> 2 then Some (x\<lparr>ses := s\<rparr>) else None)"
| "try_move Accept_chan x = (case Accept (ses x) True of (r, s) \<Rightarrow> Some (x\<lparr>ses := s, owned := owned x \<union> obtained r\<rparr>))"
| "try_move (Finish_open p) x = (if p < length (channels x) then
     (case Open_finish (ses x) p None of (r, s) \<Rightarrow> Some (x\<lparr>ses := s, owned := owned x \<union> obtained r\<rparr>)) else None)"
| "try_move (Write_chan p data) x =
     (if p \<in> owned x \<and> \<not> sentEOF (channels x ! p) \<and> (sentClose (channels x ! p) \<longrightarrow> gone (channels x ! p))
         \<and> data \<noteq> [] \<and> length data < 9
      then (case s_write_iter (ses x) p data 0 of (r, s) \<Rightarrow>
        Some (x\<lparr>ses := s, sent_on := (sent_on x)(p := sent_on x p
          @ (case r of WContinue data' n' \<Rightarrow> take (n' - 0) data | _ \<Rightarrow> []))\<rparr>)) else None)"
| "try_move (Read_chan p n) x =
     (if p \<in> owned x
      then (case buffer_read (pending (channels x ! p)) n of (r, c) \<Rightarrow>
        let bs = (case r of Some (bs, _) \<Rightarrow> bs | None \<Rightarrow> []) in
        Some (x\<lparr>ses := set_chan (ses x) p ((channels x ! p)\<lparr>pending := c\<rparr>),
          read_on := (read_on x)(p := read_on x p @ bs),
          owing := (owing x)(p := owing x p @ (if bs = [] then [] else [of_nat (length bs)]))\<rparr>)) else None)"
| "try_move (Close_chan p) x = (if p \<in> owned x then
     (case s_Close (ses x) p of (e, s) \<Rightarrow> Some (x\<lparr>ses := s\<rparr>)) else None)"
| "try_move Handle_packet x = (if sloop x = Running \<longrightarrow> arriving x \<noteq> [] then
     (case loop_step (sloop x, ses x) of (st, s) \<Rightarrow>
        if length (chans s) \<le> 2 then Some (x\<lparr>sloop := st, ses := s\<rparr>) else None) else None)"
| "try_move _ x = Some x"

fun make_move :: "move \<Rightarrow> parties \<Rightarrow> parties option" where
  "make_move Deliver (x, y, M) = Some (case next_packet (trans (ses x)) of
     Some (m, t) \<Rightarrow> (take_off x t, hand_over y m, M) | None \<Rightarrow> (x, y, M))"
| "make_move Turn (x, y, M) = Some (y, x, (\<lambda>(p, q). (q, p)) ` M)"
| "make_move m (x, y, M) = map_option (\<lambda>x'. (x', y, M \<union> made x x' y)) (try_move m x)"

fun play :: "move list \<Rightarrow> parties \<Rightarrow> parties option" where
  "play [] c = Some c"
| "play (m # ms) c = (case make_move m c of None \<Rightarrow> None | Some c' \<Rightarrow> play ms c')"

lemma play_append: "play (ms @ ns) c = (case play ms c of None \<Rightarrow> None | Some d \<Rightarrow> play ns d)"
  by (induction ms arbitrary: c) (auto split: option.split)

lemma turned_reachable: "close_reachable (x, y, M) \<Longrightarrow> close_reachable (y, x, M\<inverse>)"
proof (induction "(x, y, M)" arbitrary: x y M rule: close_reachable.induct)
  case start
  show ?case using close_reachable.start by simp
next
  case (step c x' y' M')
  obtain x y M where c: "c = (x, y, M)" by (cases c)
  have "close_step (y, x, M\<inverse>) (y', x', M'\<inverse>)"
    using step.hyps(3) unfolding c
  proof (cases rule: close_step.cases)
    case left
    have "(M \<union> made x x' y)\<inverse> = M\<inverse> \<union> (made x x' y)\<inverse>" by auto
    then show ?thesis using left close_step.right by simp
  next
    case right
    have "(M \<union> (made y y' x)\<inverse>)\<inverse> = M\<inverse> \<union> made y y' x" by auto
    then show ?thesis using right close_step.left by simp
  qed (auto intro: close_step.intros)
  with step.hyps(2) [OF c] show ?case by (rule close_reachable.step)
qed

lemma try_move_step:
  assumes "try_move m x = Some x'" "m \<noteq> Deliver" "m \<noteq> Turn"
  shows "party_step x x'"
proof (cases m)
  case Open_chan
  then show ?thesis using assms party_step.open_start [of x] by (auto split: prod.splits if_splits)
next
  case Accept_chan
  then show ?thesis using assms party_step.accept [of x True] by (auto split: prod.splits)
next
  case (Finish_open p)
  then show ?thesis using assms party_step.open_finish [of p x None] by (auto split: prod.splits if_splits)
next
  case (Write_chan p data)
  then show ?thesis using assms party_step.write_some [of p x data 0] by (auto split: prod.splits if_splits)
next
  case (Read_chan p n)
  then show ?thesis
    using assms party_step.read_take [of p x n _ _ _, OF _ prod.collapse [symmetric] refl]
    by (auto split: prod.splits if_splits simp: Let_def)
next
  case (Close_chan p)
  then show ?thesis using assms party_step.close [of p x] by (auto split: prod.splits if_splits)
next
  case Handle_packet
  then show ?thesis using assms party_step.packet [of x] by (auto split: prod.splits if_splits)
qed (use assms in simp_all)

lemma make_move_reachable:
  assumes "close_reachable (x, y, M)" "make_move m (x, y, M) = Some c"
  shows "close_reachable c"
proof -
  have flip: "(\<lambda>(p, q). (q, p)) ` M = M\<inverse>" by auto
  consider "m = Deliver" | "m = Turn" | "m \<noteq> Deliver" "m \<noteq> Turn" by blast
  then show ?thesis
  proof cases
    case 1
    then show ?thesis
      using assms close_reachable.step [OF assms(1) close_step.carry_right] by (auto split: option.splits)
  next
    case 2
    then show ?thesis using assms turned_reachable flip by auto
  next
    case 3
    then obtain x' where x': "try_move m x = Some x'" "c = (x', y, M \<union> made x x' y)"
      using assms(2) by (cases m) auto
    then show ?thesis
      using close_reachable.step [OF assms(1) close_step.left] try_move_step [OF x'(1) 3] by blast
  qed
qed

lemma play_reachable: "play ms c = Some d \<Longrightarrow> close_reachable c \<Longrightarrow> close_reachable d"
proof (induction ms arbitrary: c)
  case (Cons m ms)
  then show ?case using make_move_reachable by (cases c) (auto split: option.splits)
qed simp

text \<open>The packet a side has sent arrives at the other and is handled there.\<close>

definition to_right :: "move list" where
  "to_right = [Deliver, Turn, Handle_packet, Turn]"

definition to_left :: "move list" where
  "to_left = [Turn, Deliver, Turn, Handle_packet]"

text \<open>
  \<open>use_it\<close>: a channel is opened on the left, accepted, and written to.  \<open>close_it\<close>: the left closes it and
  both sides handle the \<open>Close\<close> of the other.  \<open>open_again\<close>: a second channel, under the id of the first.
\<close>

definition use_it :: "move list" where
  "use_it = [Open_chan] @ to_right @ [Turn, Accept_chan, Turn] @ to_left @ [Finish_open 0, Write_chan 0 [1, 2, 3]]"

definition close_it :: "move list" where
  "close_it = [Close_chan 0] @ to_right @ to_right @ to_left"

definition open_again :: "move list" where
  "open_again = [Open_chan] @ to_right @ to_left"

fun is_used :: "parties \<Rightarrow> bool" where
  "is_used (x, y, M) \<longleftrightarrow> (0, 0) \<in> M \<and> sent_on x 0 = [1, 2, 3] \<and> joined (channels x ! 0)"

fun is_closed :: "parties \<Rightarrow> bool" where
  "is_closed (x, y, M) \<longleftrightarrow> (0, 0) \<in> M \<and> sent_on x 0 = [1, 2, 3] \<and> read_on y 0 = [] \<and> bclosed (pending (channels y ! 0))
     \<and> gone (channels x ! 0) \<and> gone (channels y ! 0) \<and> outgoing x = [] \<and> arriving y = [] \<and> outgoing y = [] \<and> arriving x = []"

fun is_reopened :: "parties \<Rightarrow> bool" where
  "is_reopened (x, y, M) \<longleftrightarrow> (1, 1) \<in> M \<and> localId (channels x ! 0) = localId (channels x ! 1)
     \<and> getChan (chans (ses x)) 0 = Some 1 \<and> length (channels x) = 2"

text \<open>The right side has read what the left wrote before it closed, and finds the end.\<close>

fun is_read :: "parties \<Rightarrow> bool" where
  "is_read (x, y, M) \<longleftrightarrow> (0, 0) \<in> M \<and> read_on y 0 = [1, 2, 3]
     \<and> fst (buffer_read (pending (channels y ! 0)) 5) = Some ([], Some EOF)"

definition start_parties :: parties where
  "start_parties = (party_start, party_start, {})"

lemma used_run: "case play use_it start_parties of Some c \<Rightarrow> is_used c | None \<Rightarrow> False"
  by code_simp

lemma closed_run: "case play (use_it @ close_it) start_parties of Some c \<Rightarrow> is_closed c | None \<Rightarrow> False"
  by code_simp

lemma read_run:
  "case play (use_it @ close_it @ [Turn, Read_chan 0 5, Turn]) start_parties of Some c \<Rightarrow> is_read c | None \<Rightarrow> False"
  by code_simp

lemma reopened_run: "case play (use_it @ close_it @ open_again) start_parties of Some c \<Rightarrow> is_reopened c | None \<Rightarrow> False"
  by code_simp

lemma run_reaches:
  assumes "case play ms start_parties of Some c \<Rightarrow> P c | None \<Rightarrow> False"
  obtains x y M where "close_reachable (x, y, M)" "P (x, y, M)"
proof -
  obtain c where c: "play ms start_parties = Some c" "P c" using assms by (auto split: option.splits)
  obtain x y M where "c = (x, y, M)" by (cases c)
  with that c play_reachable [OF c(1)] close_reachable.start show ?thesis by (simp add: start_parties_def)
qed


section \<open>Properties\<close>











end
