(* ===== verification/Transport.thy ===== *)
theory Transport
  imports Session
begin

text \<open>
  Package transport (localPackages/transport): the dialers and listeners that put a session on a
  connection.  Establishing a connection is the operating system's part: its result is an argument.
  A listener hands out the sessions of its accepted connections, the error of its accept loop, and
  its closing, each over a Go channel of its own.
\<close>

section \<open>Dialing\<close>

text \<open>
  \<open>dialNet\<close> and \<open>DialWS\<close> on the result of the dial; \<open>DialTCP\<close> and \<open>DialUnix\<close> with \<open>net.Dial\<close> as an argument; \<open>DialIO\<close>.
\<close>

definition dialNet :: "go_error + transport \<Rightarrow> go_error + session option" where
  "dialNet dialled = (case dialled of Inl e \<Rightarrow> Inl e | Inr conn \<Rightarrow> Inr (session_New (Some conn)))"

definition DialTCP :: "(string \<Rightarrow> string \<Rightarrow> go_error + transport) \<Rightarrow> string \<Rightarrow> go_error + session option" where
  "DialTCP dial addr = dialNet (dial ''tcp'' addr)"

definition DialUnix :: "(string \<Rightarrow> string \<Rightarrow> go_error + transport) \<Rightarrow> string \<Rightarrow> go_error + session option" where
  "DialUnix dial addr = dialNet (dial ''unix'' addr)"

definition DialWS :: "go_error + transport \<Rightarrow> go_error + session option" where
  "DialWS dialled = (case dialled of Inl e \<Rightarrow> Inl e | Inr ws \<Rightarrow> Inr (session_New (Some ws)))"

text \<open>
  \<open>ioduplex\<close>: a writer and a reader closed together; the argument says which of the two closes fail.
  The result says which of them have been closed.
\<close>

definition ioduplex_Close :: "go_error option \<Rightarrow> go_error option \<Rightarrow> go_error option \<times> bool \<times> bool" where
  "ioduplex_Close werr rerr =
     (case werr of
        Some e \<Rightarrow> (Some e, True, False)
      | None \<Rightarrow> (case rerr of Some e \<Rightarrow> (Some e, True, True) | None \<Rightarrow> (None, True, True)))"

definition DialIO :: "transport \<Rightarrow> session option \<times> go_error option" where
  "DialIO duplex = (session_New (Some duplex), None)"

definition IOListener_Accept :: "transport \<Rightarrow> session option \<times> go_error option" where
  "IOListener_Accept duplex = (session_New (Some duplex), None)"

definition ListenIO :: "transport \<Rightarrow> transport \<times> go_error option" where
  "ListenIO duplex = (duplex, None)"

section \<open>Waiting for a session\<close>

text \<open>
  \<open>mux.Wait\<close> (mux/misc.go) on an interface value: a session of this repository has the method \<open>Wait\<close>, another
  implementation may not have it.  \<open>None\<close> parks.
\<close>

datatype mux_session = Waiter session | NoWaiter

definition mux_Wait :: "mux_session \<Rightarrow> go_error option" where
  "mux_Wait sess =
     (case sess of
        NoWaiter \<Rightarrow> Some (Errorf ''Session does not support waiting'')
      | Waiter s \<Rightarrow> session_Wait s)"

section \<open>NetListener\<close>

text \<open>
  \<open>accepted\<close> is unbuffered: \<open>offering\<close> lists the sessions whose goroutines are parked on it.
  \<open>lerrs\<close> has capacity 1 (\<open>listenNet\<close>) or 2 (\<open>ListenWS\<close>), \<open>closer\<close> capacity 1; \<open>late_errs\<close> are the
  errors whose goroutines are parked on a full \<open>lerrs\<close>.
\<close>

record net_listener =
  offering :: "session list"
  lerrs :: "go_error gochan"
  late_errs :: "go_error list"
  closer :: "bool gochan"
  nl_closed :: bool

definition new_listener :: "nat \<Rightarrow> net_listener" where
  "new_listener errcap = \<lparr>offering = [], lerrs = make_chan errcap, late_errs = [],
     closer = make_chan 1, nl_closed = False\<rparr>"

definition listenNet :: "go_error option \<Rightarrow> go_error + net_listener" where
  "listenNet err = (case err of Some e \<Rightarrow> Inl e | None \<Rightarrow> Inr (new_listener 1))"

definition ListenTCP :: "(string \<Rightarrow> string \<Rightarrow> go_error option) \<Rightarrow> string \<Rightarrow> go_error + net_listener" where
  "ListenTCP listen addr = listenNet (listen ''tcp'' addr)"

definition ListenUnix :: "(string \<Rightarrow> string \<Rightarrow> go_error option) \<Rightarrow> string \<Rightarrow> go_error + net_listener" where
  "ListenUnix listen addr = listenNet (listen ''unix'' addr)"

definition ListenWS :: "go_error option \<Rightarrow> go_error + net_listener" where
  "ListenWS err = (case err of Some e \<Rightarrow> Inl e | None \<Rightarrow> Inr (new_listener 2))"

text \<open>\<open>errs <- err\<close> on a goroutine of its own: it parks if the channel is full.\<close>

definition report :: "net_listener \<Rightarrow> go_error \<Rightarrow> net_listener" where
  "report l e =
     (case chan_send (lerrs l) e of
        Sent q \<Rightarrow> l\<lparr>lerrs := q\<rparr>
      | _ \<Rightarrow> l\<lparr>late_errs := late_errs l @ [e]\<rparr>)"

text \<open>
  One round of the goroutine of \<open>listenNet\<close>: whether it goes on.  It parks until its session is
  taken, so at most one session of it is offered at a time.
\<close>

definition accept_round :: "net_listener \<Rightarrow> go_error + transport \<Rightarrow> bool \<times> net_listener" where
  "accept_round l r =
     (case r of
        Inl e \<Rightarrow> (False, report l e)
      | Inr conn \<Rightarrow>
          (case session_New (Some conn) of
             Some s \<Rightarrow> (True, l\<lparr>offering := offering l @ [s]\<rparr>)
           | None \<Rightarrow> (True, l)))"

text \<open>
  \<open>HandleWS\<close>: offer the session, then report the error its loop has ended with; the deferred \<open>Close\<close> runs
  once the report has been sent.
\<close>

definition HandleWS_offer :: "net_listener \<Rightarrow> transport \<Rightarrow> net_listener" where
  "HandleWS_offer l ws = snd (accept_round l (Inr ws))"

definition HandleWS_end :: "net_listener \<Rightarrow> session \<Rightarrow> (net_listener \<times> session) option" where
  "HandleWS_end l s =
     (case mux_Wait (Waiter s) of
        None \<Rightarrow> None
      | Some e \<Rightarrow>
          Some (report l e, case chan_send (lerrs l) e of Sent q \<Rightarrow> session_Close s | _ \<Rightarrow> s))"

datatype ready = TakeCloser | TakeErr | TakeSession

text \<open>
  \<open>Accept\<close>: the select takes any ready branch, the one named first if it is ready; \<open>None\<close> parks.
  Taking an error lets a goroutine parked on \<open>errs\<close> send its own.
\<close>

definition unpark :: "net_listener \<Rightarrow> net_listener" where
  "unpark l = (case late_errs l of [] \<Rightarrow> l | e # es \<Rightarrow> report (l\<lparr>late_errs := es\<rparr>) e)"

definition try_branch :: "net_listener \<Rightarrow> ready \<Rightarrow> ((go_error + session) \<times> net_listener) option" where
  "try_branch l b =
     (case b of
        TakeCloser \<Rightarrow>
          (case chan_recv (closer l) of Received _ q \<Rightarrow> Some (Inl EOF, l\<lparr>closer := q\<rparr>) | _ \<Rightarrow> None)
      | TakeErr \<Rightarrow>
          (case chan_recv (lerrs l) of Received e q \<Rightarrow> Some (Inl e, unpark (l\<lparr>lerrs := q\<rparr>)) | _ \<Rightarrow> None)
      | TakeSession \<Rightarrow>
          (case offering l of s # ss \<Rightarrow> Some (Inr s, l\<lparr>offering := ss\<rparr>) | [] \<Rightarrow> None))"

fun NetListener_Accept :: "net_listener \<Rightarrow> ready list \<Rightarrow> (go_error + session) option \<times> net_listener" where
  "NetListener_Accept l [] = (None, l)"
| "NetListener_Accept l (b # bs) =
     (case try_branch l b of Some (r, l') \<Rightarrow> (Some r, l') | None \<Rightarrow> NetListener_Accept l bs)"

text \<open>\<open>Close\<close>: \<open>None\<close> parks on a full \<open>closer\<close>.\<close>

definition NetListener_Close :: "net_listener \<Rightarrow> net_listener option" where
  "NetListener_Close l =
     (case chan_send (closer l) True of
        Sent q \<Rightarrow> Some (l\<lparr>closer := q, nl_closed := True\<rparr>)
      | _ \<Rightarrow> None)"

section \<open>Properties\<close>

text \<open>
  \<open>Close\<close> of a listener parks for ever when it is called twice with no \<open>Accept\<close> in between: the
  channel \<open>closer\<close> holds one signal and only \<open>Accept\<close> takes it out.
\<close>

theorem second_listener_close_parks:
  assumes "NetListener_Close l = Some l'" "qbuf (closer l) = []" "qcap (closer l) = 1"
  shows "NetListener_Close l' = None"
  using assms by (auto simp: NetListener_Close_def chan_send_def split: if_splits)

theorem second_listener_close_parks_witness:
  "\<exists>l'. NetListener_Close (new_listener 1) = Some l' \<and> NetListener_Close l' = None"
proof -
  let ?l = "(new_listener 1)\<lparr>closer := (make_chan 1)\<lparr>qbuf := [True]\<rparr>, nl_closed := True\<rparr>"
  have c: "NetListener_Close (new_listener 1) = Some ?l"
    by (simp add: NetListener_Close_def new_listener_def chan_send_def make_chan_def)
  have "qbuf (closer (new_listener 1)) = []" "qcap (closer (new_listener 1)) = 1"
    by (simp_all add: new_listener_def)
  from second_listener_close_parks [OF c this] c show ?thesis by blast
qed

text \<open>
  A WebSocket session that ends makes the listener's \<open>Accept\<close> fail with the session's error,
  although the listener is open and other sessions are waiting: with the error branch of the select
  taken first, \<open>Accept\<close> returns it instead of the waiting session.
\<close>

theorem ended_session_fails_accept:
  assumes "session_Wait s = Some e" "lerrs l = make_chan 2" "late_errs l = []"
  shows "\<exists>l' l''. HandleWS_end l s = Some (l', session_Close s) \<and> offering l' = offering l
    \<and> NetListener_Accept l' (TakeErr # bs) = (Some (Inl e), l'')"
  using assms
  by (simp add: HandleWS_end_def mux_Wait_def report_def chan_send_def make_chan_def try_branch_def chan_recv_def)

theorem ended_session_fails_accept_witness:
  "\<exists>l' l'' s. HandleWS_end (new_listener 2) s = Some (l', session_Close s)
    \<and> NetListener_Accept l' [TakeErr, TakeSession] = (Some (Inl EOF), l'')"
proof -
  let ?s = "\<lparr>trans = \<lparr>tin = \<lparr>chunks = [], final = EOF\<rparr>, tout = [], tbudget = None, tclosed = True\<rparr>,
    heap = [], chans = [], inbox = make_chan 16, closeCh = make_chan 1, serr = Some EOF\<rparr>"
  have "session_Wait ?s = Some EOF" "lerrs (new_listener 2) = make_chan 2" "late_errs (new_listener 2) = []"
    by (simp_all add: session_Wait_def new_listener_def)
  from ended_session_fails_accept [OF this, of "[TakeSession]"] show ?thesis by blast
qed

end
