(* ===== verification/SharedConn.thy ===== *)
theory SharedConn
  imports GoIO
begin

text \<open>
  The connection that go-vhost hands on (go-vhost/shared.go, http.go): everything that was read to
  find the virtual host is kept in \<open>vhostBuf\<close> and read again, before the rest of the connection, by
  whoever gets it.  The record \<open>shared\<close> is generic in the underlying connection; the locale
  \<open>io_reader\<close> says what is needed of it, and a shared connection is itself interpreted as a reader.
  \<open>http.ReadRequest\<close> is a parameter.
\<close>

section \<open>sharedConn\<close>

record 'r shared =
  sconn :: 'r
  vhostBuf :: "bytes option"

text \<open>
  \<open>newShared\<close> returns the connection and the \<open>TeeReader\<close> that fills its buffer: the pair of the two
  is the state \<open>('r \<times> bytes)\<close> of \<open>tee_read\<close>, and \<open>shared_after\<close> is the connection once the reader
  has been used.
\<close>

definition newShared :: "'r \<Rightarrow> 'r \<times> bytes" where
  "newShared conn = (conn, [])"

definition shared_after :: "'r \<times> bytes \<Rightarrow> 'r shared" where
  "shared_after rd = \<lparr>sconn = fst rd, vhostBuf = Some (snd rd)\<rparr>"

definition shared_read :: "'r reader \<Rightarrow> 'r shared reader" where
  "shared_read read c n =
     (case vhostBuf c of
        None \<Rightarrow> (case read (sconn c) n of (bs, e, r) \<Rightarrow> (bs, e, c\<lparr>sconn := r\<rparr>))
      | Some buf \<Rightarrow>
          (case bytesbuf_read buf n of
             (bs, e, buf') \<Rightarrow>
               if e = Some EOF then
                 (case read (sconn c) (n - length bs) of
                    (bs2, e2, r) \<Rightarrow> (bs @ bs2, e2, c\<lparr>sconn := r, vhostBuf := None\<rparr>))
               else (bs, e, c\<lparr>vhostBuf := Some buf'\<rparr>)))"

definition shared_content :: "('r \<Rightarrow> bytes) \<Rightarrow> 'r shared \<Rightarrow> bytes" where
  "shared_content content c =
     (case vhostBuf c of None \<Rightarrow> [] | Some buf \<Rightarrow> buf) @ content (sconn c)"

context io_reader
begin

lemma shared_length:
  assumes "shared_read read c n = (bs, e, c')"
  shows "length bs \<le> n"
proof (cases "vhostBuf c")
  case None
  with assms show ?thesis
    by (auto simp: shared_read_def dest: read_length split: prod.splits)
next
  case (Some buf)
  obtain bs1 e1 buf1 where b: "bytesbuf_read buf n = (bs1, e1, buf1)"
    by (cases "bytesbuf_read buf n")
  then have "length bs1 \<le> n" by (rule bytesbuf.read_length)
  with assms Some b show ?thesis
    by (auto simp: shared_read_def dest!: read_length split: prod.splits if_splits)
qed

lemma shared_read_content:
  assumes "shared_read read c n = (bs, e, c')"
  shows "shared_content content c = bs @ shared_content content c'"
proof (cases "vhostBuf c")
  case None
  with assms show ?thesis
    by (auto simp: shared_read_def shared_content_def dest: read_content split: prod.splits)
next
  case (Some buf)
  then show ?thesis
    using assms
    by (auto simp: shared_read_def shared_content_def bytesbuf_read_def dest: read_content
        split: prod.splits if_splits)
qed

lemma shared_reader: "io_reader (shared_read read) (shared_content content)"
  by unfold_locales (auto dest: shared_length shared_read_content)

text \<open>Reading through the tee takes nothing away from the shared connection.\<close>

lemma tee_shared:
  "tee_read read rd n = (bs, e, rd') \<Longrightarrow>
     shared_content content (shared_after rd') = shared_content content (shared_after rd)"
  by (cases rd; cases rd') (auto simp: shared_content_def shared_after_def dest: tee_keeps)

text \<open>The data that was set aside is read first, and then the connection itself.\<close>

lemma shared_read_buffered:
  assumes "vhostBuf c = Some buf" "buf \<noteq> []"
  shows "shared_read read c n = (take n buf, None, c\<lparr>vhostBuf := Some (drop n buf)\<rparr>)"
  using assms by (simp add: shared_read_def bytesbuf_read_def)

lemma shared_read_drained:
  assumes "vhostBuf c = Some []" "0 < n" "read (sconn c) n = (bs, e, r)"
  shows "shared_read read c n = (bs, e, c\<lparr>sconn := r, vhostBuf := None\<rparr>)"
  using assms by (simp add: shared_read_def bytesbuf_read_def)

end

interpretation shared_stream: io_reader "shared_read stream_read" "shared_content stream_content"
  by (rule stream.shared_reader)

interpretation shared_conn: io_reader "shared_read transport_read"
    "shared_content (\<lambda>t. stream_content (tin t))"
  by (rule conn.shared_reader)

text \<open>
  What a piece of code can do to a reader by calling \<open>Read\<close>, any number of times.
\<close>

inductive reads_to :: "'r reader \<Rightarrow> 'r \<Rightarrow> 'r \<Rightarrow> bool" for read where
  stop: "reads_to read r r"
| more: "read r n = (bs, e, r1) \<Longrightarrow> reads_to read r1 r2 \<Longrightarrow> reads_to read r r2"

lemma reads_to_trans: "reads_to read r r1 \<Longrightarrow> reads_to read r1 r2 \<Longrightarrow> reads_to read r r2"
  by (induction rule: reads_to.induct) (auto intro: reads_to.more)

lemma reads_to_one: "read r n = (bs, e, r1) \<Longrightarrow> reads_to read r r1"
  by (rule reads_to.more [OF _ reads_to.stop])

context io_reader
begin

lemma tee_reads_shared:
  "reads_to (tee_read read) rd rd' \<Longrightarrow>
     shared_content content (shared_after rd') = shared_content content (shared_after rd)"
  by (induction rule: reads_to.induct) (simp_all add: tee_shared)

end

text \<open>Reading until everything is read: the bytes of \<open>k\<close> reads of sizes \<open>ns\<close>.\<close>

fun read_all :: "'r reader \<Rightarrow> nat list \<Rightarrow> 'r \<Rightarrow> bytes \<times> 'r" where
  "read_all read [] r = ([], r)"
| "read_all read (n # ns) r =
     (case read r n of (bs, e, r1) \<Rightarrow> case read_all read ns r1 of (bss, r2) \<Rightarrow> (bs @ bss, r2))"

context io_reader
begin

lemma read_all_content: "read_all read ns r = (bs, r') \<Longrightarrow> content r = bs @ content r'"
  by (induction ns arbitrary: r bs r') (auto dest: read_content split: prod.splits)

end

section \<open>HTTPConn\<close>

text \<open>
  \<open>HTTP\<close>: \<open>read_request\<close> stands for \<open>http.ReadRequest\<close> on a buffered reader, followed by closing the
  request's body; it returns the request's \<open>Host\<close> field (all that the package uses) or an error.
\<close>

record 'r http_conn =
  hshared :: "'r shared"
  Request :: "string option"

definition HTTP ::
    "(('r \<times> bytes) reader \<Rightarrow> 'r \<times> bytes \<Rightarrow> (go_error + string) \<times> ('r \<times> bytes)) \<Rightarrow>
     'r reader \<Rightarrow> 'r \<Rightarrow> go_error option \<times> 'r http_conn" where
  "HTTP read_request read conn =
     (case read_request (tee_read read) (newShared conn) of
        (Inl e, rd) \<Rightarrow> (Some e, \<lparr>hshared = shared_after rd, Request = None\<rparr>)
      | (Inr host, rd) \<Rightarrow> (None, \<lparr>hshared = shared_after rd, Request = Some host\<rparr>))"

definition http_Free :: "'r http_conn \<Rightarrow> 'r http_conn" where
  "http_Free c = c\<lparr>Request := None\<rparr>"

definition http_Host :: "'r http_conn \<Rightarrow> string" where
  "http_Host c = (case Request c of None \<Rightarrow> '''' | Some host \<Rightarrow> host)"

section \<open>Properties\<close>

text \<open>
  The virtual-host connection is unread.  Whatever \<open>http.ReadRequest\<close> has read to find the
  host, however far ahead, and whether or not it failed, any sequence of reads of the returned
  connection yields the bytes the client sent, from the first one on, in order.
\<close>

theorem http_conn_is_unread:
  assumes "\<And>rd. reads_to (tee_read stream_read) rd (snd (read_request (tee_read stream_read) rd))"
    and "HTTP read_request stream_read conn = (e, c)"
    and "read_all (shared_read stream_read) ns (hshared c) = (bs, c')"
  shows "bs = take (length bs) (stream_content conn)
    \<and> stream_content conn = bs @ shared_content stream_content c'"
proof -
  obtain x rd where rr: "read_request (tee_read stream_read) (newShared conn) = (x, rd)"
    by (cases "read_request (tee_read stream_read) (newShared conn)")
  have "reads_to (tee_read stream_read) (newShared conn) rd"
    using assms(1) [of "newShared conn"] rr by simp
  then have "shared_content stream_content (shared_after rd) = stream_content conn"
    using stream.tee_reads_shared by (simp add: newShared_def shared_after_def shared_content_def)
  moreover have "hshared c = shared_after rd"
    using assms(2) rr by (auto simp: HTTP_def split: sum.splits)
  ultimately have "stream_content conn = bs @ shared_content stream_content c'"
    using shared_stream.read_all_content [OF assms(3)] by simp
  then show ?thesis by simp
qed

text \<open>A request parser that reads twice, finds the host in three bytes, and fails on fewer.\<close>

definition sample_read_request ::
    "(instream \<times> bytes) reader \<Rightarrow> instream \<times> bytes \<Rightarrow> (go_error + string) \<times> (instream \<times> bytes)" where
  "sample_read_request read rd =
     (case read rd 2 of (bs1, _, rd1) \<Rightarrow> case read rd1 4 of (bs2, _, rd2) \<Rightarrow>
        (if length (bs1 @ bs2) < 3 then Inl EOF else Inr ''www'', rd2))"

theorem http_conn_is_unread_witness:
  "\<exists>c c'. HTTP sample_read_request stream_read \<lparr>chunks = [[65, 66, 67], [68, 69]], final = EOF\<rparr> = (None, c)
     \<and> http_Host c = ''www''
     \<and> read_all (shared_read stream_read) [2, 9, 9] (hshared c) = ([65, 66, 67, 68, 69], c')"
proof -
  let ?s = "\<lparr>chunks = [[65, 66, 67], [68, 69]], final = EOF\<rparr>"
  have p: "reads_to (tee_read stream_read) rd (snd (sample_read_request (tee_read stream_read) rd))" for rd
    by (auto simp: sample_read_request_def split: prod.splits
        elim!: reads_to.more [OF _ reads_to_one])
  let ?c = "\<lparr>hshared = \<lparr>sconn = \<lparr>chunks = [[68, 69]], final = EOF\<rparr>, vhostBuf = Some [65, 66, 67]\<rparr>,
      Request = Some ''www''\<rparr>"
  have h: "HTTP sample_read_request stream_read ?s = (None, ?c)"
    by (simp add: HTTP_def sample_read_request_def newShared_def tee_read_def stream_read_def
        shared_after_def)
  obtain bs c' where r: "read_all (shared_read stream_read) [2, 9, 9] (hshared ?c) = (bs, c')"
    "length bs = 5"
    by (simp add: shared_read_def bytesbuf_read_def stream_read_def)
  have "bs = take (length bs) (stream_content ?s)"
    using http_conn_is_unread [OF p h r(1)] by blast
  then have "bs = [65, 66, 67, 68, 69]" unfolding r(2) by (simp add: stream_content_def)
  then show ?thesis using h r(1) by (intro exI [of _ ?c] exI [of _ c']) (simp add: http_Host_def)
qed

end
