(* ===== verification/TLSHello.thy ===== *)
theory TLSHello
  imports SharedConn
begin

text \<open>
  Finding the virtual host of a TLS connection (go-vhost/tls.go): the growing block that records are
  read into, the record and handshake layer, the ClientHello parser, and \<open>TLS\<close> itself.  Index and
  slice expressions are options (\<open>None\<close> is a panic).  Loops that wait for the network are partial
  functions (\<open>None\<close> is a loop that never ends); the locale \<open>finite_reader\<close> is what makes them end.
\<close>

section \<open>Alerts\<close>

abbreviation maxPlaintext :: nat where "maxPlaintext \<equiv> 16384"
abbreviation maxCiphertext :: nat where "maxCiphertext \<equiv> 16384 + 2048"
abbreviation recordHeaderLen :: nat where "recordHeaderLen \<equiv> 5"
abbreviation maxHandshake :: nat where "maxHandshake \<equiv> 65536"
abbreviation alertUnexpectedMessage :: go_error where "alertUnexpectedMessage \<equiv> Alert 10"
abbreviation alertRecordOverflow :: go_error where "alertRecordOverflow \<equiv> Alert 22"
abbreviation alertInternalError :: go_error where "alertInternalError \<equiv> Alert 80"

definition alert_String :: "byte \<Rightarrow> string" where
  "alert_String e =
     (if e = 10 then ''unexpected message''
      else if e = 22 then ''record overflow''
      else if e = 80 then ''internal error''
      else ''alert('' @ dec_string (unat e) @ '')'')"

section \<open>Two-byte integers\<close>

text \<open>\<open>int(a)<<8 | int(b)\<close> and \<open>uint16(a)<<8 | uint16(b)\<close>, and the Go string of a byte slice.\<close>

definition int16 :: "byte \<Rightarrow> byte \<Rightarrow> nat" where
  "int16 a b = push_bit 8 (unat a) OR unat b"

definition word16 :: "byte \<Rightarrow> byte \<Rightarrow> u16" where
  "word16 a b = push_bit 8 (ucast a) OR ucast b"

definition go_string :: "bytes \<Rightarrow> string" where
  "go_string bs = map (\<lambda>b. char_of (unat b)) bs"

lemma byte_lt: "unat (b :: byte) < 256"
  using unsigned_less [of b, where 'a = nat] by simp

lemma shift_or: "b < 2 ^ k \<Longrightarrow> push_bit k a OR b = a * 2 ^ k + (b :: nat)"
proof -
  assume b: "b < 2 ^ k"
  then have tb: "take_bit k b = b" by (simp add: take_bit_nat_eq_self)
  have "push_bit k a + b = push_bit k a OR b"
  proof (rule disjunctive_add_eq_or, rule bit_eqI)
    fix n
    have "\<not> bit b n" if "k \<le> n"
      using that tb by (metis bit_take_bit_iff not_less)
    then show "bit (push_bit k a AND b) n \<longleftrightarrow> bit 0 n"
      by (auto simp: bit_simps)
  qed
  then show ?thesis by (simp add: push_bit_eq_mult)
qed

lemma int16_eq: "int16 a b = 256 * unat a + unat b"
  using shift_or [of "unat b" 8 "unat a"] byte_lt [of b] by (simp add: int16_def)

section \<open>Blocks\<close>

record block =
  bdata :: bytes
  bcap :: nat
  boff :: nat

definition newBlock :: block where
  "newBlock = \<lparr>bdata = [], bcap = 0, boff = 0\<rparr>"

text \<open>\<open>for m < n { m *= 2 }\<close>, for the positive \<open>m\<close> it is entered with.\<close>

function grow :: "nat \<Rightarrow> nat \<Rightarrow> nat" where
  "grow m n = (if 0 < m \<and> m < n then grow (m * 2) n else m)"
  by pat_completeness auto
termination
  by (relation "measure (\<lambda>(m, n). n - m)") auto

declare grow.simps [simp del]

definition block_reserve :: "block \<Rightarrow> nat \<Rightarrow> block" where
  "block_reserve b n =
     (if n \<le> bcap b then b
      else b\<lparr>bcap := grow (if bcap b = 0 then 1024 else bcap b) n\<rparr>)"

text \<open>\<open>resize\<close>; the code calls it on fresh blocks only, whose spare capacity is still zero.\<close>

definition block_resize :: "block \<Rightarrow> nat \<Rightarrow> block" where
  "block_resize b n =
     (let b' = (if bcap b < n then block_reserve b n else b)
      in b'\<lparr>bdata := take n (bdata b' @ make_bytes (n - length (bdata b')))\<rparr>)"

partial_function (option) fill_loop ::
    "'r reader \<Rightarrow> nat \<Rightarrow> block \<Rightarrow> 'r \<Rightarrow> (go_error option \<times> block \<times> 'r) option" where
  "fill_loop read n b r =
     (case read r (bcap b - length (bdata b)) of (bs, e, r') \<Rightarrow>
        let b' = b\<lparr>bdata := bdata b @ bs\<rparr> in
        if n \<le> length (bdata b') then Some (None, b', r')
        else (case e of Some err \<Rightarrow> Some (Some err, b', r') | None \<Rightarrow> fill_loop read n b' r'))"

definition readFromUntil ::
    "'r reader \<Rightarrow> block \<Rightarrow> 'r \<Rightarrow> nat \<Rightarrow> (go_error option \<times> block \<times> 'r) option" where
  "readFromUntil read b r n =
     (if n \<le> length (bdata b) then Some (None, b, r)
      else fill_loop read n (block_reserve b n) r)"

definition block_Read :: "block \<Rightarrow> nat \<Rightarrow> (bytes \<times> block) option" where
  "block_Read b n =
     do { rest \<leftarrow> slice_from (bdata b) (boff b);
          let p = take n rest;
          Some (p, b\<lparr>boff := boff b + length p\<rparr>) }"

definition splitBlock :: "block \<Rightarrow> nat \<Rightarrow> block \<times> block option" where
  "splitBlock b n =
     (if length (bdata b) \<le> n then (b, None)
      else
        let bb = block_resize newBlock (length (bdata b) - n);
            bb = bb\<lparr>bdata := take (length (bdata bb)) (drop n (bdata b))
                       @ drop (length (bdata b) - n) (bdata bb)\<rparr>
        in (b\<lparr>bdata := take n (bdata b)\<rparr>, Some bb))"

section \<open>The record layer\<close>

record 'r hello_state =
  nextBlock :: "block option"
  hand :: bytes
  rd :: 'r

text \<open>The header checks: the length of the payload, or the error.\<close>

definition record_length :: "bytes \<Rightarrow> nat result" where
  "record_length data =
     (case (get_at data 0, get_at data 1, get_at data 2, get_at data 3, get_at data 4) of
        (Some typ, Some v1, Some v2, Some l1, Some l2) \<Rightarrow>
          if typ = 0x80 then Err (Errorf ''tls: unsupported SSLv2 handshake received'')
          else
            let vers = word16 v1 v2; n = int16 l1 l2 in
            if n > maxCiphertext then Err alertRecordOverflow
            else if typ \<noteq> 22 \<or> vers \<ge> 0x1000 \<or> n \<ge> 0x3000 then Err alertUnexpectedMessage
            else Ok n
      | _ \<Rightarrow> Panic)"

text \<open>A record of payload length \<open>n\<close> that is in the block: split it off, keep its payload.\<close>

definition take_record :: "'r hello_state \<Rightarrow> block \<Rightarrow> nat \<Rightarrow> unit result \<times> 'r hello_state" where
  "take_record st b n =
     (case splitBlock b (recordHeaderLen + n) of
        (b, nb) \<Rightarrow>
          let st = st\<lparr>nextBlock := nb\<rparr>; b = b\<lparr>boff := recordHeaderLen\<rparr> in
          (case slice_from (bdata b) (boff b) of
             None \<Rightarrow> (Panic, st)
           | Some data \<Rightarrow>
               if length data > maxPlaintext then (Err alertRecordOverflow, st)
               else (Ok (), st\<lparr>hand := hand st @ data\<rparr>)))"

definition readRecord ::
    "'r reader \<Rightarrow> 'r hello_state \<Rightarrow> (unit result \<times> 'r hello_state) option" where
  "readRecord read st =
     (let b = (case nextBlock st of None \<Rightarrow> newBlock | Some b \<Rightarrow> b) in
      case readFromUntil read b (rd st) recordHeaderLen of
        None \<Rightarrow> None
      | Some (Some e, b, r) \<Rightarrow> Some (Err e, st\<lparr>nextBlock := Some b, rd := r\<rparr>)
      | Some (None, b, r) \<Rightarrow>
          (case record_length (bdata b) of
             Err e \<Rightarrow> Some (Err e, st\<lparr>nextBlock := Some b, rd := r\<rparr>)
           | Panic \<Rightarrow> Some (Panic, st\<lparr>nextBlock := Some b, rd := r\<rparr>)
           | Ok n \<Rightarrow>
               (case readFromUntil read b r (recordHeaderLen + n) of
                  None \<Rightarrow> None
                | Some (Some e, b, r) \<Rightarrow> Some (Err e, st\<lparr>nextBlock := Some b, rd := r\<rparr>)
                | Some (None, b, r) \<Rightarrow>
                    Some (take_record (st\<lparr>nextBlock := Some b, rd := r\<rparr>) b n))))"

section \<open>The ClientHello message\<close>

record ClientHelloMsg =
  Raw :: bytes
  Vers :: u16
  Random :: bytes
  SessionId :: bytes
  CipherSuites :: "u16 list"
  CompressionMethods :: bytes
  NextProtoNeg :: bool
  ServerName :: string
  OcspStapling :: bool
  SupportedCurves :: "u16 list"
  SupportedPoints :: bytes
  TicketSupported :: bool
  SessionTicket :: bytes

definition new_hello :: ClientHelloMsg where
  "new_hello = \<lparr>Raw = [], Vers = 0, Random = [], SessionId = [], CipherSuites = [],
     CompressionMethods = [], NextProtoNeg = False, ServerName = '''', OcspStapling = False,
     SupportedCurves = [], SupportedPoints = [], TicketSupported = False, SessionTicket = []\<rparr>"

text \<open>
  The parser returns \<open>None\<close> if it panics, \<open>Some None\<close> if it returns false, and
  \<open>Some (Some m)\<close> if it returns true with the message filled in as \<open>m\<close>.
\<close>

type_synonym 'a parsed = "'a option option"

text \<open>The loop over the name list of the server_name extension.\<close>

fun name_loop :: "nat \<Rightarrow> bytes \<Rightarrow> string \<Rightarrow> string parsed" where
  "name_loop 0 d name = Some (Some name)"
| "name_loop (Suc i) d name =
     (if length d < 3 then Some None
      else do { nameType \<leftarrow> get_at d 0; a \<leftarrow> get_at d 1; b \<leftarrow> get_at d 2; d \<leftarrow> slice_from d 3;
                let nameLen = int16 a b;
                if length d < nameLen then Some None
                else if nameType = 0
                then do { s \<leftarrow> slice_of d 0 nameLen; Some (Some (go_string s)) }
                else do { d \<leftarrow> slice_from d nameLen; name_loop i d name } })"

fun curves_loop :: "nat \<Rightarrow> bytes \<Rightarrow> u16 list option" where
  "curves_loop 0 d = Some []"
| "curves_loop (Suc k) d =
     do { a \<leftarrow> get_at d 0; b \<leftarrow> get_at d 1; d \<leftarrow> slice_from d 2; cs \<leftarrow> curves_loop k d;
          Some (word16 a b # cs) }"

text \<open>
  The cases of the switch over one extension, with its length and all the data from its start on.
\<close>

definition ext_server_name :: "ClientHelloMsg \<Rightarrow> nat \<Rightarrow> bytes \<Rightarrow> ClientHelloMsg parsed" where
  "ext_server_name m len data =
     (if len < 2 then Some None
      else do { a \<leftarrow> get_at data 0; b \<leftarrow> get_at data 1; d \<leftarrow> slice_from data 2;
                r \<leftarrow> name_loop (int16 a b) d (ServerName m);
                Some (map_option (\<lambda>s. m\<lparr>ServerName := s\<rparr>) r) })"

definition ext_status_request :: "ClientHelloMsg \<Rightarrow> nat \<Rightarrow> bytes \<Rightarrow> ClientHelloMsg parsed" where
  "ext_status_request m len data =
     (if len > 0
      then do { a \<leftarrow> get_at data 0; Some (Some (m\<lparr>OcspStapling := (a = 1)\<rparr>)) }
      else Some (Some (m\<lparr>OcspStapling := False\<rparr>)))"

definition ext_curves :: "ClientHelloMsg \<Rightarrow> nat \<Rightarrow> bytes \<Rightarrow> ClientHelloMsg parsed" where
  "ext_curves m len data =
     (if len < 2 then Some None
      else do { a \<leftarrow> get_at data 0; b \<leftarrow> get_at data 1;
                let l = int16 a b;
                if l mod 2 = 1 \<or> len \<noteq> l + 2 then Some None
                else do { d \<leftarrow> slice_from data 2; cs \<leftarrow> curves_loop (l div 2) d;
                          Some (Some (m\<lparr>SupportedCurves := cs\<rparr>)) } })"

definition ext_points :: "ClientHelloMsg \<Rightarrow> nat \<Rightarrow> bytes \<Rightarrow> ClientHelloMsg parsed" where
  "ext_points m len data =
     (if len < 1 then Some None
      else do { a \<leftarrow> get_at data 0;
                let l = unat a;
                if len \<noteq> l + 1 then Some None
                else do { d \<leftarrow> slice_from data 1; Some (Some (m\<lparr>SupportedPoints := take l d\<rparr>)) } })"

definition ext_session_ticket :: "ClientHelloMsg \<Rightarrow> nat \<Rightarrow> bytes \<Rightarrow> ClientHelloMsg parsed" where
  "ext_session_ticket m len data =
     do { t \<leftarrow> slice_of data 0 len;
          Some (Some (m\<lparr>TicketSupported := True, SessionTicket := t\<rparr>)) }"

definition ext_case :: "ClientHelloMsg \<Rightarrow> u16 \<Rightarrow> nat \<Rightarrow> bytes \<Rightarrow> ClientHelloMsg parsed" where
  "ext_case m extension len data =
     (if extension = 0 then ext_server_name m len data
      else if extension = 13172 then
        (if len > 0 then Some None else Some (Some (m\<lparr>NextProtoNeg := True\<rparr>)))
      else if extension = 5 then ext_status_request m len data
      else if extension = 10 then ext_curves m len data
      else if extension = 11 then ext_points m len data
      else if extension = 35 then ext_session_ticket m len data
      else Some (Some m))"

definition ext_header :: "bytes \<Rightarrow> (u16 \<times> nat \<times> bytes) option" where
  "ext_header data =
     do { a \<leftarrow> get_at data 0; b \<leftarrow> get_at data 1; c \<leftarrow> get_at data 2; d \<leftarrow> get_at data 3;
          rest \<leftarrow> slice_from data 4; Some (word16 a b, int16 c d, rest) }"

lemma ext_header_rest: "ext_header data = Some (e, n, rest) \<Longrightarrow> rest = drop 4 data \<and> 4 \<le> length data"
  by (auto simp: ext_header_def bind_eq_Some_conv slice_from_def slice_of_def get_at_def split: if_splits)

function ext_loop :: "ClientHelloMsg \<Rightarrow> bytes \<Rightarrow> ClientHelloMsg parsed" where
  "ext_loop m data =
     (if data = [] then Some (Some m)
      else if length data < 4 then Some None
      else
        (case ext_header data of
           None \<Rightarrow> None
         | Some (extension, len, d1) \<Rightarrow>
             if length d1 < len then Some None
             else
               (case ext_case m extension len d1 of
                  None \<Rightarrow> None
                | Some None \<Rightarrow> Some None
                | Some (Some m') \<Rightarrow>
                    (case slice_from d1 len of None \<Rightarrow> None | Some d2 \<Rightarrow> ext_loop m' d2))))"
  by pat_completeness auto
termination
  by (relation "measure (\<lambda>(m, d). length d)")
    (auto simp: slice_from_def slice_of_def dest!: ext_header_rest split: if_splits)

declare ext_loop.simps [simp del]

definition um_extensions :: "ClientHelloMsg \<Rightarrow> bytes \<Rightarrow> ClientHelloMsg parsed" where
  "um_extensions m data =
     (let m = m\<lparr>NextProtoNeg := False, ServerName := '''', OcspStapling := False,
                TicketSupported := False, SessionTicket := []\<rparr> in
      if length data = 0 then Some (Some m)
      else if length data < 2 then Some None
      else do { a \<leftarrow> get_at data 0; b \<leftarrow> get_at data 1; data \<leftarrow> slice_from data 2;
                if int16 a b \<noteq> length data then Some None else ext_loop m data })"

definition um_compression :: "ClientHelloMsg \<Rightarrow> bytes \<Rightarrow> ClientHelloMsg parsed" where
  "um_compression m data =
     (if length data < 1 then Some None
      else do { a \<leftarrow> get_at data 0;
                let compressionMethodsLen = unat a;
                if length data < 1 + compressionMethodsLen then Some None
                else do { cs \<leftarrow> slice_of data 1 (1 + compressionMethodsLen);
                          data \<leftarrow> slice_from data (1 + compressionMethodsLen);
                          um_extensions (m\<lparr>CompressionMethods := cs\<rparr>) data } })"

text \<open>The loop over the cipher suites, from index \<open>i\<close> on.\<close>

fun cipher_loop :: "nat \<Rightarrow> nat \<Rightarrow> bytes \<Rightarrow> u16 list option" where
  "cipher_loop 0 i data = Some []"
| "cipher_loop (Suc k) i data =
     do { a \<leftarrow> get_at data (2 + 2 * i); b \<leftarrow> get_at data (3 + 2 * i);
          cs \<leftarrow> cipher_loop k (Suc i) data; Some (word16 a b # cs) }"

definition um_ciphers :: "ClientHelloMsg \<Rightarrow> bytes \<Rightarrow> ClientHelloMsg parsed" where
  "um_ciphers m data =
     (if length data < 2 then Some None
      else do { a \<leftarrow> get_at data 0; b \<leftarrow> get_at data 1;
                let cipherSuiteLen = int16 a b;
                if cipherSuiteLen mod 2 = 1 \<or> length data < 2 + cipherSuiteLen then Some None
                else do { cs \<leftarrow> cipher_loop (cipherSuiteLen div 2) 0 data;
                          data \<leftarrow> slice_from data (2 + cipherSuiteLen);
                          um_compression (m\<lparr>CipherSuites := cs\<rparr>) data } })"

definition unmarshal :: "ClientHelloMsg \<Rightarrow> bytes \<Rightarrow> ClientHelloMsg parsed" where
  "unmarshal m data =
     (if length data < 42 then Some None
      else do { v1 \<leftarrow> get_at data 4; v2 \<leftarrow> get_at data 5; random \<leftarrow> slice_of data 6 38;
                s \<leftarrow> get_at data 38;
                let sessionIdLen = unat s;
                if sessionIdLen > 32 \<or> length data < 39 + sessionIdLen then Some None
                else do { sid \<leftarrow> slice_of data 39 (39 + sessionIdLen);
                          rest \<leftarrow> slice_from data (39 + sessionIdLen);
                          um_ciphers (m\<lparr>Raw := data, Vers := word16 v1 v2, Random := random,
                                        SessionId := sid\<rparr>) rest } })"

section \<open>readClientHello and TLS\<close>

partial_function (option) hello_loop ::
    "'r reader \<Rightarrow> nat \<Rightarrow> 'r hello_state \<Rightarrow> (unit result \<times> 'r hello_state) option" where
  "hello_loop read n st =
     (if length (hand st) < 4 + n then
        (case readRecord read st of
           None \<Rightarrow> None
         | Some (res, st') \<Rightarrow>
             (case res of Ok u \<Rightarrow> hello_loop read n st' | Err e \<Rightarrow> Some (Err e, st') | Panic \<Rightarrow> Some (Panic, st')))
      else Some (Ok (), st))"

text \<open>What is done with the handshake data once there is enough of it.\<close>

definition hello_message :: "nat \<Rightarrow> bytes \<Rightarrow> ClientHelloMsg result" where
  "hello_message n h =
     (let data = take (4 + n) h in
      case get_at data 0 of
        None \<Rightarrow> Panic
      | Some ty \<Rightarrow>
          if ty \<noteq> 1 then Err alertUnexpectedMessage
          else (case unmarshal new_hello data of
                  None \<Rightarrow> Panic
                | Some None \<Rightarrow> Err alertUnexpectedMessage
                | Some (Some msg) \<Rightarrow> Ok msg))"

definition readClientHello :: "'r reader \<Rightarrow> 'r \<Rightarrow> (ClientHelloMsg result \<times> 'r) option" where
  "readClientHello read r =
     (case readRecord read \<lparr>nextBlock = None, hand = [], rd = r\<rparr> of
        None \<Rightarrow> None
      | Some (Err e, st) \<Rightarrow> Some (Err e, rd st)
      | Some (Panic, st) \<Rightarrow> Some (Panic, rd st)
      | Some (Ok _, st) \<Rightarrow>
          let data = hand st in
          if length data < 4 then Some (Err alertUnexpectedMessage, rd st)
          else
            (case (get_at data 1, get_at data 2, get_at data 3) of
               (Some a, Some b, Some c) \<Rightarrow>
                 let n = (push_bit 16 (unat a) OR push_bit 8 (unat b)) OR unat c in
                 if n > maxHandshake then Some (Err alertInternalError, rd st)
                 else
                   (case hello_loop read n st of
                      None \<Rightarrow> None
                    | Some (Err e, st) \<Rightarrow> Some (Err e, rd st)
                    | Some (Panic, st) \<Rightarrow> Some (Panic, rd st)
                    | Some (Ok _, st) \<Rightarrow> Some (hello_message n (hand st), rd st))
             | _ \<Rightarrow> Some (Panic, rd st)))"

record 'r tls_conn =
  tshared :: "'r shared"
  tls_hello :: "ClientHelloMsg option"

text \<open>\<open>TLS\<close>: the connection it returns, with the error (or the panic) it returns besides.\<close>

definition TLS :: "'r reader \<Rightarrow> 'r \<Rightarrow> (unit result \<times> 'r tls_conn) option" where
  "TLS read conn =
     (case readClientHello (tee_read read) (newShared conn) of
        None \<Rightarrow> None
      | Some (Ok msg, r) \<Rightarrow> Some (Ok (), \<lparr>tshared = shared_after r, tls_hello = Some msg\<rparr>)
      | Some (Err e, r) \<Rightarrow> Some (Err e, \<lparr>tshared = shared_after r, tls_hello = None\<rparr>)
      | Some (Panic, r) \<Rightarrow> Some (Panic, \<lparr>tshared = shared_after r, tls_hello = None\<rparr>))"

definition tls_Host :: "'r tls_conn \<Rightarrow> string" where
  "tls_Host c = (case tls_hello c of None \<Rightarrow> '''' | Some m \<Rightarrow> ServerName m)"

definition tls_Free :: "'r tls_conn \<Rightarrow> 'r tls_conn" where
  "tls_Free c = c\<lparr>tls_hello := None\<rparr>"

section \<open>Blocks and the record layer\<close>

lemma grow_ge: "0 < m \<Longrightarrow> n \<le> grow m n"
  by (induction m n rule: grow.induct) (subst grow.simps, auto)

lemma reserve_bdata [simp]: "bdata (block_reserve b n) = bdata b"
  by (simp add: block_reserve_def)

lemma reserve_bcap: "n \<le> bcap (block_reserve b n)"
  using grow_ge [of "if bcap b = 0 then 1024 else bcap b" n] by (simp add: block_reserve_def)

lemma splitBlock_short: "length (bdata b) \<le> n \<Longrightarrow> splitBlock b n = (b, None)"
  by (simp add: splitBlock_def)

lemma splitBlock_long:
  "n < length (bdata b) \<Longrightarrow>
     \<exists>bb. splitBlock b n = (b\<lparr>bdata := take n (bdata b)\<rparr>, Some bb) \<and> bdata bb = drop n (bdata b)"
  by (simp add: splitBlock_def block_resize_def Let_def newBlock_def)

text \<open>
  Readers that cannot report success for ever: a successful read of a non-empty slice makes
  \<open>size\<close> smaller.  This is what makes the loops of the record layer end.
\<close>

locale finite_reader = io_reader read content
  for read :: "'r reader" and content :: "'r \<Rightarrow> bytes" +
  fixes size :: "'r \<Rightarrow> nat"
  assumes read_size: "read r n = (bs, None, r') \<Longrightarrow> 0 < n \<Longrightarrow> size r' < size r"
begin

text \<open>An error of the record layer is the error of a read of a non-empty slice.\<close>

definition read_failed :: "go_error \<Rightarrow> 'r \<Rightarrow> bool" where
  "read_failed e r' \<longleftrightarrow> (\<exists>r k bs. read r k = (bs, Some e, r') \<and> 0 < k)"

lemma fill_loop_ends:
  "length (bdata b) < n \<Longrightarrow> n \<le> bcap b \<Longrightarrow>
   \<exists>e b' r'. fill_loop read n b r = Some (e, b', r')
     \<and> bdata b' @ content r' = bdata b @ content r \<and> reads_to read r r'
     \<and> (case e of None \<Rightarrow> n \<le> length (bdata b') | Some e' \<Rightarrow> length (bdata b') < n \<and> read_failed e' r')"
proof (induction "size r" arbitrary: b r rule: less_induct)
  case less
  obtain bs e r1 where rd: "read r (bcap b - length (bdata b)) = (bs, e, r1)"
    by (cases "read r (bcap b - length (bdata b))")
  let ?b = "b\<lparr>bdata := bdata b @ bs\<rparr>"
  have c: "bdata ?b @ content r1 = bdata b @ content r" using read_content [OF rd] by simp
  have pos: "0 < bcap b - length (bdata b)" using less.prems by simp
  show ?case
  proof (cases "n \<le> length (bdata ?b) \<or> e \<noteq> None")
    case True
    have "read_failed e' r1" if "e = Some e'" for e'
      using rd pos that unfolding read_failed_def by blast
    with True show ?thesis
      using rd c reads_to_one [of read, OF rd]
      by (subst fill_loop.simps) (auto simp: Let_def not_le split: option.splits)
  next
    case False
    then have f: "length (bdata ?b) < n" "e = None" by auto
    have "size r1 < size r" by (rule read_size [OF rd [unfolded f(2)] pos])
    from less.hyps [OF this, of ?b] f(1) less.prems(2) obtain e' b' r' where ih:
      "fill_loop read n ?b r1 = Some (e', b', r')" "bdata b' @ content r' = bdata ?b @ content r1"
      "reads_to read r1 r'" "case e' of None \<Rightarrow> n \<le> length (bdata b')
         | Some e' \<Rightarrow> length (bdata b') < n \<and> read_failed e' r'" by auto
    have "fill_loop read n b r = fill_loop read n ?b r1"
      using rd f by (subst fill_loop.simps) (simp add: Let_def)
    then show ?thesis using ih c reads_to.more [of read, OF rd] by simp
  qed
qed

lemma readFromUntil_result:
  "\<exists>e b' r'. readFromUntil read b r n = Some (e, b', r')
     \<and> bdata b' @ content r' = bdata b @ content r \<and> reads_to read r r'
     \<and> (case e of None \<Rightarrow> n \<le> length (bdata b') | Some e' \<Rightarrow> length (bdata b') < n \<and> read_failed e' r')"
  using fill_loop_ends [of "block_reserve b n" n r] reserve_bcap [of n b] reads_to.stop [of read r]
  by (auto simp: readFromUntil_def)

lemma readFromUntil_ends:
  "\<exists>e b' r'. readFromUntil read b r n = Some (e, b', r')
     \<and> bdata b' @ content r' = bdata b @ content r \<and> reads_to read r r'
     \<and> (e = None \<longrightarrow> n \<le> length (bdata b'))"
  using readFromUntil_result [of b r n] by (auto split: option.splits)

text \<open>The bytes not yet taken out as a record: buffered, and still to be read.\<close>

definition raw :: "'r hello_state \<Rightarrow> bytes" where
  "raw st = (case nextBlock st of None \<Rightarrow> [] | Some b \<Rightarrow> bdata b) @ content (rd st)"

text \<open>
  A record read successfully is a header and a payload, taken from the front; in no case does
  the record layer panic.
\<close>

lemma raw_start:
  "raw st = bdata (case nextBlock st of None \<Rightarrow> newBlock | Some b \<Rightarrow> b) @ content (rd st)"
  by (simp add: raw_def newBlock_def split: option.split)

end

lemma record_length_no_panic: "5 \<le> length data \<Longrightarrow> record_length data \<noteq> Panic"
  by (auto simp: record_length_def get_at_def Let_def)

lemma record_length_header:
  "ty = 22 \<Longrightarrow> word16 v1 v2 < 0x1000 \<Longrightarrow> int16 l1 l2 < 0x3000 \<Longrightarrow>
     record_length (ty # v1 # v2 # l1 # l2 # rest) = Ok (int16 l1 l2)"
  by (simp add: record_length_def get_at_def Let_def not_le)

lemma record_length_Ok: "record_length data = Ok n \<Longrightarrow> n < 0x3000"
  by (auto simp: record_length_def Let_def split: option.splits if_splits)

text \<open>A record that is complete in the block: its payload goes to the handshake data.\<close>

lemma take_record_eq:
  assumes "5 + n \<le> length (bdata b)" "n < 0x3000"
  shows "\<exists>nb. take_record st b n =
      (Ok (), st\<lparr>nextBlock := nb, hand := hand st @ take n (drop 5 (bdata b))\<rparr>)
    \<and> (case nb of None \<Rightarrow> [] | Some x \<Rightarrow> bdata x) = drop (5 + n) (bdata b)"
proof -
  obtain b' nb where sp: "splitBlock b (5 + n) = (b', nb)" "bdata b' = take (5 + n) (bdata b)"
    "(case nb of None \<Rightarrow> [] | Some x \<Rightarrow> bdata x) = drop (5 + n) (bdata b)"
  proof (cases "5 + n < length (bdata b)")
    case True
    from splitBlock_long [OF this] that show ?thesis by auto
  next
    case False
    with splitBlock_short [of b "5 + n"] that show ?thesis by simp
  qed
  have "drop 5 (take (5 + n) (bdata b)) = take n (drop 5 (bdata b))" by (simp add: drop_take)
  then show ?thesis
    using sp assms by (intro exI [of _ nb]) (simp add: take_record_def Let_def)
qed

context finite_reader
begin

lemma readRecord_ends:
  "\<exists>res st'. readRecord read st = Some (res, st') \<and> res \<noteq> Panic \<and> reads_to read (rd st) (rd st')
     \<and> (\<forall>u. res = Ok u \<longrightarrow> (\<exists>hdr d. length hdr = 5 \<and> raw st = hdr @ d @ raw st' \<and> hand st' = hand st @ d))"
proof -
  define b0 where "b0 = (case nextBlock st of None \<Rightarrow> newBlock | Some b \<Rightarrow> b)"
  have raw0: "raw st = bdata b0 @ content (rd st)" unfolding b0_def by (rule raw_start)
  obtain e1 b1 r1 where r1: "readFromUntil read b0 (rd st) 5 = Some (e1, b1, r1)"
    "bdata b1 @ content r1 = bdata b0 @ content (rd st)" "reads_to read (rd st) r1"
    "e1 = None \<longrightarrow> 5 \<le> length (bdata b1)" using readFromUntil_ends [of b0 "rd st" 5] by blast
  consider (err1) e where "e1 = Some e" | (err2) e where "e1 = None" "record_length (bdata b1) = Err e"
    | (ok) n where "e1 = None" "record_length (bdata b1) = Ok n"
    using r1(4) record_length_no_panic by (cases e1; cases "record_length (bdata b1)") auto
  then show ?thesis
  proof cases
    case err1
    with r1 show ?thesis by (simp add: readRecord_def b0_def [symmetric])
  next
    case err2
    with r1 show ?thesis by (simp add: readRecord_def b0_def [symmetric])
  next
    case (ok n)
    obtain e2 b2 r2 where r2: "readFromUntil read b1 r1 (5 + n) = Some (e2, b2, r2)"
      "bdata b2 @ content r2 = bdata b1 @ content r1" "reads_to read r1 r2"
      "e2 = None \<longrightarrow> 5 + n \<le> length (bdata b2)" using readFromUntil_ends [of b1 r1 "5 + n"] by blast
    have reads: "reads_to read (rd st) r2" by (rule reads_to_trans [OF r1(3) r2(3)])
    show ?thesis
    proof (cases e2)
      case (Some e)
      with ok r1(1) r2(1) reads show ?thesis by (simp add: readRecord_def b0_def [symmetric])
    next
      case None
      let ?st = "st\<lparr>nextBlock := Some b2, rd := r2\<rparr>" and ?d = "take n (drop 5 (bdata b2))"
      have l2: "5 + n \<le> length (bdata b2)" using r2(4) None by simp
      obtain nb where tr: "take_record ?st b2 n = (Ok (), ?st\<lparr>nextBlock := nb, hand := hand ?st @ ?d\<rparr>)"
        "(case nb of None \<Rightarrow> [] | Some x \<Rightarrow> bdata x) = drop (5 + n) (bdata b2)"
        using take_record_eq [OF l2 record_length_Ok [OF ok(2)], of ?st] by blast
      have "bdata b2 = take 5 (bdata b2) @ ?d @ drop (5 + n) (bdata b2)"
        by (metis append_take_drop_id append_assoc take_add)
      then have "raw st = take 5 (bdata b2) @ ?d @ drop (5 + n) (bdata b2) @ content r2"
        using raw0 r1(2) r2(2) by (metis append_assoc)
      moreover have "length (take 5 (bdata b2)) = 5" using l2 by simp
      moreover have "readRecord read st = Some (Ok (), ?st\<lparr>nextBlock := nb, hand := hand ?st @ ?d\<rparr>)"
        using ok r1(1) r2(1) None tr(1) by (simp add: readRecord_def b0_def [symmetric])
      ultimately show ?thesis using tr(2) reads by (auto simp: raw_def)
    qed
  qed
qed

end

section \<open>The parser never panics\<close>

definition safe :: "'a option \<Rightarrow> bool" where
  "safe x \<longleftrightarrow> x \<noteq> None"

lemma bind_safe: "safe x \<Longrightarrow> (\<And>y. x = Some y \<Longrightarrow> safe (f y)) \<Longrightarrow> safe (Option.bind x f)"
  by (cases x) (auto simp: safe_def)

lemma get_at_safe: "i < length p \<Longrightarrow> safe (get_at p i)"
  by (simp add: get_at_def safe_def)

lemma slice_from_safe: "lo \<le> length p \<Longrightarrow> safe (slice_from p lo)"
  by (simp add: safe_def)

lemma slice_of_safe: "lo \<le> hi \<Longrightarrow> hi \<le> length p \<Longrightarrow> safe (slice_of p lo hi)"
  by (simp add: safe_def)

lemma slice_fromD: "slice_from p lo = Some q \<Longrightarrow> q = drop lo p \<and> lo \<le> length p"
  by (auto simp: slice_from_def slice_of_def split: if_splits)

lemma Some_safe [simp]: "safe (Some x)"
  by (simp add: safe_def)

lemmas safe_rules = bind_safe get_at_safe slice_from_safe slice_of_safe

lemma name_loop_safe: "safe (name_loop i d nm)"
proof (induction i arbitrary: d)
  case (Suc i)
  show ?case
    by (auto simp: Let_def intro!: safe_rules Suc.IH)
qed (simp add: safe_def)

lemma curves_loop_safe: "2 * k \<le> length d \<Longrightarrow> safe (curves_loop k d)"
proof (induction k arbitrary: d)
  case (Suc k)
  then show ?case
    by (auto intro!: safe_rules Suc.IH dest!: slice_fromD)
qed (simp add: safe_def)

lemma cipher_loop_safe: "2 + 2 * (i + k) \<le> length d \<Longrightarrow> safe (cipher_loop k i d)"
proof (induction k arbitrary: i)
  case (Suc k)
  then show ?case
    by (auto intro!: safe_rules Suc.IH)
qed (simp add: safe_def)

lemma ext_case_safe: "len \<le> length d \<Longrightarrow> safe (ext_case m e len d)"
  unfolding ext_case_def ext_server_name_def ext_status_request_def ext_curves_def ext_points_def
    ext_session_ticket_def Let_def
  by (auto intro!: safe_rules name_loop_safe curves_loop_safe
      dest!: slice_fromD)

lemma ext_loop_safe: "safe (ext_loop m data)"
proof (induction m data rule: ext_loop.induct)
  case (1 m data)
  show ?case
  proof (cases "data = [] \<or> length data < 4")
    case True
    then show ?thesis by (subst ext_loop.simps) auto
  next
    case False
    then obtain e len d1 where h: "ext_header data = Some (e, len, d1)"
      by (simp add: ext_header_def get_at_def)
    show ?thesis
    proof (cases "len \<le> length d1")
      case True
      obtain r where r: "ext_case m e len d1 = Some r" using ext_case_safe [OF True] unfolding safe_def by blast
      show ?thesis
        using "1.IH" [OF _ _ h refl refl _ r] False True h r
        by (subst ext_loop.simps) (auto split: option.splits)
    next
      case short: False
      with False h show ?thesis by (subst ext_loop.simps) simp
    qed
  qed
qed

lemma um_extensions_safe: "safe (um_extensions m data)"
  unfolding um_extensions_def Let_def
  by (auto intro!: safe_rules ext_loop_safe)

lemma um_compression_safe: "safe (um_compression m data)"
  unfolding um_compression_def Let_def
  by (auto intro!: safe_rules um_extensions_safe)

lemma um_ciphers_safe: "safe (um_ciphers m data)"
  unfolding um_ciphers_def Let_def
  by (auto intro!: safe_rules cipher_loop_safe um_compression_safe)

lemma unmarshal_safe: "safe (unmarshal m data)"
  unfolding unmarshal_def Let_def
  by (auto intro!: safe_rules um_ciphers_safe)

section \<open>Reading a ClientHello ends\<close>

lemma hello_message_safe: "4 \<le> length h \<Longrightarrow> hello_message n h \<noteq> Panic"
  using unmarshal_safe [of new_hello "take (4 + n) h"]
  by (auto simp: hello_message_def safe_def get_at_def Let_def split: option.splits)

context finite_reader
begin

lemma hello_loop_ends:
  "\<exists>res st'. hello_loop read n st = Some (res, st') \<and> res \<noteq> Panic \<and> reads_to read (rd st) (rd st')
     \<and> (\<forall>u. res = Ok u \<longrightarrow> 4 + n \<le> length (hand st'))"
proof (induction "length (raw st)" arbitrary: st rule: less_induct)
  case less
  show ?case
  proof (cases "length (hand st) < 4 + n")
    case False
    then show ?thesis by (subst hello_loop.simps) (simp add: reads_to.stop)
  next
    case True
    obtain res st1 where r: "readRecord read st = Some (res, st1)" "res \<noteq> Panic"
      "reads_to read (rd st) (rd st1)"
      "\<forall>u. res = Ok u \<longrightarrow> (\<exists>hdr d. length hdr = 5 \<and> raw st = hdr @ d @ raw st1 \<and> hand st1 = hand st @ d)"
      using readRecord_ends [of st] by blast
    show ?thesis
    proof (cases res)
      case (Ok u)
      with r(4) have "length (raw st1) < length (raw st)" by force
      from less.hyps [OF this] obtain res' st' where ih: "hello_loop read n st1 = Some (res', st')"
        "res' \<noteq> Panic" "reads_to read (rd st1) (rd st')" "\<forall>u. res' = Ok u \<longrightarrow> 4 + n \<le> length (hand st')"
        by blast
      have "hello_loop read n st = hello_loop read n st1"
        using True r(1) Ok by (subst hello_loop.simps) simp
      with ih reads_to_trans [of read, OF r(3) ih(3)] show ?thesis by simp
    next
      case (Err e)
      with True r(1,3) show ?thesis by (subst hello_loop.simps) simp
    next
      case Panic
      with r(2) show ?thesis by simp
    qed
  qed
qed

lemma readClientHello_ends:
  "\<exists>res r'. readClientHello read r = Some (res, r') \<and> res \<noteq> Panic \<and> reads_to read r r'"
proof -
  let ?st = "\<lparr>nextBlock = None, hand = [], rd = r\<rparr>"
  obtain res st1 where r1: "readRecord read ?st = Some (res, st1)" "res \<noteq> Panic"
    "reads_to read r (rd st1)" using readRecord_ends [of ?st] by auto
  show ?thesis
  proof (cases "res = Ok () \<and> 4 \<le> length (hand st1)")
    case False
    with r1 show ?thesis
      by (cases res) (auto simp: readClientHello_def Let_def)
  next
    case True
    then obtain t a b c tl where h: "hand st1 = t # a # b # c # tl"
      by (auto simp: numeral_eq_Suc Suc_le_length_iff)
    let ?n = "(push_bit 16 (unat a) OR push_bit 8 (unat b)) OR unat c"
    obtain res2 st2 where r2: "hello_loop read ?n st1 = Some (res2, st2)" "res2 \<noteq> Panic"
      "reads_to read (rd st1) (rd st2)" "\<forall>u. res2 = Ok u \<longrightarrow> 4 + ?n \<le> length (hand st2)"
      using hello_loop_ends [of ?n st1] by blast
    have reads: "reads_to read r (rd st2)" by (rule reads_to_trans [OF r1(3) r2(3)])
    show ?thesis
    proof (cases "?n > maxHandshake")
      case big: True
      with True r1 h show ?thesis by (simp add: readClientHello_def get_at_def Let_def)
    next
      case small: False
      with True r1 h r2 reads hello_message_safe [of "hand st2" ?n] show ?thesis
        by (cases res2) (auto simp: readClientHello_def get_at_def Let_def)
    qed
  qed
qed

end

text \<open>The readers the muxer uses: a connection, and the tee over it.\<close>

interpretation fin_stream: finite_reader stream_read stream_content stream_size
  by unfold_locales (rule stream_read_progress)

interpretation fin_tee: finite_reader "tee_read stream_read" "\<lambda>(s, w). stream_content s"
    "\<lambda>(s, w). stream_size s"
  by unfold_locales (auto simp: tee_read_def dest: stream_read_progress split: prod.splits)

interpretation fin_buf: finite_reader bytesbuf_read "\<lambda>b. b" length
  by unfold_locales (auto simp: bytesbuf_read_def split: if_splits)

lemma TLS_ends:
  "\<exists>res c. TLS stream_read conn = Some (res, c) \<and> res \<noteq> Panic
     \<and> shared_content stream_content (tshared c) = stream_content conn"
proof -
  obtain res r where r: "readClientHello (tee_read stream_read) (newShared conn) = Some (res, r)"
    "res \<noteq> Panic" "reads_to (tee_read stream_read) (newShared conn) r"
    using fin_tee.readClientHello_ends [of "newShared conn"] by blast
  have "shared_content stream_content (shared_after r) = stream_content conn"
    using stream.tee_reads_shared [OF r(3)]
    by (simp add: newShared_def shared_after_def shared_content_def)
  with r show ?thesis by (cases res) (auto simp: TLS_def)
qed

section \<open>Hellos that are found\<close>

text \<open>
  A reader that reports an error only when nothing is left: then a record that has been sent is
  read, in however many pieces it arrives.
\<close>

locale lossless_reader = finite_reader read content size
  for read :: "'r reader" and content :: "'r \<Rightarrow> bytes" and size :: "'r \<Rightarrow> nat" +
  assumes read_error: "read r n = (bs, Some e, r') \<Longrightarrow> 0 < n \<Longrightarrow> content r' = []"
begin

lemma readFromUntil_full:
  assumes "n \<le> length (bdata b @ content r)"
  shows "\<exists>b' r'. readFromUntil read b r n = Some (None, b', r')
     \<and> bdata b' @ content r' = bdata b @ content r \<and> n \<le> length (bdata b')"
proof -
  obtain e b' r' where r: "readFromUntil read b r n = Some (e, b', r')"
    "bdata b' @ content r' = bdata b @ content r"
    "case e of None \<Rightarrow> n \<le> length (bdata b') | Some e' \<Rightarrow> length (bdata b') < n \<and> read_failed e' r'"
    using readFromUntil_result [of b r n] by blast
  have "e = None"
  proof (cases e)
    case (Some e')
    then have "content r' = []" "length (bdata b') < n"
      using r(3) read_error by (auto simp: read_failed_def)
    moreover have "length (bdata b' @ content r') \<ge> n" using assms r(2) by simp
    ultimately show ?thesis by simp
  qed
  with r show ?thesis by simp
qed

lemma readRecord_full:
  assumes raw: "raw st = ty # v1 # v2 # l1 # l2 # d @ rest"
    and hdr: "ty = 22" "word16 v1 v2 < 0x1000" "int16 l1 l2 < 0x3000" "length d = int16 l1 l2"
  shows "\<exists>st'. readRecord read st = Some (Ok (), st') \<and> hand st' = hand st @ d \<and> raw st' = rest"
proof -
  define b0 where "b0 = (case nextBlock st of None \<Rightarrow> newBlock | Some b \<Rightarrow> b)"
  have raw0: "bdata b0 @ content (rd st) = ty # v1 # v2 # l1 # l2 # d @ rest"
    using raw raw_start [of st] unfolding b0_def by simp
  then have "5 \<le> length (bdata b0 @ content (rd st))" by simp
  from readFromUntil_full [OF this] obtain b1 r1 where
    r1: "readFromUntil read b0 (rd st) 5 = Some (None, b1, r1)"
      "bdata b1 @ content r1 = ty # v1 # v2 # l1 # l2 # d @ rest" "5 \<le> length (bdata b1)"
    unfolding raw0 by blast
  obtain t where b1: "bdata b1 = ty # v1 # v2 # l1 # l2 # t"
    using r1(2,3) by (auto simp: numeral_eq_Suc Suc_le_length_iff)
  have "5 + length d \<le> length (bdata b1 @ content r1)" using r1(2) by simp
  from readFromUntil_full [OF this] obtain b2 r2 where
    r2: "readFromUntil read b1 r1 (5 + length d) = Some (None, b2, r2)"
      "bdata b2 @ content r2 = ty # v1 # v2 # l1 # l2 # d @ rest" "5 + length d \<le> length (bdata b2)"
    unfolding r1(2) by blast
  let ?st = "st\<lparr>nextBlock := Some b2, rd := r2\<rparr>"
  obtain nb where tr: "take_record ?st b2 (length d) =
        (Ok (), ?st\<lparr>nextBlock := nb, hand := hand ?st @ take (length d) (drop 5 (bdata b2))\<rparr>)"
      "(case nb of None \<Rightarrow> [] | Some x \<Rightarrow> bdata x) = drop (5 + length d) (bdata b2)"
    using take_record_eq [OF r2(3), of ?st] hdr(3,4) by auto
  have "take (length d) (drop 5 (bdata b2)) = take (length d) (drop 5 (bdata b2 @ content r2))"
    using r2(3) by simp
  then have d: "take (length d) (drop 5 (bdata b2)) = d" unfolding r2(2) by simp
  have "drop (5 + length d) (bdata b2) @ content r2 = drop (5 + length d) (bdata b2 @ content r2)"
    using r2(3) by simp
  then have rest: "drop (5 + length d) (bdata b2) @ content r2 = rest"
    unfolding r2(2) by (simp add: numeral_eq_Suc)
  have "readRecord read st = Some (take_record ?st b2 (length d))"
    using r1(1) r2(1) b1 record_length_header [OF hdr(1-3), of t] hdr(4)
    by (simp add: readRecord_def b0_def [symmetric])
  then show ?thesis using tr d rest by (simp add: raw_def)
qed

end

interpretation loss_tee: lossless_reader "tee_read stream_read" "\<lambda>(s, w). stream_content s"
    "\<lambda>(s, w). stream_size s"
  by unfold_locales
    (auto simp: tee_read_def stream_read_def stream_content_def split: prod.splits list.splits if_splits)

text \<open>
  The hellos whose host is found, as a specification of the wire format: any version, random,
  session id, cipher suites and compression methods, and a server_name extension with one host name
  among any extensions the parser does not look into.
\<close>

definition be16 :: "nat \<Rightarrow> bytes" where
  "be16 n = [of_nat (n div 256), of_nat n]"

definition be24 :: "nat \<Rightarrow> bytes" where
  "be24 n = [of_nat (n div 65536), of_nat (n div 256), of_nat n]"

definition tls_record :: "byte \<Rightarrow> byte \<Rightarrow> bytes \<Rightarrow> bytes" where
  "tls_record v1 v2 d = [22, v1, v2] @ be16 (length d) @ d"

definition ext_bytes :: "byte \<times> byte \<times> bytes \<Rightarrow> bytes" where
  "ext_bytes x = (case x of (e1, e2, d) \<Rightarrow> [e1, e2] @ be16 (length d) @ d)"

definition sni_data :: "bytes \<Rightarrow> bytes" where
  "sni_data name = be16 (length name + 3) @ [0] @ be16 (length name) @ name"

definition other_ext :: "byte \<times> byte \<times> bytes \<Rightarrow> bool" where
  "other_ext x \<longleftrightarrow> (case x of (e1, e2, d) \<Rightarrow> word16 e1 e2 \<notin> {0, 5, 10, 11, 13172, 35})"

record hello_parts =
  hp_vers :: "byte \<times> byte"
  hp_random :: bytes
  hp_session :: bytes
  hp_suites :: "(byte \<times> byte) list"
  hp_methods :: bytes
  hp_before :: "(byte \<times> byte \<times> bytes) list"
  hp_name :: bytes
  hp_after :: "(byte \<times> byte \<times> bytes) list"

definition hello_exts :: "hello_parts \<Rightarrow> bytes" where
  "hello_exts h = concat (map ext_bytes (hp_before h)) @ ext_bytes (0, 0, sni_data (hp_name h))
     @ concat (map ext_bytes (hp_after h))"

definition hello_body :: "hello_parts \<Rightarrow> bytes" where
  "hello_body h =
     [fst (hp_vers h), snd (hp_vers h)] @ hp_random h
       @ [of_nat (length (hp_session h))] @ hp_session h
       @ be16 (2 * length (hp_suites h)) @ concat (map (\<lambda>(a, b). [a, b]) (hp_suites h))
       @ [of_nat (length (hp_methods h))] @ hp_methods h
       @ be16 (length (hello_exts h)) @ hello_exts h"

definition hello_bytes :: "hello_parts \<Rightarrow> bytes" where
  "hello_bytes h = 1 # be24 (length (hello_body h)) @ hello_body h"

definition hello_ok :: "hello_parts \<Rightarrow> bool" where
  "hello_ok h \<longleftrightarrow> length (hp_random h) = 32 \<and> length (hp_session h) \<le> 32
     \<and> length (hp_methods h) < 256 \<and> list_all other_ext (hp_before h) \<and> list_all other_ext (hp_after h)
     \<and> length (hello_body h) \<le> maxHandshake"

lemma length_be16 [simp]: "length (be16 n) = 2"
  by (simp add: be16_def)

lemma length_be24 [simp]: "length (be24 n) = 3"
  by (simp add: be24_def)

lemma unat_byte: "unat (of_nat n :: byte) = n mod 256"
  by (simp add: unat_of_nat)

lemma int16_be16: "n < 65536 \<Longrightarrow> int16 (of_nat (n div 256)) (of_nat n) = n"
proof -
  assume n: "n < 65536"
  then have "n div 256 < 256" by (simp add: less_mult_imp_div_less)
  then show ?thesis by (simp add: int16_eq unat_byte)
qed

lemma int24_be24:
  "n < 2 ^ 24 \<Longrightarrow> (push_bit 16 (unat (of_nat (n div 65536) :: byte)) OR
     push_bit 8 (unat (of_nat (n div 256) :: byte))) OR unat (of_nat n :: byte) = n"
proof -
  assume n: "n < 2 ^ 24"
  let ?a = "unat (of_nat (n div 65536) :: byte)" and ?b = "unat (of_nat (n div 256) :: byte)"
    and ?c = "unat (of_nat n :: byte)"
  have "?b * 2 ^ 8 < 2 ^ 16" by (simp add: unat_byte)
  then have "push_bit 16 ?a OR push_bit 8 ?b = push_bit 8 (256 * ?a + ?b)"
    using shift_or [of "?b * 2 ^ 8" 16 ?a] by (simp add: push_bit_eq_mult)
  moreover have "push_bit 8 (256 * ?a + ?b) OR ?c = (256 * ?a + ?b) * 256 + ?c"
    using shift_or [of ?c 8 "256 * ?a + ?b"] byte_lt by simp
  moreover have "(256 * ?a + ?b) * 256 + ?c = n"
  proof -
    have "n div 65536 < 256" using n by (simp add: less_mult_imp_div_less)
    then have "?a = n div 256 div 256" by (simp add: unat_byte div_mult2_eq [symmetric])
    then show ?thesis by (simp add: unat_byte)
  qed
  ultimately show ?thesis by simp
qed

section \<open>Parsing them\<close>

lemma get_at_append [simp]: "length p = i \<Longrightarrow> get_at (p @ x # q) i = Some x"
  by (auto simp: get_at_def)

lemma ext_header_bytes:
  "length d < 65536 \<Longrightarrow>
     ext_header (ext_bytes (e1, e2, d) @ rest) = Some (word16 e1 e2, length d, d @ rest)"
  by (simp add: ext_header_def ext_bytes_def be16_def get_at_def int16_be16)

lemma ext_loop_other:
  "other_ext x \<Longrightarrow> length (ext_bytes x) < 65536 \<Longrightarrow> ext_loop m (ext_bytes x @ rest) = ext_loop m rest"
proof -
  assume o: "other_ext x" and l: "length (ext_bytes x) < 65536"
  obtain e1 e2 d where x: "x = (e1, e2, d)" by (cases x)
  have "length d < 65536" using l by (simp add: x ext_bytes_def)
  from ext_header_bytes [OF this, of e1 e2 rest] o show ?thesis
    by (subst ext_loop.simps) (simp add: x other_ext_def ext_case_def, simp add: ext_bytes_def)
qed

lemma ext_loop_others:
  "list_all other_ext xs \<Longrightarrow> length (concat (map ext_bytes xs)) < 65536 \<Longrightarrow>
     ext_loop m (concat (map ext_bytes xs) @ rest) = ext_loop m rest"
proof (induction xs)
  case (Cons x xs)
  then show ?case using ext_loop_other [of x m "concat (map ext_bytes xs) @ rest"] by simp
qed simp

lemma name_loop_host:
  "length name < 65536 \<Longrightarrow>
     name_loop (Suc i) (0 # be16 (length name) @ name @ rest) nm = Some (Some (go_string name))"
  by (simp add: be16_def get_at_def int16_be16 Let_def)

lemma get_at_be16:
  "get_at (be16 n @ r) 0 = Some (of_nat (n div 256))" "get_at (be16 n @ r) 1 = Some (of_nat n)"
  "slice_from (be16 n @ r) 2 = Some r"
  by (simp_all add: be16_def get_at_def)

lemma ext_loop_sni:
  assumes "length name + 5 < 65536"
  shows "ext_loop m (ext_bytes (0, 0, sni_data name) @ rest)
    = ext_loop (m\<lparr>ServerName := go_string name\<rparr>) rest"
proof -
  have l: "length (sni_data name) < 65536" using assms by (simp add: sni_data_def)
  have e: "length name + 3 = Suc (length name + 2)" by simp
  have "name_loop (length name + 3) ([0] @ be16 (length name) @ name @ rest) (ServerName m)
      = Some (Some (go_string name))"
    unfolding e using assms name_loop_host [of name "length name + 2" rest "ServerName m"]
    by (simp del: name_loop.simps)
  then have "ext_server_name m (length (sni_data name)) (sni_data name @ rest)
      = Some (Some (m\<lparr>ServerName := go_string name\<rparr>))"
    using assms by (simp add: ext_server_name_def sni_data_def get_at_be16 int16_be16
        del: name_loop.simps One_nat_def of_nat_add)
  then show ?thesis
    using ext_header_bytes [OF l, of 0 0 rest]
    by (subst ext_loop.simps) (simp add: ext_case_def word16_def, simp add: ext_bytes_def)
qed

lemma um_extensions_hello:
  assumes "list_all other_ext (hp_before h)" "list_all other_ext (hp_after h)"
    "length (hello_exts h) < 65536"
  shows "\<exists>m'. um_extensions m (be16 (length (hello_exts h)) @ hello_exts h) = Some (Some m')
    \<and> ServerName m' = go_string (hp_name h) \<and> Random m' = Random m \<and> SessionId m' = SessionId m
    \<and> CipherSuites m' = CipherSuites m \<and> CompressionMethods m' = CompressionMethods m \<and> Vers m' = Vers m"
proof -
  let ?m = "m\<lparr>NextProtoNeg := False, ServerName := '''', OcspStapling := False,
      TicketSupported := False, SessionTicket := []\<rparr>"
  have l: "length (concat (map ext_bytes (hp_before h))) < 65536" "length (hp_name h) + 5 < 65536"
    "length (concat (map ext_bytes (hp_after h))) < 65536"
    using assms(3) by (simp_all add: hello_exts_def ext_bytes_def sni_data_def)
  have "ext_loop ?m (hello_exts h) = ext_loop (?m\<lparr>ServerName := go_string (hp_name h)\<rparr>) []"
    using ext_loop_others [OF assms(1) l(1)] ext_loop_sni [OF l(2)]
      ext_loop_others [OF assms(2) l(3), of _ "[]"]
    by (simp add: hello_exts_def)
  also have "\<dots> = Some (Some (?m\<lparr>ServerName := go_string (hp_name h)\<rparr>))"
    by (subst ext_loop.simps) simp
  finally show ?thesis
    using assms(3)
    by (simp add: um_extensions_def Let_def get_at_be16 int16_be16 del: One_nat_def)
qed

lemma um_compression_hello:
  "length c < 256 \<Longrightarrow>
     um_compression m (of_nat (length c) # c @ rest) = um_extensions (m\<lparr>CompressionMethods := c\<rparr>) rest"
  by (simp add: um_compression_def get_at_def unat_byte Let_def)

lemma cipher_loop_suites:
  "length p = 2 + 2 * i \<Longrightarrow>
     cipher_loop (length ss) i (p @ concat (map (\<lambda>(a, b). [a, b]) ss) @ rest)
       = Some (map (\<lambda>(a, b). word16 a b) ss)"
proof (induction ss arbitrary: i p)
  case (Cons s ss)
  obtain a b where s: "s = (a, b)" by (cases s)
  have "cipher_loop (length ss) (Suc i) ((p @ [a, b]) @ concat (map (\<lambda>(a, b). [a, b]) ss) @ rest)
      = Some (map (\<lambda>(a, b). word16 a b) ss)"
    by (rule Cons.IH) (use Cons.prems in simp)
  then show ?case using Cons.prems s by (simp add: get_at_def nth_append)
qed simp

lemma length_suites [simp]: "length (concat (map (\<lambda>(a, b). [a, b]) ss)) = 2 * length ss"
  by (induction ss) auto

lemma um_ciphers_hello:
  assumes "2 * length ss < 65536"
  shows "um_ciphers m (be16 (2 * length ss) @ concat (map (\<lambda>(a, b). [a, b]) ss) @ rest)
    = um_compression (m\<lparr>CipherSuites := map (\<lambda>(a, b). word16 a b) ss\<rparr>) rest"
proof -
  define k where "k = 2 * length ss"
  define cs where "cs = concat (map (\<lambda>(a, b). [a, b]) ss)"
  have k: "k < 65536" "k mod 2 = 0" "k div 2 = length ss" "length cs = k"
    using assms by (simp_all add: k_def cs_def)
  have "cipher_loop (k div 2) 0 (be16 k @ cs @ rest) = Some (map (\<lambda>(a, b). word16 a b) ss)"
    unfolding k(3) cs_def by (rule cipher_loop_suites) simp
  then show ?thesis
    unfolding k_def [symmetric] cs_def [symmetric] using k(1,2,4)
    by (simp add: um_ciphers_def Let_def get_at_be16 int16_be16 del: One_nat_def)
qed

lemma slice_of_mid: "length p = lo \<Longrightarrow> lo + length q = hi \<Longrightarrow> slice_of ((p @ q) @ r) lo hi = Some q"
  by (auto simp: slice_of_def)

lemma slice_from_mid: "length p = lo \<Longrightarrow> slice_from (p @ q) lo = Some q"
  by (auto simp: slice_from_def slice_of_def)

lemma unmarshal_head:
  assumes "length r = 32" "length sid \<le> 32" "3 \<le> length rest"
  shows "unmarshal m (b0 # b1 # b2 # b3 # v1 # v2 # r @ of_nat (length sid) # sid @ rest)
    = um_ciphers (m\<lparr>Raw := b0 # b1 # b2 # b3 # v1 # v2 # r @ of_nat (length sid) # sid @ rest,
        Vers := word16 v1 v2, Random := r, SessionId := sid\<rparr>) rest"
proof -
  let ?d = "b0 # b1 # b2 # b3 # v1 # v2 # r @ of_nat (length sid) # sid @ rest"
  have d: "?d = ([b0, b1, b2, b3, v1, v2] @ r) @ of_nat (length sid) # sid @ rest" by simp
  have 1: "get_at ?d 38 = Some (of_nat (length sid))"
    unfolding d by (rule get_at_append) (use assms(1) in simp)
  have 2: "slice_of ?d 6 38 = Some r" using assms(1) by simp
  have d2: "?d = (([b0, b1, b2, b3, v1, v2] @ r @ [of_nat (length sid)]) @ sid) @ rest" by simp
  have 3: "slice_of ?d 39 (39 + length sid) = Some sid"
    unfolding d2 by (rule slice_of_mid) (use assms(1) in simp_all)
  have 4: "slice_from ?d (39 + length sid) = Some rest"
    unfolding d2 by (rule slice_from_mid) (use assms(1) in simp)
  have 5: "unat (of_nat (length sid) :: byte) = length sid" using assms(2) by (simp add: unat_byte)
  have 6: "get_at ?d 4 = Some v1" "get_at ?d 5 = Some v2" by (simp_all add: get_at_def)
  show ?thesis
    unfolding unmarshal_def 1 2 6 using assms by (simp add: Let_def 5 3 4 del: slice_of_Some slice_from_Some)
qed

text \<open>What the parser makes of a hello.\<close>

definition parsed_as :: "hello_parts \<Rightarrow> ClientHelloMsg \<Rightarrow> bool" where
  "parsed_as h m \<longleftrightarrow> ServerName m = go_string (hp_name h) \<and> Random m = hp_random h
     \<and> SessionId m = hp_session h \<and> Vers m = word16 (fst (hp_vers h)) (snd (hp_vers h))
     \<and> CipherSuites m = map (\<lambda>(a, b). word16 a b) (hp_suites h)
     \<and> CompressionMethods m = hp_methods h"

lemma unmarshal_hello:
  assumes "hello_ok h"
  shows "\<exists>m. unmarshal new_hello (hello_bytes h) = Some (Some m) \<and> parsed_as h m"
proof -
  define v1 v2 where "v1 = fst (hp_vers h)" and "v2 = snd (hp_vers h)"
  have ok: "length (hp_random h) = 32" "length (hp_session h) \<le> 32" "length (hp_methods h) < 256"
    "list_all other_ext (hp_before h)" "list_all other_ext (hp_after h)"
    using assms by (simp_all add: hello_ok_def)
  have sz: "2 * length (hp_suites h) < 65536" "length (hello_exts h) < 65536"
    using assms by (simp_all add: hello_ok_def hello_body_def)
  let ?x = "be16 (length (hello_exts h)) @ hello_exts h"
  let ?c = "of_nat (length (hp_methods h)) # hp_methods h @ ?x"
  let ?s = "be16 (2 * length (hp_suites h)) @ concat (map (\<lambda>(a, b). [a, b]) (hp_suites h)) @ ?c"
  obtain b1 b2 b3 where be: "be24 (length (hello_body h)) = [b1, b2, b3]" by (simp add: be24_def)
  have d: "hello_bytes h =
      1 # b1 # b2 # b3 # v1 # v2 # hp_random h @ of_nat (length (hp_session h)) # hp_session h @ ?s"
    by (simp add: hello_bytes_def be) (simp add: hello_body_def v1_def v2_def)
  have l: "3 \<le> length ?s" by simp
  have "\<exists>m. um_extensions m0 ?x = Some (Some m) \<and> ServerName m = go_string (hp_name h)
      \<and> Random m = Random m0 \<and> SessionId m = SessionId m0 \<and> CipherSuites m = CipherSuites m0
      \<and> CompressionMethods m = CompressionMethods m0 \<and> Vers m = Vers m0" for m0
    by (rule um_extensions_hello [OF ok(4,5) sz(2)])
  then show ?thesis
    unfolding d unmarshal_head [OF ok(1,2) l] um_ciphers_hello [OF sz(1)] um_compression_hello [OF ok(3)]
    by (fastforce simp: parsed_as_def v1_def v2_def)
qed

lemma length_hello: "length (hello_bytes h) = 4 + length (hello_body h)"
  by (simp add: hello_bytes_def)

lemma hello_message_hello:
  assumes "hello_ok h"
  shows "\<exists>m. hello_message (length (hello_body h)) (hello_bytes h) = Ok m \<and> parsed_as h m"
proof -
  have t: "take (4 + length (hello_body h)) (hello_bytes h) = hello_bytes h"
    by (simp add: length_hello)
  have "get_at (hello_bytes h) 0 = Some 1" by (simp add: hello_bytes_def get_at_def)
  then show ?thesis
    using unmarshal_hello [OF assms] by (auto simp: hello_message_def Let_def t)
qed

section \<open>Reading them from records\<close>

context lossless_reader
begin

lemma readRecord_record:
  assumes "raw st = tls_record v1 v2 d @ rest" "word16 v1 v2 < 0x1000" "length d < 0x3000"
  shows "\<exists>st'. readRecord read st = Some (Ok (), st') \<and> hand st' = hand st @ d \<and> raw st' = rest"
proof (rule readRecord_full)
  show "raw st = 22 # v1 # v2 # of_nat (length d div 256) # of_nat (length d) # d @ rest"
    using assms(1) by (simp add: tls_record_def be16_def)
  show "length d = int16 (of_nat (length d div 256)) (of_nat (length d))"
    using assms(3) by (simp add: int16_be16)
  then show "int16 (of_nat (length d div 256)) (of_nat (length d)) < 0x3000"
    using assms(3) by simp
qed (use assms(2) in simp_all)

lemma hello_loop_records:
  assumes "raw st = concat (map (tls_record v1 v2) ds) @ rest" "word16 v1 v2 < 0x1000"
    "\<forall>d \<in> set ds. length d < 0x3000" "length (hand st @ concat ds) = 4 + n"
  shows "\<exists>st'. hello_loop read n st = Some (Ok (), st') \<and> hand st' = hand st @ concat ds"
  using assms
proof (induction ds arbitrary: st)
  case Nil
  then show ?case by (subst hello_loop.simps) simp
next
  case (Cons d ds)
  show ?case
  proof (cases "length (hand st) < 4 + n")
    case False
    then have "length (concat (d # ds)) = 0" using Cons.prems(4) unfolding length_append by linarith
    then have "concat (d # ds) = []" by (simp only: length_0_conv)
    with False show ?thesis by (subst hello_loop.simps) simp
  next
    case True
    have "raw st = tls_record v1 v2 d @ concat (map (tls_record v1 v2) ds) @ rest"
      using Cons.prems(1) by simp
    from readRecord_record [OF this Cons.prems(2)] Cons.prems(3) obtain st1 where
      r: "readRecord read st = Some (Ok (), st1)" "hand st1 = hand st @ d"
        "raw st1 = concat (map (tls_record v1 v2) ds) @ rest" by auto
    from Cons.IH [OF r(3) Cons.prems(2)] Cons.prems(3,4) r(2) obtain st' where
      "hello_loop read n st1 = Some (Ok (), st')" "hand st' = hand st1 @ concat ds" by auto
    then show ?thesis using True r by (subst hello_loop.simps) simp
  qed
qed

lemma readClientHello_hello:
  assumes "content r = concat (map (tls_record v1 v2) (d # ds)) @ rest" "word16 v1 v2 < 0x1000"
    "\<forall>x \<in> set (d # ds). length x < 0x3000" "4 \<le> length d" "concat (d # ds) = hello_bytes h" "hello_ok h"
  shows "\<exists>m r'. readClientHello read r = Some (Ok m, r') \<and> parsed_as h m"
proof -
  let ?st = "\<lparr>nextBlock = None, hand = [], rd = r\<rparr>" and ?n = "length (hello_body h)"
  have "raw ?st = tls_record v1 v2 d @ concat (map (tls_record v1 v2) ds) @ rest"
    using assms(1) by (simp add: raw_def)
  from readRecord_record [OF this assms(2)] assms(3) obtain st1 where
    r: "readRecord read ?st = Some (Ok (), st1)" "hand st1 = d"
      "raw st1 = concat (map (tls_record v1 v2) ds) @ rest" by auto
  have "length (hand st1 @ concat ds) = 4 + ?n"
    using assms(5) r(2) length_hello [of h] by (metis concat.simps(2))
  from hello_loop_records [OF r(3) assms(2) _ this] assms(3,5) r(2) obtain st2 where
    l: "hello_loop read ?n st1 = Some (Ok (), st2)" "hand st2 = hello_bytes h" by auto
  obtain m where m: "hello_message ?n (hello_bytes h) = Ok m" "parsed_as h m"
    using hello_message_hello [OF assms(6)] by blast
  obtain d0 d1 d2 d3 dt where d: "d = d0 # d1 # d2 # d3 # dt"
    using assms(4) by (auto simp: numeral_eq_Suc Suc_le_length_iff)
  have "[d1, d2, d3] = be24 ?n" using assms(5) d by (simp add: hello_bytes_def be24_def)
  moreover have small: "?n \<le> maxHandshake" using assms(6) by (simp add: hello_ok_def)
  ultimately have "(push_bit 16 (unat d1) OR push_bit 8 (unat d2)) OR unat d3 = ?n"
    using int24_be24 [of ?n] by (simp add: be24_def)
  then show ?thesis
    using r(1,2) l m d small by (simp add: readClientHello_def get_at_def Let_def)
qed

end

section \<open>Properties\<close>

text \<open>
  C22: Finding the host of a TLS connection always ends, whatever the client sends and in whatever
  pieces, once its data has arrived or its connection has failed: \<open>TLS\<close> returns the message or an
  error, never panics on a malformed record, handshake or extension, and the connection it returns
  still yields every byte from the first one on.
\<close>

theorem TLS_total_and_unread:
  "\<exists>res c. TLS stream_read conn = Some (res, c) \<and> res \<noteq> Panic
     \<and> shared_content stream_content (tshared c) = stream_content conn
     \<and> (\<forall>ns bs c'. read_all (shared_read stream_read) ns (tshared c) = (bs, c') \<longrightarrow>
          bs = take (length bs) (stream_content conn))"
proof -
  obtain res c where t: "TLS stream_read conn = Some (res, c)" "res \<noteq> Panic"
    "shared_content stream_content (tshared c) = stream_content conn" using TLS_ends by blast
  have "bs = take (length bs) (stream_content conn)"
    if "read_all (shared_read stream_read) ns (tshared c) = (bs, c')" for ns bs c'
  proof -
    have "stream_content conn = bs @ shared_content stream_content c'"
      using shared_stream.read_all_content [OF that] t(3) by simp
    then show ?thesis by simp
  qed
  with t show ?thesis by blast
qed

theorem TLS_total_and_unread_witness:
  "\<exists>res c bs c'. TLS stream_read \<lparr>chunks = [[22, 3], [1]], final = EOF\<rparr> = Some (res, c)
     \<and> read_all (shared_read stream_read) [2, 9, 9] (tshared c) = (bs, c')
     \<and> bs = take (length bs) [22, 3, 1]"
proof -
  let ?s = "\<lparr>chunks = [[22, 3], [1]], final = EOF\<rparr>"
  obtain res c where t: "TLS stream_read ?s = Some (res, c)"
    "\<forall>ns bs c'. read_all (shared_read stream_read) ns (tshared c) = (bs, c') \<longrightarrow>
        bs = take (length bs) (stream_content ?s)"
    using TLS_total_and_unread [of ?s] by blast
  obtain bs c' where "read_all (shared_read stream_read) [2, 9, 9] (tshared c) = (bs, c')"
    by (cases "read_all (shared_read stream_read) [2, 9, 9] (tshared c)")
  moreover from this t(2) have "bs = take (length bs) (stream_content ?s)" by blast
  moreover have "stream_content ?s = [22, 3, 1]" by (simp add: stream_content_def)
  ultimately show ?thesis using t(1) by metis
qed

text \<open>
  A well-formed ClientHello with a host name is found, however it is split over TLS records
  (the first of at least four bytes) and however the network splits the records: \<open>TLS\<close> returns
  without error, \<open>Host\<close> is the name, and random, session id, version, cipher suites and compression
  methods of the message are the ones sent.
\<close>

theorem TLS_finds_host:
  assumes "stream_content conn = concat (map (tls_record v1 v2) (d # ds)) @ rest"
    and "word16 v1 v2 < 0x1000" "\<forall>x \<in> set (d # ds). length x < 0x3000" "4 \<le> length d"
    and "concat (d # ds) = hello_bytes h" "hello_ok h"
  shows "\<exists>c m. TLS stream_read conn = Some (Ok (), c) \<and> tls_Host c = go_string (hp_name h)
    \<and> tls_hello c = Some m \<and> parsed_as h m"
proof -
  have "(case newShared conn of (s, w) \<Rightarrow> stream_content s)
      = concat (map (tls_record v1 v2) (d # ds)) @ rest"
    using assms(1) by (simp add: newShared_def)
  from loss_tee.readClientHello_hello [OF this assms(2-6)] obtain m r' where
    "readClientHello (tee_read stream_read) (newShared conn) = Some (Ok m, r')" "parsed_as h m"
    by blast
  then show ?thesis by (auto simp: TLS_def tls_Host_def parsed_as_def)
qed

definition sample_hello :: hello_parts where
  "sample_hello = \<lparr>hp_vers = (3, 3), hp_random = replicate 32 7, hp_session = [], hp_suites = [(19, 1)],
     hp_methods = [0], hp_before = [(0, 23, [])], hp_name = [97, 46, 98], hp_after = [(0, 16, [1, 2])]\<rparr>"

theorem TLS_finds_host_witness:
  "\<exists>c. TLS stream_read \<lparr>chunks = map (\<lambda>x. [x])
        (concat (map (tls_record 3 1) [take 10 (hello_bytes sample_hello), drop 10 (hello_bytes sample_hello)])),
        final = EOF\<rparr> = Some (Ok (), c) \<and> tls_Host c = go_string [97, 46, 98]"
proof -
  let ?d = "take 10 (hello_bytes sample_hello)" and ?ds = "[drop 10 (hello_bytes sample_hello)]"
  let ?s = "\<lparr>chunks = map (\<lambda>x. [x]) (concat (map (tls_record 3 1) (?d # ?ds))), final = EOF\<rparr>"
  have len: "length (hello_bytes sample_hello) = 69"
    by (simp add: length_hello hello_body_def hello_exts_def ext_bytes_def sni_data_def sample_hello_def)
  have ok: "hello_ok sample_hello"
    using len by (simp add: length_hello hello_ok_def)
      (simp add: sample_hello_def other_ext_def word16_def)
  have 1: "stream_content ?s = concat (map (tls_record 3 1) (?d # ?ds)) @ []"
    by (simp add: stream_content_def)
  have 2: "word16 3 1 < 0x1000" by (simp add: word16_def)
  have 3: "\<forall>x \<in> set (?d # ?ds). length x < 0x3000" "4 \<le> length ?d" using len by simp_all
  have 4: "concat (?d # ?ds) = hello_bytes sample_hello" by simp
  from TLS_finds_host [OF 1 2 3 4 ok] show ?thesis by (simp add: sample_hello_def) blast
qed

text \<open>
  The server_name extension's two-byte list length is taken for the number of names: a valid
  list that holds one name of another type, as the last extension of the message, makes the parser
  run out of data and reject the whole hello.
\<close>

theorem other_name_type_rejects_hello:
  assumes "nt \<noteq> 0" "length name + 5 < 65536"
  shows "ext_loop m (ext_bytes (0, 0, be16 (length name + 3) @ [nt] @ be16 (length name) @ name))
    = Some None"
proof -
  let ?d = "be16 (length name + 3) @ [nt] @ be16 (length name) @ name"
  have e: "length name + 3 = Suc (Suc (length name + 1))" by simp
  have n: "name_loop (length name + 3) ([nt] @ be16 (length name) @ name) (ServerName m) = Some None"
    unfolding e using assms by (simp add: be16_def get_at_def int16_be16 Let_def)
  have l: "length ?d < 65536" using assms by simp
  have "ext_server_name m (length ?d) ?d = Some None"
    using assms n by (simp add: ext_server_name_def get_at_be16 int16_be16
        del: name_loop.simps One_nat_def of_nat_add)
  then show ?thesis
    using ext_header_bytes [OF l, of 0 0 "[]"]
    by (subst ext_loop.simps) (simp add: ext_case_def word16_def, simp add: ext_bytes_def)
qed

theorem other_name_type_rejects_hello_witness:
  "ext_loop new_hello (ext_bytes (0, 0, be16 5 @ [1] @ be16 2 @ [120, 121])) = Some None"
  using other_name_type_rejects_hello [of 1 "[120, 121]" new_hello]
  by (simp add: numeral_2_eq_2)

end
