(* ===== verification/VhostMux.thy ===== *)
theory VhostMux
  imports TLSHello
begin

text \<open>
  The virtual-host multiplexer (go-vhost/mux.go): the registry of names with its wildcard lookup,
  the listeners, the handler of one connection with its deferred functions, the accept loop, and
  the default error handlers.  A connection has a type of its own, \<open>'c\<close>; what \<open>vhostFn\<close> makes of it
  is an argument (\<open>HTTP\<close> and \<open>TLS\<close> of the other theories).  The channels \<open>accept\<close> and \<open>muxErrors\<close>
  are unbuffered, so goroutines park on them: \<open>sending\<close> and \<open>muxErrors\<close> list the ones that do.
\<close>

section \<open>Strings\<close>

text \<open>
  \<open>strings.ToLower\<close> on host names, which are ASCII: other bytes are left alone here.
\<close>

definition lower_char :: "char \<Rightarrow> char" where
  "lower_char c = (if 65 \<le> (of_char c :: nat) \<and> (of_char c :: nat) \<le> 90
     then char_of (of_char c + 32 :: nat) else c)"

definition normalize :: "string \<Rightarrow> string" where
  "normalize s = map lower_char s"

text \<open>\<open>strings.Split(s, ".")\<close> and \<open>strings.Join(ps, ".")\<close>.\<close>

fun split_dot :: "string \<Rightarrow> string list" where
  "split_dot [] = [[]]"
| "split_dot (c # cs) =
     (if c = CHR ''.'' then [] # split_dot cs
      else (case split_dot cs of p # ps \<Rightarrow> (c # p) # ps | [] \<Rightarrow> [[c]]))"

fun join_dot :: "string list \<Rightarrow> string" where
  "join_dot [] = []"
| "join_dot [p] = p"
| "join_dot (p # ps) = p @ ''.'' @ join_dot ps"

text \<open>The host of \<open>net.SplitHostPort\<close>; \<open>None\<close> is its error.\<close>

fun last_colon :: "string \<Rightarrow> nat \<Rightarrow> nat option \<Rightarrow> nat option" where
  "last_colon [] i r = r"
| "last_colon (c # cs) i r = last_colon cs (Suc i) (if c = CHR '':'' then Some i else r)"

definition SplitHostPort :: "string \<Rightarrow> string option" where
  "SplitHostPort hp =
     (case last_colon hp 0 None of
        None \<Rightarrow> None
      | Some i \<Rightarrow>
          if hd hp = CHR ''['' then
            (let e = length (takeWhile (\<lambda>c. c \<noteq> CHR '']'') hp) in
             if e = length hp then None
             else if e + 1 \<noteq> i then None
             else if CHR ''['' \<in> set (drop 1 hp) then None
             else if CHR '']'' \<in> set (drop (e + 1) hp) then None
             else Some (take (e - 1) (drop 1 hp)))
          else if CHR '':'' \<in> set (take i hp) then None
          else if CHR ''['' \<in> set hp \<or> CHR '']'' \<in> set hp then None
          else Some (take i hp))"

section \<open>Errors\<close>

text \<open>\<open>%v\<close> of an error.\<close>

fun error_text :: "go_error \<Rightarrow> string" where
  "error_text EOF = ''EOF''"
| "error_text (Errorf s) = s"
| "error_text (NetErr tmp rst s) = s"
| "error_text (Closed e) = error_text e"
| "error_text (NotFound e) = error_text e"
| "error_text (BadRequest e) = error_text e"
| "error_text (Alert a) = alert_String a"

text \<open>\<open>isClosed\<close>: the error is a \<open>net.Error\<close> and \<open>Temporary()\<close>.\<close>

definition isClosed :: "go_error \<Rightarrow> bool" where
  "isClosed e = (case e of NetErr tmp rst txt \<Rightarrow> tmp | _ \<Rightarrow> False)"

section \<open>State\<close>

record listener =
  lname :: string
  accept_closed :: bool
  closeOnce :: bool

text \<open>
  \<open>sending\<close>: the handlers parked in \<open>l.accept <- vconn\<close>, with the listener, the virtual-host
  connection and the raw one; \<open>muxErrors\<close>: the goroutines parked in \<open>sendError\<close>.
\<close>

record 'c mux =
  registry :: "string \<Rightarrow> nat option"
  listeners :: "listener list"
  sending :: "(nat \<times> 'c \<times> 'c) list"
  muxErrors :: "('c option \<times> go_error) list"

definition NewVhostMuxer :: "'c mux" where
  "NewVhostMuxer = \<lparr>registry = \<lambda>_. None, listeners = [], sending = [], muxErrors = []\<rparr>"

definition sendError :: "'c mux \<Rightarrow> 'c option \<Rightarrow> go_error \<Rightarrow> 'c mux" where
  "sendError m conn e = m\<lparr>muxErrors := muxErrors m @ [(conn, e)]\<rparr>"

section \<open>The registry\<close>

text \<open>The wildcard loop of \<open>get\<close>, from index \<open>i\<close> on.\<close>

function get_loop :: "(string \<Rightarrow> nat option) \<Rightarrow> string list \<Rightarrow> nat \<Rightarrow> nat option" where
  "get_loop reg parts i =
     (if i < length parts - 1 then
        let parts = parts[i := ''*'']; name = join_dot (drop i parts) in
        (case reg name of Some l \<Rightarrow> Some l | None \<Rightarrow> get_loop reg parts (i + 1))
      else None)"
  by pat_completeness auto
termination
  by (relation "measure (\<lambda>(reg, parts, i). length parts - 1 - i)") auto

declare get_loop.simps [simp del]

definition mux_get :: "(string \<Rightarrow> nat option) \<Rightarrow> string \<Rightarrow> nat option" where
  "mux_get reg name =
     (case reg name of Some l \<Rightarrow> Some l | None \<Rightarrow> get_loop reg (split_dot name) 0)"

definition mux_set :: "(string \<Rightarrow> nat option) \<Rightarrow> string \<Rightarrow> nat \<Rightarrow> go_error option \<times> (string \<Rightarrow> nat option)" where
  "mux_set reg name l =
     (case reg name of
        Some _ \<Rightarrow> (Some (Errorf (''name '' @ name @ '' is already bound'')), reg)
      | None \<Rightarrow> (None, reg(name := Some l)))"

definition mux_del :: "(string \<Rightarrow> nat option) \<Rightarrow> string \<Rightarrow> string \<Rightarrow> nat option" where
  "mux_del reg name = reg(name := None)"

definition mux_Listen :: "'c mux \<Rightarrow> string \<Rightarrow> (go_error + nat) \<times> 'c mux" where
  "mux_Listen m name =
     (let name = normalize name; l = length (listeners m) in
      case mux_set (registry m) name l of
        (Some e, _) \<Rightarrow> (Inl e, m)
      | (None, reg) \<Rightarrow>
          (Inr l, m\<lparr>registry := reg,
                    listeners := listeners m @ [\<lparr>lname = name, accept_closed = False, closeOnce = False\<rparr>]\<rparr>))"

definition TLS_Listen :: "'c mux \<Rightarrow> string \<Rightarrow> (go_error + nat) \<times> 'c mux" where
  "TLS_Listen m name =
     (case SplitHostPort name of Some host \<Rightarrow> mux_Listen m host | None \<Rightarrow> mux_Listen m name)"

section \<open>Handling a connection\<close>

text \<open>What \<open>vhostFn\<close> does: it returns a connection or an error, or it panics with some value.\<close>

datatype 'c vhost_result = VConn 'c | VErr go_error | VPanic string

text \<open>The body of \<open>handle\<close>, up to the send; \<open>d1\<close> is the result of setting the deadline.\<close>

datatype 'c handle_body =
    ReturnEarly go_error
  | Fails 'c go_error
  | Panics string
  | Offer nat 'c

definition handle_body ::
    "('c \<Rightarrow> string) \<Rightarrow> 'c mux \<Rightarrow> 'c \<Rightarrow> go_error option \<Rightarrow> 'c vhost_result \<Rightarrow> 'c handle_body" where
  "handle_body host m conn d1 vr =
     (case d1 of
        Some e \<Rightarrow> ReturnEarly (Errorf (''Failed to set deadline: '' @ error_text e))
      | None \<Rightarrow>
          (case vr of
             VPanic t \<Rightarrow> Panics t
           | VErr e \<Rightarrow> Fails conn
               (BadRequest (Errorf (''Failed to extract vhost name: '' @ error_text e)))
           | VConn vconn \<Rightarrow>
               let h = normalize (host vconn) in
               (case mux_get (registry m) h of
                  None \<Rightarrow> Fails vconn (NotFound (Errorf (''Host not found: '' @ h)))
                | Some l \<Rightarrow> Offer l vconn)))"

text \<open>
  The deferred functions, last one first: unset the deadline (\<open>d2\<close> is the result), then recover
  from a panic.
\<close>

definition unset_deadline :: "'c \<Rightarrow> go_error option \<Rightarrow> 'c mux \<Rightarrow> 'c mux" where
  "unset_deadline conn d2 m =
     (case d2 of
        None \<Rightarrow> m
      | Some e \<Rightarrow> sendError m (Some conn) (Errorf (''Failed unset connection deadline: '' @ error_text e)))"

definition recover :: "'c \<Rightarrow> string \<Rightarrow> 'c mux \<Rightarrow> 'c mux" where
  "recover conn t m = sendError m (Some conn) (Errorf (''NameMux.handle failed with error '' @ t))"

definition mux_handle ::
    "('c \<Rightarrow> string) \<Rightarrow> 'c mux \<Rightarrow> 'c \<Rightarrow> go_error option \<Rightarrow> 'c vhost_result \<Rightarrow> go_error option \<Rightarrow> 'c mux" where
  "mux_handle host m conn d1 vr d2 =
     (case handle_body host m conn d1 vr of
        ReturnEarly e \<Rightarrow> sendError m (Some conn) e
      | Fails c e \<Rightarrow> unset_deadline conn d2 (sendError m (Some c) e)
      | Panics t \<Rightarrow> recover conn t (unset_deadline conn d2 m)
      | Offer l vconn \<Rightarrow>
          if accept_closed (listeners m ! l)
          then recover conn ''send on closed channel'' (unset_deadline conn d2 m)
          else m\<lparr>sending := sending m @ [(l, vconn, conn)]\<rparr>)"

section \<open>The listener and the muxer\<close>

text \<open>\<open>Accept\<close>: \<open>None\<close> parks.  The handler whose connection is taken then unsets its deadline.\<close>

definition listener_Accept ::
    "'c mux \<Rightarrow> nat \<Rightarrow> ('c \<Rightarrow> go_error option) \<Rightarrow> (go_error + 'c) option \<times> 'c mux" where
  "listener_Accept m l d2 =
     (case filter (\<lambda>x. fst x = l) (sending m) of
        x # _ \<Rightarrow>
          (case x of (_, vconn, conn) \<Rightarrow>
             (Some (Inr vconn), unset_deadline conn (d2 conn) (m\<lparr>sending := remove1 x (sending m)\<rparr>)))
      | [] \<Rightarrow>
          if accept_closed (listeners m ! l) then (Some (Inl (Errorf ''Listener closed'')), m)
          else (None, m))"

text \<open>\<open>Close\<close>: the handlers parked on the channel panic and recover.\<close>

fun fail_over :: "('c \<Rightarrow> go_error option) \<Rightarrow> nat \<times> 'c \<times> 'c \<Rightarrow> 'c mux \<Rightarrow> 'c mux" where
  "fail_over d2 (l, vconn, conn) m =
     recover conn ''send on closed channel'' (unset_deadline conn (d2 conn) m)"

definition listener_Close :: "'c mux \<Rightarrow> nat \<Rightarrow> ('c \<Rightarrow> go_error option) \<Rightarrow> 'c mux" where
  "listener_Close m l d2 =
     (let lis = listeners m ! l in
      if closeOnce lis then m
      else fold (fail_over d2)
             (filter (\<lambda>x. fst x = l) (sending m))
             (m\<lparr>registry := mux_del (registry m) (lname lis),
                listeners := (listeners m)[l := lis\<lparr>closeOnce := True, accept_closed := True\<rparr>],
                sending := filter (\<lambda>x. fst x \<noteq> l) (sending m)\<rparr>))"

text \<open>\<open>NextError\<close>: \<open>None\<close> parks.\<close>

definition NextError :: "'c mux \<Rightarrow> ('c option \<times> go_error) option \<times> 'c mux" where
  "NextError m =
     (case muxErrors m of [] \<Rightarrow> (None, m) | x # xs \<Rightarrow> (Some x, m\<lparr>muxErrors := xs\<rparr>))"

text \<open>
  One round of \<open>run\<close> on the result of \<open>listener.Accept()\<close>: whether the loop goes on, and the
  connection for which it starts a handler.
\<close>

definition run_round :: "'c mux \<Rightarrow> go_error + 'c \<Rightarrow> bool \<times> 'c option \<times> 'c mux" where
  "run_round m r =
     (case r of
        Inr conn \<Rightarrow> (True, Some conn, m)
      | Inl err \<Rightarrow>
          if isClosed err then (False, None, sendError m None (Closed err))
          else (True, None, sendError m None err))"

text \<open>\<open>run\<close> on the results of successive calls of \<open>Accept\<close>: the results left when it returns.\<close>

fun mux_run :: "'c mux \<Rightarrow> (go_error + 'c) list \<Rightarrow> bool \<times> 'c list \<times> 'c mux" where
  "mux_run m [] = (True, [], m)"
| "mux_run m (r # rs) =
     (case run_round m r of
        (False, _, m') \<Rightarrow> (False, [], m')
      | (True, None, m') \<Rightarrow> mux_run m' rs
      | (True, Some c, m') \<Rightarrow> (case mux_run m' rs of (b, cs, m'') \<Rightarrow> (b, c # cs, m'')))"

section \<open>Default error handlers\<close>

definition nl :: string where
  "nl = [char_of (10 :: nat)]"

definition serverError :: string where
  "serverError = ''HTTP/1.0 500 Internal Server Error'' @ nl @ ''Content-Length: 22'' @ nl @ nl
     @ ''Internal Server Error'' @ nl"

definition notFound :: string where
  "notFound = ''HTTP/1.0 404 Not Found'' @ nl @ ''Content-Length: 14'' @ nl @ nl
     @ ''404 not found'' @ nl"

definition badRequest :: string where
  "badRequest = ''HTTP/1.0 400 Bad Request'' @ nl @ ''Content-Length: 12'' @ nl @ nl
     @ ''Bad Request'' @ nl"

text \<open>What a handler does to connections; a call of a method of a nil connection panics (\<open>None\<close>).\<close>

datatype 'c action = WriteTo 'c string | CloseConn 'c

definition HandleError :: "'c option \<Rightarrow> go_error \<Rightarrow> 'c action list option" where
  "HandleError conn err =
     (case err of
        Closed _ \<Rightarrow> Some []
      | NotFound _ \<Rightarrow> map_option (\<lambda>c. [WriteTo c notFound, CloseConn c]) conn
      | BadRequest _ \<Rightarrow> map_option (\<lambda>c. [WriteTo c badRequest, CloseConn c]) conn
      | _ \<Rightarrow> (case conn of None \<Rightarrow> Some [] | Some c \<Rightarrow> Some [WriteTo c serverError, CloseConn c]))"

text \<open>\<open>HTTPMuxer.HandleErrors\<close> on the errors \<open>NextError\<close> returns; it has no exit.\<close>

fun http_HandleErrors :: "('c option \<times> go_error) list \<Rightarrow> 'c action list option" where
  "http_HandleErrors [] = Some []"
| "http_HandleErrors ((conn, err) # es) =
     (case HandleError conn err of
        None \<Rightarrow> None | Some as \<Rightarrow> map_option (\<lambda>bs. as @ bs) (http_HandleErrors es))"

text \<open>\<open>TLSMuxer.HandleErrors\<close>: the actions, and the errors left when it returns (\<open>None\<close>: it waits on).\<close>

fun tls_HandleErrors :: "('c option \<times> go_error) list \<Rightarrow> 'c action list \<times> ('c option \<times> go_error) list option" where
  "tls_HandleErrors [] = ([], None)"
| "tls_HandleErrors ((conn, err) # es) =
     (case conn of
        None \<Rightarrow> (case err of Closed _ \<Rightarrow> ([], Some es) | _ \<Rightarrow> tls_HandleErrors es)
      | Some c \<Rightarrow> (case tls_HandleErrors es of (as, r) \<Rightarrow> (CloseConn c # as, r)))"

section \<open>Names and the wildcard lookup\<close>

lemma split_dot_not_Nil [simp]: "split_dot s \<noteq> []"
  by (cases s) (auto split: list.splits)

lemma join_split: "join_dot (split_dot s) = s"
proof (induction s)
  case (Cons c cs)
  obtain p ps where ps: "split_dot cs = p # ps" by (cases "split_dot cs") auto
  with Cons show ?case by (cases ps) auto
qed simp

text \<open>The rests of a name after each of its dots, longest first.\<close>

fun dot_suffixes :: "string \<Rightarrow> string list" where
  "dot_suffixes [] = []"
| "dot_suffixes (c # cs) = (if c = CHR ''.'' then [cs] else []) @ dot_suffixes cs"

lemma suffixes_split:
  "(case split_dot s of [p] \<Rightarrow> dot_suffixes s = []
    | p # ps \<Rightarrow> \<exists>d. dot_suffixes s = d # dot_suffixes d \<and> split_dot d = ps)"
proof (induction s)
  case (Cons c cs)
  obtain p ps where ps: "split_dot cs = p # ps" by (cases "split_dot cs") auto
  with Cons show ?case by (cases ps) auto
qed simp

text \<open>The first of some names that is bound.\<close>

fun first_bound :: "(string \<Rightarrow> nat option) \<Rightarrow> string list \<Rightarrow> nat option" where
  "first_bound reg [] = None"
| "first_bound reg (n # ns) = (case reg n of Some l \<Rightarrow> Some l | None \<Rightarrow> first_bound reg ns)"

definition wildcard :: "string \<Rightarrow> string" where
  "wildcard d = ''*.'' @ d"

lemma get_loop_suffixes:
  "drop i ps = split_dot s \<Longrightarrow> get_loop reg ps i = first_bound reg (map wildcard (dot_suffixes s))"
proof (induction reg ps i arbitrary: s rule: get_loop.induct)
  case (1 reg ps i)
  obtain p qs where sp: "split_dot s = p # qs" by (cases "split_dot s") auto
  have len: "length ps - i = Suc (length qs)" using "1.prems" sp by (metis length_Cons length_drop)
  show ?case
  proof (cases qs)
    case Nil
    then have "\<not> i < length ps - 1" using len by simp
    moreover have "dot_suffixes s = []" using suffixes_split [of s] sp Nil by simp
    ultimately show ?thesis by (subst get_loop.simps) simp
  next
    case (Cons q qs')
    then obtain d where d: "dot_suffixes s = d # dot_suffixes d" "split_dot d = qs"
      using suffixes_split [of s] sp by auto
    have i: "i < length ps - 1" using len Cons by simp
    have "drop i ps = p # qs" using "1.prems" sp by simp
    then have "drop (Suc i) ps = qs" by (metis drop_Suc list.sel(3) tl_drop)
    then have "ps[i := ''*''] = take i ps @ ''*'' # qs"
      using i upd_conv_take_nth_drop [of i ps "''*''"] by simp
    then have dr: "drop i (ps[i := ''*'']) = ''*'' # qs" "drop (i + 1) (ps[i := ''*'']) = qs"
      using i by simp_all
    have j: "join_dot (drop i (ps[i := ''*''])) = wildcard d"
      unfolding dr(1) using join_split [of d] d(2) Cons by (simp add: wildcard_def)
    have "get_loop reg (ps[i := ''*'']) (i + 1) = first_bound reg (map wildcard (dot_suffixes d))"
      if "reg (wildcard d) = None"
      by (rule "1.IH" [OF i refl refl]) (use j that dr(2) d(2) in simp_all)
    then show ?thesis
      using i j d(1) by (subst get_loop.simps) (simp add: Let_def split: option.split)
  qed
qed

lemma mux_get_spec: "mux_get reg name = first_bound reg (name # map wildcard (dot_suffixes name))"
  using get_loop_suffixes [of 0 "split_dot name" name reg]
  by (cases "reg name") (simp_all add: mux_get_def)

lemma lower_char_idem: "lower_char (lower_char c) = lower_char c"
proof (cases "65 \<le> (of_char c :: nat) \<and> (of_char c :: nat) \<le> 90")
  case True
  then have "of_char (char_of (of_char c + 32 :: nat)) = (of_char c + 32 :: nat)" by simp
  with True show ?thesis by (simp add: lower_char_def)
next
  case False
  then have "lower_char c = c" unfolding lower_char_def by (rule if_not_P)
  then show ?thesis by simp
qed

lemma normalize_idem: "normalize (normalize s) = normalize s"
  by (simp add: normalize_def lower_char_idem)

section \<open>The registry contract\<close>

text \<open>
  What \<open>Listen\<close> and \<open>Close\<close> need of the registry: a name is bound at most once, binding and
  unbinding touch no other name, and a name that has been unbound can be bound again.
\<close>

locale name_registry =
  fixes find :: "'t \<Rightarrow> 'n \<Rightarrow> 'l option"
    and bind_name :: "'t \<Rightarrow> 'n \<Rightarrow> 'l \<Rightarrow> go_error option \<times> 't"
    and unbind :: "'t \<Rightarrow> 'n \<Rightarrow> 't"
  assumes bind_free: "find t n = None \<Longrightarrow> \<exists>t'. bind_name t n l = (None, t') \<and> find t' = (find t)(n := Some l)"
    and bind_taken: "find t n = Some k \<Longrightarrow> \<exists>e. bind_name t n l = (Some e, t)"
    and find_unbind: "find (unbind t n) = (find t)(n := None)"
begin

lemma bind_ok: "bind_name t n l = (None, t') \<Longrightarrow> find t n = None \<and> find t' = (find t)(n := Some l)"
  using bind_free [of t n l] bind_taken [of t n _ l] by (cases "find t n") auto

lemma bind_exclusive: "bind_name t n l = (None, t') \<Longrightarrow> \<exists>e. bind_name t' n k = (Some e, t')"
  using bind_ok [of t n l t'] bind_taken [of t' n l k] by simp

lemma rebind: "\<exists>t'. bind_name (unbind t n) n l = (None, t') \<and> find t' = (find t)(n := Some l)"
  using bind_free [of "unbind t n" n l] by (simp add: find_unbind)

end

interpretation reg: name_registry "\<lambda>r n. r n" mux_set mux_del
  by unfold_locales (auto simp: mux_set_def mux_del_def)

section \<open>Frames\<close>

lemma sendError_simps [simp]:
  "registry (sendError m c e) = registry m" "listeners (sendError m c e) = listeners m"
  "sending (sendError m c e) = sending m" "muxErrors (sendError m c e) = muxErrors m @ [(c, e)]"
  by (simp_all add: sendError_def)

lemma unset_simps [simp]:
  "registry (unset_deadline c d m) = registry m" "listeners (unset_deadline c d m) = listeners m"
  "sending (unset_deadline c d m) = sending m" "unset_deadline c None m = m"
  by (simp_all add: unset_deadline_def split: option.split)

lemma recover_simps [simp]:
  "registry (recover c t m) = registry m" "listeners (recover c t m) = listeners m"
  "sending (recover c t m) = sending m"
  by (simp_all add: recover_def)

lemma fold_fail_over [simp]:
  "registry (fold (fail_over d2) xs m) = registry m" "listeners (fold (fail_over d2) xs m) = listeners m"
  "sending (fold (fail_over d2) xs m) = sending m"
  by (induction xs arbitrary: m) auto

lemma fold_fail_over_errors:
  "\<exists>es. muxErrors (fold (fail_over d2) xs m) = muxErrors m @ es
     \<and> (\<forall>(l, v, c) \<in> set xs. \<exists>e. (Some c, e) \<in> set es)"
proof (induction xs arbitrary: m)
  case (Cons x xs)
  obtain l v c where x: "x = (l, v, c)" by (cases x)
  obtain es where es: "muxErrors (fold (fail_over d2) xs (fail_over d2 x m)) = muxErrors (fail_over d2 x m) @ es"
    "\<forall>(l, v, c) \<in> set xs. \<exists>e. (Some c, e) \<in> set es" using Cons.IH by blast
  obtain es0 e where "muxErrors (fail_over d2 x m) = muxErrors m @ es0 @ [(Some c, e)]"
    by (cases "d2 c") (simp_all add: x recover_def unset_deadline_def)
  with es x show ?case by (intro exI [of _ "(es0 @ [(Some c, e)]) @ es"]) auto
qed simp

section \<open>The invariant\<close>

definition open_listener :: "'c mux \<Rightarrow> nat \<Rightarrow> bool" where
  "open_listener m l \<longleftrightarrow> l < length (listeners m) \<and> \<not> accept_closed (listeners m ! l)"

definition mux_inv :: "'c mux \<Rightarrow> bool" where
  "mux_inv m \<longleftrightarrow>
     (\<forall>n l. registry m n = Some l \<longleftrightarrow> open_listener m l \<and> lname (listeners m ! l) = n)
     \<and> (\<forall>lis \<in> set (listeners m). closeOnce lis = accept_closed lis \<and> normalize (lname lis) = lname lis)
     \<and> (\<forall>x \<in> set (sending m). open_listener m (fst x))"

lemma mux_inv_errors:
  "registry m' = registry m \<Longrightarrow> listeners m' = listeners m \<Longrightarrow> set (sending m') \<subseteq> set (sending m) \<Longrightarrow>
     mux_inv m \<Longrightarrow> mux_inv m'"
  by (auto simp: mux_inv_def open_listener_def)

text \<open>The steps of the muxer: its methods, its listeners' methods, and its accept loop.\<close>

inductive mux_step :: "('c \<Rightarrow> string) \<Rightarrow> 'c mux \<Rightarrow> 'c mux \<Rightarrow> bool" for host where
  listen: "mux_Listen m name = (r, m') \<Longrightarrow> mux_step host m m'"
| tls_listen: "TLS_Listen m name = (r, m') \<Longrightarrow> mux_step host m m'"
| handle: "mux_step host m (mux_handle host m conn d1 vr d2)"
| accept: "l < length (listeners m) \<Longrightarrow> listener_Accept m l d = (r, m') \<Longrightarrow> mux_step host m m'"
| close: "l < length (listeners m) \<Longrightarrow> mux_step host m (listener_Close m l d)"
| next_error: "NextError m = (r, m') \<Longrightarrow> mux_step host m m'"
| run: "run_round m r = (b, c, m') \<Longrightarrow> mux_step host m m'"

inductive mux_reachable :: "('c \<Rightarrow> string) \<Rightarrow> 'c mux \<Rightarrow> bool" for host where
  new: "mux_reachable host NewVhostMuxer"
| step: "mux_reachable host m \<Longrightarrow> mux_step host m m' \<Longrightarrow> mux_reachable host m'"

lemma mux_Listen_inv:
  assumes "mux_inv m" "mux_Listen m name = (r, m')"
  shows "mux_inv m'"
proof (cases "registry m (normalize name)")
  case None
  let ?l = "length (listeners m)" and ?lis = "\<lparr>lname = normalize name, accept_closed = False, closeOnce = False\<rparr>"
  have m': "m' = m\<lparr>registry := (registry m)(normalize name := Some ?l), listeners := listeners m @ [?lis]\<rparr>"
    using assms(2) None by (simp add: mux_Listen_def mux_set_def Let_def)
  have o: "open_listener m' l \<longleftrightarrow> open_listener m l \<or> l = ?l" for l
    by (auto simp: m' open_listener_def nth_append)
  have n: "lname (listeners m' ! l) = (if l = ?l then normalize name else lname (listeners m ! l))"
    if "open_listener m' l" for l
    using that o [of l] by (auto simp: m' open_listener_def nth_append)
  have b: "registry m x = Some k \<longleftrightarrow> open_listener m k \<and> lname (listeners m ! k) = x" for x k
    using assms(1) by (simp add: mux_inv_def)
  have new: "\<not> open_listener m ?l" by (simp add: open_listener_def)
  have "registry m' x = Some l \<longleftrightarrow> open_listener m' l \<and> lname (listeners m' ! l) = x" for x l
  proof (cases "l = ?l")
    case True
    then have "registry m' x = Some l \<longleftrightarrow> x = normalize name" using new b [of x l] by (auto simp: m')
    then show ?thesis using True n [of l] o [of l] by auto
  next
    case False
    then have "registry m' x = Some l \<longleftrightarrow> registry m x = Some l"
      using None by (auto simp: m')
    then show ?thesis using False b n [of l] o [of l] by auto
  qed
  moreover have "\<forall>x \<in> set (sending m'). open_listener m' (fst x)"
    using assms(1) o by (simp add: mux_inv_def m')
  ultimately show ?thesis
    using assms(1) by (auto simp: mux_inv_def m' normalize_idem)
next
  case (Some k)
  then show ?thesis using assms by (simp add: mux_Listen_def mux_set_def Let_def)
qed

lemma mux_get_range: "mux_get reg name = Some l \<Longrightarrow> \<exists>n. reg n = Some l"
proof -
  have "first_bound reg ns = Some l \<Longrightarrow> \<exists>n. reg n = Some l" for ns
    by (induction ns) (auto split: option.splits)
  then show "mux_get reg name = Some l \<Longrightarrow> \<exists>n. reg n = Some l" unfolding mux_get_spec by blast
qed

lemma mux_handle_inv: "mux_inv m \<Longrightarrow> mux_inv (mux_handle host m conn d1 vr d2)"
proof (cases "handle_body host m conn d1 vr")
  case (Offer l v)
  assume inv: "mux_inv m"
  have "\<exists>n. registry m n = Some l"
    using Offer mux_get_range
    by (auto simp: handle_body_def Let_def split: option.splits vhost_result.splits)
  then have "open_listener m l" using inv by (auto simp: mux_inv_def)
  with inv Offer show ?thesis
    by (auto simp: mux_handle_def mux_inv_def open_listener_def)
qed (auto simp: mux_handle_def intro: mux_inv_errors)

lemma listener_Close_inv:
  assumes "mux_inv m" "l < length (listeners m)"
  shows "mux_inv (listener_Close m l d)"
proof (cases "closeOnce (listeners m ! l)")
  case True
  with assms show ?thesis by (simp add: listener_Close_def)
next
  case False
  let ?n = "lname (listeners m ! l)" and ?m = "listener_Close m l d"
  have op: "open_listener m l" using False assms by (simp add: mux_inv_def open_listener_def)
  have reg: "registry ?m = (registry m)(?n := None)"
    and lis: "listeners ?m = (listeners m)[l := (listeners m ! l)\<lparr>closeOnce := True, accept_closed := True\<rparr>]"
    and snd: "sending ?m = filter (\<lambda>x. fst x \<noteq> l) (sending m)"
    using False by (simp_all add: listener_Close_def Let_def mux_del_def)
  have o: "open_listener ?m k \<longleftrightarrow> open_listener m k \<and> k \<noteq> l" for k
    using assms(2) by (auto simp: open_listener_def lis nth_list_update)
  have n: "lname (listeners ?m ! k) = lname (listeners m ! k)" for k
    using assms(2) by (cases "k = l") (simp_all add: lis)
  have b: "registry m x = Some k \<longleftrightarrow> open_listener m k \<and> lname (listeners m ! k) = x" for x k
    using assms(1) by (simp add: mux_inv_def)
  have "registry m ?n = Some l" using op by (simp add: b)
  moreover have "k = l" if "open_listener m k" "lname (listeners m ! k) = ?n" for k
    using b [of ?n k] that calculation by simp
  ultimately have "registry ?m x = Some k \<longleftrightarrow> open_listener ?m k \<and> lname (listeners ?m ! k) = x" for x k
    unfolding o n reg using b by auto
  moreover have "\<forall>x \<in> set (sending ?m). open_listener ?m (fst x)"
    using assms(1) o by (auto simp: snd mux_inv_def)
  moreover have "\<forall>y \<in> set (listeners ?m). closeOnce y = accept_closed y \<and> normalize (lname y) = lname y"
    using assms by (auto simp: lis mux_inv_def dest!: subsetD [OF set_update_subset_insert])
  ultimately show ?thesis by (simp add: mux_inv_def)
qed

lemma listener_Accept_inv:
  "mux_inv m \<Longrightarrow> listener_Accept m l d = (r, m') \<Longrightarrow> mux_inv m'"
  by (rule mux_inv_errors [of _ m])
    (auto simp: listener_Accept_def dest: set_remove1_subset [THEN subsetD] split: list.splits prod.splits if_splits)

lemma mux_step_inv:
  assumes "mux_step host m m'" "mux_inv m"
  shows "mux_inv m'"
  using assms(1)
proof (cases rule: mux_step.cases)
  case (tls_listen name r)
  then show ?thesis
    using assms(2) by (auto simp: TLS_Listen_def intro: mux_Listen_inv split: option.splits)
next
  case (next_error r)
  then show ?thesis
    using assms(2) by (auto simp: NextError_def intro: mux_inv_errors split: list.splits)
next
  case (run r b c)
  then show ?thesis
    using assms(2) by (auto simp: run_round_def intro: mux_inv_errors split: sum.splits if_splits)
qed (use assms(2) in \<open>auto intro: mux_Listen_inv mux_handle_inv listener_Accept_inv listener_Close_inv\<close>)

lemma mux_reachable_inv: "mux_reachable host m \<Longrightarrow> mux_inv m"
proof (induction rule: mux_reachable.induct)
  case new
  then show ?case by (simp add: mux_inv_def NewVhostMuxer_def open_listener_def)
next
  case (step m m')
  then show ?case using mux_step_inv by blast
qed

text \<open>A connection whose host is bound is offered to that listener.\<close>

lemma mux_handle_offer:
  assumes "registry m (normalize (host v)) = Some l" "\<not> accept_closed (listeners m ! l)"
  shows "mux_handle host m conn None (VConn v) d2 = m\<lparr>sending := sending m @ [(l, v, conn)]\<rparr>"
  using assms by (simp add: mux_handle_def handle_body_def mux_get_def Let_def)

lemma Listen_result:
  assumes "mux_Listen m name = (Inr l, m')"
  shows "l = length (listeners m) \<and> registry m (normalize name) = None
    \<and> m' = m\<lparr>registry := (registry m)(normalize name := Some l),
        listeners := listeners m @ [\<lparr>lname = normalize name, accept_closed = False, closeOnce = False\<rparr>]\<rparr>"
  using assms by (auto simp: mux_Listen_def mux_set_def Let_def split: option.splits prod.splits)

section \<open>Properties\<close>

text \<open>
  C30: The split/join loop of \<open>get\<close> is the lookup one expects of wildcards: the exact name first, and
  then \<open>*.d\<close> for every rest \<open>d\<close> of the name after one of its dots, the longest (most specific) rest
  first; the first bound one of these is returned.
\<close>

theorem wildcard_lookup_most_specific:
  "mux_get reg name = first_bound reg (name # map wildcard (dot_suffixes name))"
  by (rule mux_get_spec)

text \<open>
  C29: In every reachable state of the muxer the registry holds exactly the listeners that are open,
  each under its own (lower-case) name: no name leads to a closed listener, no open listener is
  lost, and no handler waits on a closed one.
\<close>

theorem registry_is_open_listeners:
  assumes "mux_reachable host m"
  shows "(registry m n = Some l \<longleftrightarrow> l < length (listeners m) \<and> \<not> accept_closed (listeners m ! l)
        \<and> lname (listeners m ! l) = n)
    \<and> (\<forall>x \<in> set (sending m). \<not> accept_closed (listeners m ! fst x))"
  using mux_reachable_inv [OF assms] by (auto simp: mux_inv_def open_listener_def)

text \<open>A muxer with two listeners, and connections that are their own host names.\<close>

definition sample_mux :: "string mux" where
  "sample_mux = snd (mux_Listen (snd (mux_Listen NewVhostMuxer ''a.b'')) ''*.b'')"

lemma sample_mux_reachable: "mux_reachable (\<lambda>s. s) sample_mux"
  unfolding sample_mux_def
  by (rule mux_reachable.step [OF mux_reachable.step [OF mux_reachable.new]])
    (rule mux_step.listen [OF surjective_pairing])+

lemma sample_mux_eq:
  "sample_mux = \<lparr>registry = [''a.b'' \<mapsto> 0, ''*.b'' \<mapsto> 1],
     listeners = [\<lparr>lname = ''a.b'', accept_closed = False, closeOnce = False\<rparr>,
                  \<lparr>lname = ''*.b'', accept_closed = False, closeOnce = False\<rparr>],
     sending = [], muxErrors = []\<rparr>"
  by (simp add: sample_mux_def mux_Listen_def mux_set_def NewVhostMuxer_def normalize_def lower_char_def
      Let_def)

theorem registry_is_open_listeners_witness: "registry sample_mux ''a.b'' = Some 0"
  using registry_is_open_listeners [OF sample_mux_reachable, of "''a.b''" 0]
  by (simp add: sample_mux_eq)

text \<open>
  Routing ignores the case of the host name, and only the right listener sees the connection: a
  connection whose host is, up to case, the name of an open listener is offered to that listener
  and to no other, and the next \<open>Accept\<close> of that listener returns it if none is waiting before it.
\<close>

theorem routed_to_its_listener:
  assumes "mux_reachable host m" "l < length (listeners m)" "\<not> accept_closed (listeners m ! l)"
    and "normalize (host v) = lname (listeners m ! l)"
  shows "sending (mux_handle host m conn None (VConn v) d2) = sending m @ [(l, v, conn)]
    \<and> (filter (\<lambda>x. fst x = l) (sending m) = [] \<longrightarrow>
        fst (listener_Accept (mux_handle host m conn None (VConn v) d2) l d) = Some (Inr v))"
proof -
  have "registry m (normalize (host v)) = Some l"
    using mux_reachable_inv [OF assms(1)] assms(2-4) by (simp add: mux_inv_def open_listener_def)
  from mux_handle_offer [of m host v l, OF this assms(3)]
  show ?thesis by (simp add: listener_Accept_def)
qed

lemma sample_name: "normalize ''A.b'' = ''a.b''"
  by code_simp

theorem routed_to_its_listener_witness:
  "fst (listener_Accept (mux_handle (\<lambda>s. s) sample_mux ''A.b'' None (VConn ''A.b'') None) 0 (\<lambda>_. None))
     = Some (Inr ''A.b'')"
  using routed_to_its_listener [OF sample_mux_reachable, of 0 "''A.b''" "''A.b''" None "\<lambda>_. None"]
  by (simp add: sample_mux_eq sample_name)

text \<open>
  Closing a listener: its \<open>Accept\<close> reports the closing, a second \<open>Close\<close> does nothing, its name can be
  bound again at once, every handler that was waiting to hand it a connection recovers and reports
  an error for that connection, and all other listeners keep their names and waiting connections.
\<close>

theorem close_listener_effect:
  assumes "mux_reachable host m" "l < length (listeners m)" "\<not> accept_closed (listeners m ! l)"
  shows "fst (listener_Accept (listener_Close m l d) l d') = Some (Inl (Errorf ''Listener closed''))
    \<and> listener_Close (listener_Close m l d) l d' = listener_Close m l d
    \<and> (\<exists>k m'. mux_Listen (listener_Close m l d) (lname (listeners m ! l)) = (Inr k, m'))
    \<and> (\<forall>v c. (l, v, c) \<in> set (sending m) \<longrightarrow> (\<exists>e. (Some c, e) \<in> set (muxErrors (listener_Close m l d))))
    \<and> (\<forall>k \<noteq> l. listeners (listener_Close m l d) ! k = listeners m ! k
         \<and> filter (\<lambda>x. fst x = k) (sending (listener_Close m l d)) = filter (\<lambda>x. fst x = k) (sending m))"
proof -
  have inv: "mux_inv m" by (rule mux_reachable_inv [OF assms(1)])
  then have lis: "\<not> closeOnce (listeners m ! l)" "normalize (lname (listeners m ! l)) = lname (listeners m ! l)"
    using assms(2,3) by (auto simp: mux_inv_def)
  let ?m0 = "m\<lparr>registry := mux_del (registry m) (lname (listeners m ! l)),
      listeners := (listeners m)[l := (listeners m ! l)\<lparr>closeOnce := True, accept_closed := True\<rparr>],
      sending := filter (\<lambda>x. fst x \<noteq> l) (sending m)\<rparr>"
  have m: "listener_Close m l d = fold (fail_over d) (filter (\<lambda>x. fst x = l) (sending m)) ?m0"
    using lis by (simp add: listener_Close_def Let_def)
  have "fst (listener_Accept (listener_Close m l d) l d') = Some (Inl (Errorf ''Listener closed''))"
    using assms(2) by (simp add: m listener_Accept_def)
  moreover have "listener_Close (listener_Close m l d) l d' = listener_Close m l d"
    using assms(2) by (simp add: m listener_Close_def [of "fold _ _ _"])
  moreover have "\<exists>k m'. mux_Listen (listener_Close m l d) (lname (listeners m ! l)) = (Inr k, m')"
    using reg.rebind [of "registry m" "lname (listeners m ! l)"] lis(2)
    by (force simp: m mux_Listen_def Let_def)
  moreover have "\<exists>e. (Some c, e) \<in> set (muxErrors (listener_Close m l d))"
    if "(l, v, c) \<in> set (sending m)" for v c
    using fold_fail_over_errors [of d "filter (\<lambda>x. fst x = l) (sending m)" ?m0] that
    unfolding m by fastforce
  moreover have "filter (\<lambda>x. fst x = k) (filter (\<lambda>x. fst x \<noteq> l) xs) = filter (\<lambda>x. fst x = k) xs"
    if "k \<noteq> l" for k and xs :: "(nat \<times> 'a \<times> 'a) list"
    using that by (induction xs) auto
  ultimately show ?thesis by (auto simp: m)
qed

theorem close_listener_effect_witness:
  "\<exists>k m'. mux_Listen (listener_Close sample_mux 1 (\<lambda>_. None)) ''*.b'' = (Inr k, m')"
  using close_listener_effect [OF sample_mux_reachable, of 1 "\<lambda>_. None" "\<lambda>_. None"]
  by (simp add: sample_mux_eq)


text \<open>
  The accept loop returns exactly when the wrapped listener reports an error whose \<open>Temporary()\<close>
  is true, so on a listener that has been closed it goes on for ever, one error per round.
\<close>

theorem run_stops_on_temporary_only:
  "(fst (mux_run m rs) = False \<longleftrightarrow> (\<exists>e. Inl e \<in> set rs \<and> isClosed e))
   \<and> mux_run m (replicate k (Inl errNetClosed))
     = (True, [], m\<lparr>muxErrors := muxErrors m @ replicate k (None, errNetClosed)\<rparr>)"
proof
  show "fst (mux_run m rs) = False \<longleftrightarrow> (\<exists>e. Inl e \<in> set rs \<and> isClosed e)"
    by (induction m rs rule: mux_run.induct)
      (auto simp: run_round_def split: prod.splits sum.splits if_splits option.splits bool.splits)
  show "mux_run m (replicate k (Inl errNetClosed))
     = (True, [], m\<lparr>muxErrors := muxErrors m @ replicate k (None, errNetClosed)\<rparr>)"
    by (induction k arbitrary: m) (simp_all add: run_round_def isClosed_def errNetClosed_def sendError_def)
qed

text \<open>A response whose last header gives the length of the body that follows it.\<close>

definition content_length_ok :: "string \<Rightarrow> string \<Rightarrow> bool" where
  "content_length_ok r body \<longleftrightarrow> (\<exists>head. r = head @ ''Content-Length: ''
     @ dec_string (length (body @ nl)) @ nl @ nl @ body @ nl)"

text \<open>
  The default HTTP error handler answers an unknown host with 404, a request without a readable
  host with 400 and any other failure with 500, closes the connection, and each canned response has
  a body of as many bytes as its \<open>Content-Length\<close> says.
\<close>

theorem http_error_responses:
  "HandleError (Some c) (NotFound e) = Some [WriteTo c notFound, CloseConn c]
   \<and> HandleError (Some c) (BadRequest e) = Some [WriteTo c badRequest, CloseConn c]
   \<and> HandleError (Some c) (Errorf t) = Some [WriteTo c serverError, CloseConn c]
   \<and> content_length_ok notFound ''404 not found'' \<and> content_length_ok badRequest ''Bad Request''
   \<and> content_length_ok serverError ''Internal Server Error''"
proof -
  have 1: "dec_string 14 = ''14''" "dec_string 12 = ''12''" "dec_string 22 = ''22''"
    by code_simp+
  have len: "length (''404 not found'' @ nl) = 14" "length (''Bad Request'' @ nl) = 12"
    "length (''Internal Server Error'' @ nl) = 22" by (simp_all add: nl_def)
  have "content_length_ok notFound ''404 not found''"
    unfolding content_length_ok_def len 1
    by (rule exI [of _ "''HTTP/1.0 404 Not Found'' @ nl"]) (simp add: notFound_def)
  moreover have "content_length_ok badRequest ''Bad Request''"
    unfolding content_length_ok_def len 1
    by (rule exI [of _ "''HTTP/1.0 400 Bad Request'' @ nl"]) (simp add: badRequest_def)
  moreover have "content_length_ok serverError ''Internal Server Error''"
    unfolding content_length_ok_def len 1
    by (rule exI [of _ "''HTTP/1.0 500 Internal Server Error'' @ nl"]) (simp add: serverError_def)
  ultimately show ?thesis by (simp add: HandleError_def)
qed

text \<open>
  After the muxer has been closed (the error \<open>Closed\<close> with no connection), the TLS error handler
  returns and leaves later errors alone, while the HTTP error handler does nothing and goes on to
  the next error.
\<close>

theorem error_handlers_on_close:
  "tls_HandleErrors ((None, Closed e) # es) = ([], Some es)
   \<and> http_HandleErrors ((None, Closed e) # es) = http_HandleErrors es"
  by (cases "http_HandleErrors es") (simp_all add: HandleError_def)

end
