(* ===== verification/Auth.thy ===== *)
theory Auth
  imports VhostMux "HOL-Library.AList"
begin

text \<open>
  Package auth (auth/auth.go): the three requests to the account service.  The JSON encoder and
  decoder, the construction of a request, the network round trip and the reading of a body are
  parameters, gathered in the record \<open>api\<close>; every error return of the Go functions is a branch.
\<close>

section \<open>Requests\<close>

text \<open>The payload structs, by their JSON field names.\<close>

type_synonym payload = "(string \<times> string) list"

record request =
  req_method :: string
  req_url :: string
  req_body :: bytes
  req_header :: "(string \<times> string) list"
  req_timeout :: "nat option"

text \<open>\<open>Body\<close>: what \<open>ioutil.ReadAll\<close> reads of the body, and the error it ends with.\<close>

record response =
  StatusCode :: nat
  Body :: "bytes \<times> go_error option"

record api =
  json_Marshal :: "payload \<Rightarrow> go_error + bytes"
  url_ok :: "string \<Rightarrow> go_error option"
  client_Do :: "request \<Rightarrow> go_error + response"
  json_Unmarshal :: "bytes \<Rightarrow> go_error + string"

text \<open>\<open>fmt.Errorf("...: %v", err)\<close>.\<close>

definition wrapped :: "string \<Rightarrow> go_error \<Rightarrow> go_error" where
  "wrapped s e = Errorf (s @ '': '' @ error_text e)"

definition http_NewRequest :: "api \<Rightarrow> string \<Rightarrow> string \<Rightarrow> bytes \<Rightarrow> go_error + request" where
  "http_NewRequest a method url body =
     (case url_ok a url of
        Some e \<Rightarrow> Inl e
      | None \<Rightarrow> Inr \<lparr>req_method = method, req_url = url, req_body = body, req_header = [],
                   req_timeout = None\<rparr>)"

definition set_header :: "string \<Rightarrow> string \<Rightarrow> request \<Rightarrow> request" where
  "set_header k v r = r\<lparr>req_header := AList.update k v (req_header r)\<rparr>"

record SignInDto =
  sign_UserName :: string
  sign_Password :: string

definition SignIn_payload :: "SignInDto \<Rightarrow> payload" where
  "SignIn_payload d = [(''userName'', sign_UserName d), (''password'', sign_Password d)]"

text \<open>The result is the subscription type of the returned token, or an error.\<close>

definition SignInAndGetSubscriptionType :: "api \<Rightarrow> string \<Rightarrow> SignInDto \<Rightarrow> go_error + string" where
  "SignInAndGetSubscriptionType a apiUrl signInData =
     (case json_Marshal a (SignIn_payload signInData) of
        Inl e \<Rightarrow> Inl (wrapped ''error marshaling signInData'' e)
      | Inr jsonData \<Rightarrow>
          (case http_NewRequest a ''POST'' (apiUrl @ ''/signin'') jsonData of
             Inl e \<Rightarrow> Inl (wrapped ''error creating request'' e)
           | Inr req \<Rightarrow>
               (case client_Do a (set_header ''Content-Type'' ''application/json'' req) of
                  Inl e \<Rightarrow> Inl (wrapped ''error sending request'' e)
                | Inr resp \<Rightarrow>
                    if StatusCode resp \<noteq> 200
                    then Inl (Errorf (''error response from server: ''
                           @ go_string (fst (Body resp))))
                    else
                      (case Body resp of
                         (_, Some e) \<Rightarrow> Inl (wrapped ''error reading response body'' e)
                       | (body, None) \<Rightarrow>
                           (case json_Unmarshal a body of
                              Inl e \<Rightarrow> Inl (wrapped ''error unmarshaling response body'' e)
                            | Inr sub \<Rightarrow> Inr sub)))))"

definition UserUrl_payload :: "string \<Rightarrow> string \<Rightarrow> string \<Rightarrow> payload" where
  "UserUrl_payload userName url t = [(''userName'', userName), (''url'', url), (''time'', t)]"

definition Increment_payload :: "string \<Rightarrow> string \<Rightarrow> payload" where
  "Increment_payload userName url = [(''userName'', userName), (''url'', url)]"

definition AddUserUrlDetails ::
    "api \<Rightarrow> string \<Rightarrow> string \<Rightarrow> string \<Rightarrow> string \<Rightarrow> string \<Rightarrow> go_error option" where
  "AddUserUrlDetails a apiUrl token userName url timepass =
     (case json_Marshal a (UserUrl_payload userName url timepass) of
        Inl e \<Rightarrow> Some (wrapped ''error marshalling JSON'' e)
      | Inr jsonPayload \<Rightarrow>
          (case http_NewRequest a ''POST'' (apiUrl @ ''/add'') jsonPayload of
             Inl e \<Rightarrow> Some (wrapped ''error creating request'' e)
           | Inr req \<Rightarrow>
               (case client_Do a ((set_header ''Authorization'' (''Bearer '' @ token)
                       (set_header ''Content-Type'' ''application/json'' req))\<lparr>req_timeout := Some 3\<rparr>) of
                  Inl e \<Rightarrow> Some (wrapped ''error performing request'' e)
                | Inr resp \<Rightarrow>
                    if StatusCode resp \<noteq> 200
                    then Some (Errorf (''unexpected status code: '' @ dec_string (StatusCode resp)))
                    else None)))"

definition SendIncrementRequest ::
    "api \<Rightarrow> string \<Rightarrow> string \<Rightarrow> string \<Rightarrow> string \<Rightarrow> go_error option" where
  "SendIncrementRequest a userName url apiUrl token =
     (case json_Marshal a (Increment_payload userName url) of
        Inl e \<Rightarrow> Some (wrapped ''error marshalling JSON'' e)
      | Inr jsonPayload \<Rightarrow>
          (case http_NewRequest a ''POST'' (apiUrl @ ''/increment'') jsonPayload of
             Inl e \<Rightarrow> Some (wrapped ''error creating request'' e)
           | Inr req \<Rightarrow>
               (case client_Do a (set_header ''Authorization'' (''Bearer '' @ token)
                       (set_header ''Content-Type'' ''application/json'' req)) of
                  Inl e \<Rightarrow> Some (wrapped ''error performing request'' e)
                | Inr resp \<Rightarrow>
                    if StatusCode resp \<noteq> 200
                    then Some (Errorf (''unexpected status code: '' @ dec_string (StatusCode resp)))
                    else None)))"

section \<open>Properties\<close>

text \<open>
  C35: Signing in succeeds in one way only: the service answered a well-formed POST of exactly this
  user name and password to \<open>/signin\<close> with status 200 and a body that decodes to the subscription
  returned.  Every other outcome, at any stage, is an error.
\<close>

theorem sign_in_only_on_200:
  "SignInAndGetSubscriptionType a apiUrl d = Inr sub \<longleftrightarrow>
     (\<exists>js req resp body.
        json_Marshal a [(''userName'', sign_UserName d), (''password'', sign_Password d)] = Inr js
        \<and> http_NewRequest a ''POST'' (apiUrl @ ''/signin'') js = Inr req
        \<and> client_Do a (set_header ''Content-Type'' ''application/json'' req) = Inr resp
        \<and> StatusCode resp = 200 \<and> Body resp = (body, None) \<and> json_Unmarshal a body = Inr sub)"
  by (auto simp: SignInAndGetSubscriptionType_def SignIn_payload_def split: sum.splits prod.splits option.splits if_splits)

text \<open>
  The accounting request carries the bearer token and reports success exactly when the service
  answered with status 200.
\<close>

theorem accounting_requests_authorized:
  assumes "json_Marshal a (Increment_payload u url) = Inr js" "url_ok a (apiUrl @ ''/increment'') = None"
  shows "\<exists>req. map_of (req_header req) ''Authorization'' = Some (''Bearer '' @ token)
    \<and> req_method req = ''POST'' \<and> req_url req = apiUrl @ ''/increment'' \<and> req_body req = js
    \<and> (SendIncrementRequest a u url apiUrl token = None \<longleftrightarrow>
         (\<exists>resp. client_Do a req = Inr resp \<and> StatusCode resp = 200))"
  using assms
  by (intro exI [of _ "set_header ''Authorization'' (''Bearer '' @ token)
        (set_header ''Content-Type'' ''application/json'' \<lparr>req_method = ''POST'',
           req_url = apiUrl @ ''/increment'', req_body = js, req_header = [], req_timeout = None\<rparr>)"])
    (simp add: SendIncrementRequest_def http_NewRequest_def set_header_def split: sum.split)

definition sample_api :: api where
  "sample_api = \<lparr>json_Marshal = (\<lambda>p. Inr [1]), url_ok = (\<lambda>u. None),
     client_Do = (\<lambda>r. Inr \<lparr>StatusCode = 200, Body = ([], None)\<rparr>), json_Unmarshal = (\<lambda>b. Inr ''free'')\<rparr>"

theorem accounting_requests_authorized_witness:
  "SendIncrementRequest sample_api ''ann'' ''h'' ''http://api'' ''tok'' = None"
  using accounting_requests_authorized [of sample_api "''ann''" "''h''" "[1]" "''http://api''" "''tok''"]
  by (auto simp: sample_api_def)

end
