(* ===== verification/Utilities.thy ===== *)
theory Utilities
  imports SharedConn
begin

text \<open>
  Package utilities (utilities/assetsFunctions.go) but for the relay: the subdomain of a client and
  the test for a fatal error.  The random source is a parameter, and so is the AEAD the relay uses.
\<close>

section \<open>NewSubdomain\<close>

definition letters :: string where
  "letters = ''abcdefghijklmnopqrstuvwxyz1234567890''"

text \<open>\<open>NewSubdomain\<close> on the ten random bytes; \<open>None\<close> is the panic when there are none.\<close>

definition NewSubdomain :: "bytes option \<Rightarrow> string \<Rightarrow> string option" where
  "NewSubdomain rnd userName =
     do { b \<leftarrow> rnd;
          r \<leftarrow> those (map (\<lambda>x. get_at letters (unat x mod length letters)) b);
          Some (''Teleport_'' @ userName @ ''_'' @ r @ ''.'') }"

lemma those_letters:
  "\<exists>r. those (map (\<lambda>x. get_at letters (unat x mod length letters)) (b :: bytes)) = Some r
     \<and> length r = length b \<and> set r \<subseteq> set letters"
proof (induction b)
  case (Cons x b)
  have "unat x mod length letters < length letters" by (simp add: letters_def)
  with Cons show ?case by (auto simp: get_at_def)
qed simp

lemma NewSubdomain_None: "NewSubdomain rnd u = None \<longleftrightarrow> rnd = None"
proof (cases rnd)
  case (Some b)
  obtain r where "those (map (\<lambda>x. get_at letters (unat x mod length letters)) b) = Some r"
    using those_letters [of b] by blast
  with Some show ?thesis by (simp add: NewSubdomain_def)
qed (simp add: NewSubdomain_def)

text \<open>\<open>Fatal\<close>: whether the process exits.\<close>

definition Fatal :: "go_error option \<Rightarrow> bool" where
  "Fatal err \<longleftrightarrow> err \<noteq> None"

section \<open>The AEAD\<close>

text \<open>
  \<open>cipher.AEAD\<close>, with a fixed key: \<open>seal\<close> takes the nonce and the plain text, \<open>unseal\<close> the nonce and
  the cipher text and may fail.
\<close>

record aead =
  NonceSize :: nat
  seal :: "bytes \<Rightarrow> bytes \<Rightarrow> bytes"
  unseal :: "bytes \<Rightarrow> bytes \<Rightarrow> bytes option"

text \<open>An AEAD that only tags: enough to run the relay.\<close>

definition sample_aead :: aead where
  "sample_aead = \<lparr>NonceSize = 2, seal = (\<lambda>n p. 9 # p),
     unseal = (\<lambda>n c. if c \<noteq> [] \<and> hd c = 9 then Some (tl c) else None)\<rparr>"

section \<open>Properties\<close>

text \<open>
  A subdomain always has the form \<open>Teleport_user_r.\<close> with ten letters or digits \<open>r\<close>, whatever ten
  random bytes it is made from; the index into the letters is never out of range.
\<close>

theorem NewSubdomain_form:
  assumes "length b = 10"
  shows "\<exists>r. NewSubdomain (Some b) u = Some (''Teleport_'' @ u @ ''_'' @ r @ ''.'')
    \<and> length r = 10 \<and> set r \<subseteq> set letters"
  using those_letters [of b] assms by (auto simp: NewSubdomain_def)

theorem NewSubdomain_form_witness:
  "\<exists>r. NewSubdomain (Some [0, 1, 35, 36, 255, 7, 8, 9, 10, 11]) ''ann''
     = Some (''Teleport_'' @ ''ann'' @ ''_'' @ r @ ''.'') \<and> length r = 10"
  using NewSubdomain_form [of "[0, 1, 35, 36, 255, 7, 8, 9, 10, 11]" "''ann''"] by auto

end
