(* ===== verification/Server.thy ===== *)
theory Server
  imports Auth Utilities Session
begin

text \<open>
  The server (server.go): the handler of a client's tunnel request and the loop that hands public
  connections to the client's session.  The account service, the key exchange and the hijacked
  connection are parameters, gathered in \<open>env\<close>.  A handler is split where it waits for the session
  to end: \<open>Serving\<close> is that point, and \<open>handler_end\<close> what is left to do.
\<close>

section \<open>Configuration\<close>

record config =
  Port :: string
  Host :: string
  Addr :: string
  ApiUrlAuth :: string
  ApiUrlDetails :: string
  Token :: string
  Free :: int
  Moderate :: int
  High :: int

text \<open>The map \<open>connectionLimits\<close>; a missing key reads as zero.\<close>

definition connectionLimits :: "config \<Rightarrow> string \<Rightarrow> int" where
  "connectionLimits cfg subscription =
     (if subscription = ''free'' then Free cfg
      else if subscription = ''moderate'' then Moderate cfg
      else if subscription = ''high'' then High cfg
      else 0)"

record client =
  limiter :: "int \<times> int"
  active :: int

text \<open>\<open>net.JoinHostPort\<close> and \<open>strings.TrimSuffix\<close>.\<close>

definition JoinHostPort :: "string \<Rightarrow> string \<Rightarrow> string" where
  "JoinHostPort host port =
     (if CHR '':'' \<in> set host then ''['' @ host @ '']:'' @ port
      else host @ '':'' @ port)"

definition TrimSuffix :: "string \<Rightarrow> string \<Rightarrow> string" where
  "TrimSuffix s suf =
     (if length suf \<le> length s \<and> drop (length s - length suf) s = suf
      then take (length s - length suf) s else s)"

section \<open>The handler\<close>

record hrequest =
  X_Username :: string
  X_Password :: string
  X_Client_Public_Key :: string
  RemoteAddr :: string

text \<open>
  \<open>GenerateKey\<close> gives a private key and the marshalled public key; \<open>Unmarshal\<close> a point of the
  curve; \<open>aesGCM\<close> the cipher for the shared secret (hash, AES and GCM together); \<open>Hijack\<close> the connection.
\<close>

record ('k, 'p) env =
  account :: api
  random :: "bytes option"
  current_time :: string
  GenerateKey :: "go_error + ('k \<times> bytes)"
  Unmarshal_point :: "bytes \<Rightarrow> 'p option"
  shared_secret :: "'p \<Rightarrow> 'k \<Rightarrow> bytes"
  aesGCM :: "bytes \<Rightarrow> go_error + aead"
  Hijack :: "go_error + transport"

record 'c server =
  vmux :: "'c mux"
  clients :: "string \<Rightarrow> client option"

datatype event = HttpError nat string | SetHeader string string | WriteHeader nat

text \<open>\<open>Exited\<close> is \<open>log.Fatal\<close>, which ends the process and runs no deferred function.\<close>

datatype outcome =
    Finished
  | Exited string
  | HandlerPanics
  | Serving session nat string string aead

datatype exchanged = KFinished | KExited string | KPanics | KReady session aead

text \<open>\<open>fmt.Sprintf("%x")\<close> and \<open>hex.DecodeString\<close>.\<close>

definition hex_digits :: string where
  "hex_digits = ''0123456789abcdef''"

definition hex_encode :: "bytes \<Rightarrow> string" where
  "hex_encode bs = concat (map (\<lambda>b. [hex_digits ! (unat b div 16), hex_digits ! (unat b mod 16)]) bs)"

definition hex_value :: "char \<Rightarrow> nat option" where
  "hex_value c =
     (let n = (of_char c :: nat) in
      if 48 \<le> n \<and> n \<le> 57 then Some (n - 48)
      else if 97 \<le> n \<and> n \<le> 102 then Some (n - 87)
      else if 65 \<le> n \<and> n \<le> 70 then Some (n - 55)
      else None)"

fun hex_decode :: "string \<Rightarrow> bytes option" where
  "hex_decode [] = Some []"
| "hex_decode [c] = None"
| "hex_decode (c # d # cs) =
     do { a \<leftarrow> hex_value c; b \<leftarrow> hex_value d; bs \<leftarrow> hex_decode cs; Some (of_nat (16 * a + b) # bs) }"

text \<open>From the client's key on: the status and the headers have been written by now.\<close>

definition key_exchange ::
    "('k, 'p) env \<Rightarrow> 'k \<Rightarrow> hrequest \<Rightarrow> event list \<times> exchanged" where
  "key_exchange env privKey req =
     (if X_Client_Public_Key req = '''' then
        ([HttpError 400 ''stupid client public key required''], KFinished)
      else
        (case hex_decode (X_Client_Public_Key req) of
           None \<Rightarrow> ([HttpError 400 ''invalid  stupid client public key''], KFinished)
         | Some clientPubKey \<Rightarrow>
             (case Unmarshal_point env clientPubKey of
                None \<Rightarrow> ([HttpError 400 ''invalid stupid client public key''], KFinished)
              | Some point \<Rightarrow>
                  (case aesGCM env (shared_secret env point privKey) of
                     Inl e \<Rightarrow> ([], KExited (error_text e))
                   | Inr gcm \<Rightarrow>
                       (case Hijack env of
                          Inl e \<Rightarrow> ([], KExited (''failed to hijack connection I hate gooo :'' @ error_text e))
                        | Inr conn \<Rightarrow>
                            (case session_New (Some conn) of
                               Some sess \<Rightarrow> ([], KReady sess gcm)
                             | None \<Rightarrow> ([], KPanics)))))))"

text \<open>From the listener for the public host on; every return closes the listener.\<close>

definition open_tunnel ::
    "config \<Rightarrow> ('k, 'p) env \<Rightarrow> hrequest \<Rightarrow> string \<Rightarrow> string \<Rightarrow> nat \<Rightarrow> 'c server \<Rightarrow>
     event list \<times> outcome \<times> 'c server" where
  "open_tunnel cfg env req subscription publicHost pl s =
     (case AddUserUrlDetails (account env) (ApiUrlDetails cfg) (Token cfg) (X_Username req) publicHost
             (current_time env) of
        Some e \<Rightarrow> ([], Exited (''--------- error adding user URL details: '' @ error_text e), s)
      | None \<Rightarrow>
          (case GenerateKey env of
             Inl e \<Rightarrow> ([], Exited (''--------- failed to generate DH key: I hate gooooooooooooo '' @ error_text e), s)
           | Inr (privKey, pubKey) \<Rightarrow>
               let evs = [SetHeader ''X-Server-Public-Key'' (hex_encode pubKey),
                          SetHeader ''X-Public-Host'' publicHost,
                          SetHeader ''Connection'' ''close'', WriteHeader 200] in
               (case key_exchange env privKey req of
                  (evs', KExited t) \<Rightarrow> (evs @ evs', Exited t, s)
                | (evs', KFinished) \<Rightarrow>
                    (evs @ evs', Finished, s\<lparr>vmux := listener_Close (vmux s) pl (\<lambda>_. None)\<rparr>)
                | (evs', KPanics) \<Rightarrow>
                    (evs @ evs', HandlerPanics, s\<lparr>vmux := listener_Close (vmux s) pl (\<lambda>_. None)\<rparr>)
                | (evs', KReady sess gcm) \<Rightarrow>
                    (evs @ evs', Serving sess pl publicHost subscription gcm, s))))"

text \<open>The host under which the client's tunnel is published.\<close>

definition public_host :: "config \<Rightarrow> string \<Rightarrow> string" where
  "public_host cfg subdomain = TrimSuffix (JoinHostPort (subdomain @ Host cfg) (Port cfg)) '':80''"

definition add_client :: "config \<Rightarrow> string \<Rightarrow> string \<Rightarrow> (string \<Rightarrow> client option) \<Rightarrow> string \<Rightarrow> client option" where
  "add_client cfg subscription addr cs =
     (case cs addr of
        Some c \<Rightarrow> cs
      | None \<Rightarrow> cs(addr := Some \<lparr>limiter = (connectionLimits cfg subscription, connectionLimits cfg subscription),
                                  active = 0\<rparr>))"

definition connection_handler ::
    "config \<Rightarrow> ('k, 'p) env \<Rightarrow> hrequest \<Rightarrow> 'c server \<Rightarrow> event list \<times> outcome \<times> 'c server" where
  "connection_handler cfg env req s =
     (if X_Username req = '''' \<or> X_Password req = ''''
      then ([HttpError 401 ''Username and password required''], Finished, s)
      else
        (case SignInAndGetSubscriptionType (account env) (ApiUrlAuth cfg)
                \<lparr>sign_UserName = X_Username req, sign_Password = X_Password req\<rparr> of
           Inl e \<Rightarrow> ([HttpError 401 ''--------- Authentication failed''], Finished, s)
         | Inr subscription \<Rightarrow>
             let s = s\<lparr>clients := add_client cfg subscription (RemoteAddr req) (clients s)\<rparr> in
             (case NewSubdomain (random env) (X_Username req) of
                None \<Rightarrow> ([], HandlerPanics, s)
              | Some sub \<Rightarrow>
                  (case mux_Listen (vmux s) (public_host cfg sub) of
                     (Inl e, m) \<Rightarrow> ([HttpError 500 ''--------- server error''], Finished, s\<lparr>vmux := m\<rparr>)
                   | (Inr pl, m) \<Rightarrow>
                       open_tunnel cfg env req subscription (public_host cfg sub) pl (s\<lparr>vmux := m\<rparr>)))))"

text \<open>After \<open>sess.Wait()\<close>: forget the client; then the deferred \<open>sess.Close\<close> and \<open>pl.Close\<close>.\<close>

definition handler_end :: "hrequest \<Rightarrow> session \<Rightarrow> nat \<Rightarrow> 'c server \<Rightarrow> session \<times> 'c server" where
  "handler_end req sess pl s =
     (session_Close sess,
      s\<lparr>clients := (clients s)(RemoteAddr req := None), vmux := listener_Close (vmux s) pl (\<lambda>_. None)\<rparr>)"

section \<open>handleConnections\<close>

text \<open>
  The loop of \<open>handleConnections\<close> and the goroutines it starts, of which \<open>joined\<close> are running.
  \<open>Counted\<close>, \<open>Admitted\<close>, \<open>Accepted\<close> are the points after the count, after the rate limiter and after
  \<open>Accept\<close>; \<open>ProcessExit\<close> is \<open>log.Fatalf\<close>.  \<open>hserved\<close> are the connections that were given a channel, \<open>hclosed\<close> those closed because no channel could be
  opened.
\<close>

datatype 'c hc_phase = Check | Counted | Admitted | Accepted 'c | Stopped | ProcessExit

record 'c hc =
  phase :: "'c hc_phase"
  hactive :: int
  joined :: nat
  hserved :: "'c list"
  hclosed :: "'c list"

definition hc_start :: "'c hc" where
  "hc_start = \<lparr>phase = Check, hactive = 0, joined = 0, hserved = [], hclosed = []\<rparr>"

text \<open>The parts of one round, on the results of the calls they make.\<close>

definition hc_check :: "int \<Rightarrow> 'c hc \<Rightarrow> 'c hc" where
  "hc_check limit s =
     (if hactive s \<ge> limit then s\<lparr>phase := Stopped\<rparr>
      else s\<lparr>hactive := hactive s + 1, phase := Counted\<rparr>)"

definition hc_admit :: "go_error option \<Rightarrow> go_error option \<Rightarrow> 'c hc \<Rightarrow> 'c hc" where
  "hc_admit increment_err limiter_err s =
     (if increment_err \<noteq> None then s\<lparr>phase := ProcessExit\<rparr>
      else if limiter_err \<noteq> None then s\<lparr>hactive := hactive s - 1, phase := Stopped\<rparr>
      else s\<lparr>phase := Admitted\<rparr>)"

definition hc_accept :: "go_error + 'c \<Rightarrow> 'c hc \<Rightarrow> 'c hc" where
  "hc_accept r s =
     (case r of
        Inl e \<Rightarrow> s\<lparr>hactive := hactive s - 1, phase := Stopped\<rparr>
      | Inr conn \<Rightarrow> s\<lparr>phase := Accepted conn\<rparr>)"

definition hc_open :: "'c \<Rightarrow> go_error option \<Rightarrow> 'c hc \<Rightarrow> 'c hc" where
  "hc_open conn open_err s =
     (if open_err \<noteq> None
      then s\<lparr>hclosed := hclosed s @ [conn], hactive := hactive s - 1, phase := Stopped\<rparr>
      else s\<lparr>joined := joined s + 1, hserved := hserved s @ [conn], phase := Check\<rparr>)"

text \<open>The deferred function of a goroutine whose \<open>JoinEncrypted\<close> has returned.\<close>

definition hc_done :: "'c hc \<Rightarrow> 'c hc" where
  "hc_done s = s\<lparr>joined := joined s - 1, hactive := hactive s - 1\<rparr>"

inductive hc_step :: "int \<Rightarrow> 'c hc \<Rightarrow> 'c hc \<Rightarrow> bool" for limit where
  check: "phase s = Check \<Longrightarrow> hc_step limit s (hc_check limit s)"
| admit: "phase s = Counted \<Longrightarrow> hc_step limit s (hc_admit ie le s)"
| accept: "phase s = Admitted \<Longrightarrow> hc_step limit s (hc_accept r s)"
| open_ch: "phase s = Accepted conn \<Longrightarrow> hc_step limit s (hc_open conn oe s)"
| finish: "0 < joined s \<Longrightarrow> phase s \<noteq> ProcessExit \<Longrightarrow> hc_step limit s (hc_done s)"

inductive_cases hc_stepE: "hc_step limit s s'"

inductive hc_reachable :: "int \<Rightarrow> 'c hc \<Rightarrow> bool" for limit where
  start: "hc_reachable limit hc_start"
| step: "hc_reachable limit s \<Longrightarrow> hc_step limit s s' \<Longrightarrow> hc_reachable limit s'"

section \<open>The connection limit\<close>

definition in_round :: "'c hc_phase \<Rightarrow> bool" where
  "in_round p \<longleftrightarrow> (case p of Counted \<Rightarrow> True | Admitted \<Rightarrow> True | Accepted c \<Rightarrow> True | ProcessExit \<Rightarrow> True | _ \<Rightarrow> False)"

definition hc_inv :: "int \<Rightarrow> 'c hc \<Rightarrow> bool" where
  "hc_inv limit s \<longleftrightarrow> hactive s = int (joined s) + (if in_round (phase s) then 1 else 0)
     \<and> hactive s \<le> max 0 limit"

lemma hc_step_inv: "hc_step limit s s' \<Longrightarrow> hc_inv limit s \<Longrightarrow> hc_inv limit s'"
  by (erule hc_stepE; clarsimp simp: hc_inv_def in_round_def hc_check_def hc_admit_def hc_accept_def
      hc_open_def hc_done_def split: sum.splits hc_phase.splits)

lemma hc_reachable_inv: "hc_reachable limit s \<Longrightarrow> hc_inv limit s"
proof (induction rule: hc_reachable.induct)
  case start
  then show ?case by (simp add: hc_inv_def hc_start_def in_round_def)
next
  case (step s s')
  then show ?case using hc_step_inv by blast
qed

lemma stopped_stays:
  "(hc_step limit)\<^sup>*\<^sup>* s s' \<Longrightarrow> phase s = Stopped \<Longrightarrow> phase s' = Stopped \<and> hserved s' = hserved s"
proof (induction rule: rtranclp_induct)
  case (step s1 s2)
  from step.hyps(2) step.IH [OF step.prems] show ?case
    by (cases rule: hc_step.cases) (auto simp: hc_done_def)
qed simp

section \<open>Listening and closing\<close>

lemma Listen_Close_registry:
  "mux_Listen m name = (Inr l, m') \<Longrightarrow> registry (listener_Close m' l d) = registry m"
  by (auto simp: listener_Close_def Let_def mux_del_def fun_eq_iff dest!: Listen_result)

lemma Listen_error_same: "mux_Listen m name = (Inl e, m') \<Longrightarrow> m' = m"
  by (auto simp: mux_Listen_def Let_def split: prod.splits option.splits)

lemma open_tunnel_finished:
  assumes "open_tunnel cfg env req sub host pl s = (evs, out, s')"
  shows "clients s' = clients s \<and> (case out of
      Exited t \<Rightarrow> s' = s
    | Serving sess l h sb g \<Rightarrow> s' = s \<and> l = pl \<and> h = host \<and> sb = sub
    | _ \<Rightarrow> vmux s' = listener_Close (vmux s) pl (\<lambda>_. None))"
  using assms
  by (auto simp: open_tunnel_def Let_def split: option.splits sum.splits prod.splits exchanged.splits)

text \<open>The status the client sees: net/http keeps the first one that is written.\<close>

fun response_status :: "event list \<Rightarrow> nat option" where
  "response_status [] = None"
| "response_status (HttpError n t # es) = Some n"
| "response_status (WriteHeader n # es) = Some n"
| "response_status (SetHeader k v # es) = response_status es"

text \<open>The handler past the sign-in, by what becomes of the listener.\<close>

definition signed_in :: "config \<Rightarrow> ('k, 'p) env \<Rightarrow> hrequest \<Rightarrow> string \<Rightarrow> bool" where
  "signed_in cfg env req subscription \<longleftrightarrow> X_Username req \<noteq> '''' \<and> X_Password req \<noteq> ''''
     \<and> SignInAndGetSubscriptionType (account env) (ApiUrlAuth cfg)
         \<lparr>sign_UserName = X_Username req, sign_Password = X_Password req\<rparr> = Inr subscription"

lemma handler_cases:
  assumes "connection_handler cfg env req s = (evs, out, s')"
  obtains (refused) t where "\<nexists>sub. signed_in cfg env req sub" "evs = [HttpError 401 t]" "out = Finished" "s' = s"
  | (no_random) sub where "signed_in cfg env req sub" "random env = None" "out = HandlerPanics" "evs = []"
      "s' = s\<lparr>clients := add_client cfg sub (RemoteAddr req) (clients s)\<rparr>"
  | (taken) sub where "signed_in cfg env req sub" "out = Finished" "evs = [HttpError 500 ''--------- server error'']"
      "s' = s\<lparr>clients := add_client cfg sub (RemoteAddr req) (clients s)\<rparr>"
  | (tunnel) sub host pl m d where "signed_in cfg env req sub" "mux_Listen (vmux s) host = (Inr pl, m)"
      "open_tunnel cfg env req sub host pl
         (s\<lparr>clients := add_client cfg sub (RemoteAddr req) (clients s), vmux := m\<rparr>) = (evs, out, s')"
      "NewSubdomain (random env) (X_Username req) = Some d" "host = public_host cfg d"
proof (cases "\<exists>sub. signed_in cfg env req sub")
  case False
  then show ?thesis
    using assms refused by (auto simp: connection_handler_def signed_in_def split: sum.splits if_splits)
next
  case True
  then obtain sub where sub: "signed_in cfg env req sub" by blast
  let ?s = "s\<lparr>clients := add_client cfg sub (RemoteAddr req) (clients s)\<rparr>"
  show ?thesis
  proof (cases "NewSubdomain (random env) (X_Username req)")
    case None
    then have "random env = None" by (simp add: NewSubdomain_None)
    with None sub assms no_random show ?thesis by (simp add: connection_handler_def signed_in_def Let_def)
  next
    case (Some d)
    obtain r m where l: "mux_Listen (vmux s) (public_host cfg d) = (r, m)"
      by (cases "mux_Listen (vmux s) (public_host cfg d)")
    show ?thesis
    proof (cases r)
      case (Inl e)
      with l have "m = vmux s" using Listen_error_same by blast
      with Inl l Some sub assms taken show ?thesis
        by (simp add: connection_handler_def signed_in_def Let_def)
    next
      case (Inr pl)
      with l Some sub assms tunnel show ?thesis
        by (simp add: connection_handler_def signed_in_def Let_def)
    qed
  qed
qed

section \<open>Properties\<close>

text \<open>An environment in which every step of a request succeeds, and a request.\<close>

definition sample_env :: "(unit, unit) env" where
  "sample_env = \<lparr>account = sample_api, random = Some (replicate 10 0), current_time = ''now'',
     GenerateKey = Inr ((), [4]), Unmarshal_point = (\<lambda>b. Some ()), shared_secret = (\<lambda>p k. []),
     aesGCM = (\<lambda>s. Inr sample_aead),
     Hijack = Inr \<lparr>tin = \<lparr>chunks = [], final = EOF\<rparr>, tout = [], tbudget = None, tclosed = False\<rparr>\<rparr>"

definition sample_config :: config where
  "sample_config = \<lparr>Port = ''9999'', Host = ''teleport.me'', Addr = ''0.0.0.0'', ApiUrlAuth = ''a'',
     ApiUrlDetails = ''d'', Token = ''t'', Free = 2, Moderate = 50, High = 100\<rparr>"

definition sample_request :: "string \<Rightarrow> hrequest" where
  "sample_request key = \<lparr>X_Username = ''ann'', X_Password = ''pw'', X_Client_Public_Key = key,
     RemoteAddr = ''1.2.3.4:5''\<rparr>"

definition fresh_server :: "string server" where
  "fresh_server = \<lparr>vmux = NewVhostMuxer, clients = (\<lambda>_. None)\<rparr>"

lemma sample_signed_in: "signed_in sample_config sample_env (sample_request key) ''free''"
  by (simp add: signed_in_def sample_config_def sample_env_def sample_request_def sample_api_def
      SignInAndGetSubscriptionType_def http_NewRequest_def)

lemma sample_details: "AddUserUrlDetails (account sample_env) u t n h c = None"
  by (simp add: sample_env_def sample_api_def AddUserUrlDetails_def http_NewRequest_def)

lemma sample_GenerateKey: "GenerateKey sample_env = Inr ((), [4])"
  by (simp add: sample_env_def)

lemma sample_no_key:
  "key_exchange sample_env () (sample_request '''')
     = ([HttpError 400 ''stupid client public key required''], KFinished)"
  by (simp add: key_exchange_def sample_request_def)

lemma sample_bad_key:
  "key_exchange sample_env () (sample_request ''zz'')
     = ([HttpError 400 ''invalid  stupid client public key''], KFinished)"
proof -
  have "hex_decode ''zz'' = None" by code_simp
  then show ?thesis by (simp add: key_exchange_def sample_request_def)
qed

lemma sample_handler:
  "\<exists>host m. mux_Listen NewVhostMuxer host = (Inr 0, m) \<and>
     connection_handler sample_config sample_env (sample_request key) fresh_server =
       open_tunnel sample_config sample_env (sample_request key) ''free'' host 0
         (fresh_server\<lparr>clients := add_client sample_config ''free'' ''1.2.3.4:5'' (clients fresh_server), vmux := m\<rparr>)"
proof -
  obtain d where d: "NewSubdomain (random sample_env) ''ann'' = Some d"
    using NewSubdomain_None [of "random sample_env" "''ann''"]
    by (cases "NewSubdomain (random sample_env) ''ann''") (auto simp: sample_env_def)
  let ?h = "public_host sample_config d"
  obtain m where m: "mux_Listen (NewVhostMuxer :: string mux) ?h = (Inr 0, m)"
    by (simp add: mux_Listen_def mux_set_def NewVhostMuxer_def Let_def)
  have "connection_handler sample_config sample_env (sample_request key) fresh_server =
       open_tunnel sample_config sample_env (sample_request key) ''free'' ?h 0
         (fresh_server\<lparr>clients := add_client sample_config ''free'' ''1.2.3.4:5'' (clients fresh_server), vmux := m\<rparr>)"
    using sample_signed_in [of key] d m
    by (simp add: connection_handler_def signed_in_def Let_def sample_request_def fresh_server_def)
  with m show ?thesis by blast
qed

text \<open>
  C33: No tunnel without a sign-in: when a credential is missing or the account service does not
  answer the sign-in with a subscription, the client gets status 401, no listener is opened, no key
  is generated, no session is started, and the state of the server is unchanged.
\<close>

theorem no_tunnel_without_sign_in:
  assumes "\<nexists>sub. signed_in cfg env req sub"
  shows "\<exists>t. connection_handler cfg env req s = ([HttpError 401 t], Finished, s)"
  using assms by (auto simp: connection_handler_def signed_in_def split: sum.splits if_splits)

theorem no_tunnel_without_sign_in_witness:
  "\<exists>t. connection_handler sample_config sample_env ((sample_request '''')\<lparr>X_Password := ''''\<rparr>) fresh_server
     = ([HttpError 401 t], Finished, fresh_server)"
proof -
  have "\<nexists>sub. signed_in sample_config sample_env ((sample_request '''')\<lparr>X_Password := ''''\<rparr>) sub"
    by (simp add: signed_in_def)
  from no_tunnel_without_sign_in [OF this] show ?thesis .
qed

text \<open>
  A request that ends without a session leaves no public host behind: whatever it failed on,
  after the handler has returned the registry of the muxer is the one from before; and when a
  session that was served ends, its public host is free again.
\<close>

theorem handler_releases_host:
  assumes "connection_handler cfg env req s = (evs, out, s')" "\<forall>t. out \<noteq> Exited t"
  shows "registry (vmux (case out of Serving sess pl h sub g \<Rightarrow> snd (handler_end req sess pl s') | _ \<Rightarrow> s'))
    = registry (vmux s)"
  using assms(1)
proof (cases rule: handler_cases)
  case (tunnel sub host pl m)
  then have c: "registry (listener_Close m pl (\<lambda>_. None)) = registry (vmux s)"
    using Listen_Close_registry by blast
  with open_tunnel_finished [OF tunnel(3)] assms(2) show ?thesis
    by (cases out) (auto simp: handler_end_def)
qed simp_all

theorem handler_releases_host_witness:
  "\<exists>evs s'. connection_handler sample_config sample_env (sample_request '''') fresh_server = (evs, Finished, s')
     \<and> registry (vmux s') = (\<lambda>_. None)"
proof -
  obtain host and m :: "string mux" where h:
    "connection_handler sample_config sample_env (sample_request '''') fresh_server =
       open_tunnel sample_config sample_env (sample_request '''') ''free'' host 0
         (fresh_server\<lparr>clients := add_client sample_config ''free'' ''1.2.3.4:5'' (clients fresh_server), vmux := m\<rparr>)"
    using sample_handler by blast
  then obtain evs s' where r: "connection_handler sample_config sample_env (sample_request '''') fresh_server
      = (evs, Finished, s')"
    by (simp add: open_tunnel_def sample_details sample_GenerateKey sample_no_key Let_def)
  from handler_releases_host [OF r] show ?thesis
    using r by (auto simp: fresh_server_def NewVhostMuxer_def)
qed

text \<open>
  The status is written before the client's key is looked at: a request whose key is missing or
  invalid ends with \<open>http.Error\<close> 400, but the client is answered with status 200.
\<close>

theorem bad_key_is_answered_200:
  assumes "connection_handler cfg env req s = (evs, out, s')" "HttpError 400 t \<in> set evs"
  shows "out = Finished \<and> response_status evs = Some 200"
  using assms(1)
proof (cases rule: handler_cases)
  case (tunnel sub host pl m)
  with assms(2) show ?thesis
    by (auto simp: open_tunnel_def key_exchange_def Let_def
        split: option.splits sum.splits prod.splits exchanged.splits if_splits)
qed (use assms(2) in auto)

theorem bad_key_is_answered_200_witness:
  "response_status (fst (connection_handler sample_config sample_env (sample_request ''zz'') fresh_server))
     = Some 200"
proof -
  obtain host and m :: "string mux" where h:
    "connection_handler sample_config sample_env (sample_request ''zz'') fresh_server =
       open_tunnel sample_config sample_env (sample_request ''zz'') ''free'' host 0
         (fresh_server\<lparr>clients := add_client sample_config ''free'' ''1.2.3.4:5'' (clients fresh_server), vmux := m\<rparr>)"
    using sample_handler by blast
  obtain evs out s' where r: "connection_handler sample_config sample_env (sample_request ''zz'') fresh_server
      = (evs, out, s')" "HttpError 400 ''invalid  stupid client public key'' \<in> set evs"
    by (simp add: h open_tunnel_def sample_details sample_GenerateKey sample_bad_key Let_def)
  from bad_key_is_answered_200 [OF r] r(1) show ?thesis by simp
qed

text \<open>
  The entry made for a client in \<open>activeConnections\<close> is removed only after a session: a signed-in
  request that fails later, for whatever reason short of the end of the process, leaves its entry
  in the map for good.
\<close>

theorem failed_request_leaves_entry:
  assumes "connection_handler cfg env req s = (evs, out, s')" "signed_in cfg env req sub"
    and "out = Finished \<or> out = HandlerPanics"
  shows "clients s' (RemoteAddr req) \<noteq> None"
proof -
  have a: "add_client cfg x r cs r \<noteq> None" for x r and cs :: "string \<Rightarrow> client option"
    by (simp add: add_client_def split: option.split)
  from assms(1) show ?thesis
  proof (cases rule: handler_cases)
    case (tunnel sub' host pl m)
    then have "clients s' = add_client cfg sub' (RemoteAddr req) (clients s)"
      using open_tunnel_finished [OF tunnel(3)] by simp
    then show ?thesis using a by simp
  qed (use a assms(2) in auto)
qed

theorem failed_request_leaves_entry_witness:
  "clients (snd (snd (connection_handler sample_config (sample_env\<lparr>random := None\<rparr>)
     (sample_request '''') fresh_server))) ''1.2.3.4:5'' \<noteq> None"
proof -
  let ?e = "sample_env\<lparr>random := None\<rparr>"
  have s: "signed_in sample_config ?e (sample_request '''') ''free''"
    using sample_signed_in [of "''''"] by (simp add: signed_in_def)
  then obtain s' where r: "connection_handler sample_config ?e (sample_request '''') fresh_server
      = ([], HandlerPanics, s')"
    by (simp add: connection_handler_def signed_in_def Let_def NewSubdomain_def)
  from failed_request_leaves_entry [OF r s] r show ?thesis by (simp add: sample_request_def)
qed

text \<open>
  The tunnel is reachable: once a client is served, a visitor whose \<open>Host\<close> header is the client's
  public host, in any mixture of upper and lower case, is offered to the listener of that client's
  session and to no other.
\<close>

theorem visitor_reaches_tunnel:
  assumes "connection_handler cfg env req s = (evs, Serving sess pl pub sub gcm, s')"
    and "normalize (host_of v) = normalize pub"
  shows "sending (mux_handle host_of (vmux s') conn None (VConn v) d2) = sending (vmux s) @ [(pl, v, conn)]"
  using assms(1)
proof (cases rule: handler_cases)
  case (tunnel sub' host pl' m)
  from open_tunnel_finished [OF tunnel(3)] have m: "vmux s' = m" "pl = pl'" "pub = host" by simp_all
  from Listen_result [OF tunnel(2)] have "registry m (normalize host) = Some pl'"
    "\<not> accept_closed (listeners m ! pl')" "sending m = sending (vmux s)" by auto
  then show ?thesis
    using mux_handle_offer [of m host_of v pl' conn d2] assms(2) m by simp
qed simp_all

lemma sample_served:
  "\<exists>evs sess pub gcm s'. connection_handler sample_config sample_env (sample_request ''04'') fresh_server
     = (evs, Serving sess 0 pub ''free'' gcm, s')"
proof -
  have "hex_decode ''04'' = Some [4]" by code_simp
  then have "\<exists>sess. key_exchange sample_env () (sample_request ''04'') = ([], KReady sess sample_aead)"
    by (simp add: key_exchange_def sample_request_def) (simp add: sample_env_def session_New_def)
  then obtain sess where k: "key_exchange sample_env () (sample_request ''04'') = ([], KReady sess sample_aead)" ..
  obtain host and m :: "string mux" where h:
    "connection_handler sample_config sample_env (sample_request ''04'') fresh_server =
       open_tunnel sample_config sample_env (sample_request ''04'') ''free'' host 0
         (fresh_server\<lparr>clients := add_client sample_config ''free'' ''1.2.3.4:5'' (clients fresh_server), vmux := m\<rparr>)"
    using sample_handler by blast
  show ?thesis
    by (simp add: h open_tunnel_def sample_details sample_GenerateKey k Let_def)
qed

theorem visitor_reaches_tunnel_witness:
  "\<exists>pub (s' :: string server).
     sending (mux_handle (\<lambda>v. v) (vmux s') pub None (VConn pub) None) = [(0, pub, pub)]"
proof -
  obtain evs sess pub gcm s' where r: "connection_handler sample_config sample_env (sample_request ''04'')
      fresh_server = (evs, Serving sess 0 pub ''free'' gcm, s')"
    using sample_served by blast
  from visitor_reaches_tunnel [OF r, of "\<lambda>v. v" pub pub None]
  show ?thesis by (auto simp: fresh_server_def NewVhostMuxer_def)
qed

text \<open>
  C34: The connection limit is respected: whatever the calls of a round return and however the
  running goroutines end, the count of active connections is exactly the number of relays running
  plus the one being set up, and never exceeds the limit of the subscription.
\<close>

theorem connection_limit_respected:
  assumes "hc_reachable limit s"
  shows "int (joined s) \<le> hactive s \<and> hactive s \<le> int (joined s) + 1 \<and> hactive s \<le> max 0 limit
    \<and> (phase s = Check \<or> phase s = Stopped \<longrightarrow> hactive s = int (joined s))"
  using hc_reachable_inv [OF assms] by (auto simp: hc_inv_def in_round_def)

text \<open>One served connection, for the witnesses.\<close>

definition one_served :: "nat hc" where
  "one_served = hc_open 7 None (hc_accept (Inr 7) (hc_admit None None (hc_check 1 hc_start)))"

lemma one_served_eq:
  "one_served = \<lparr>phase = Check, hactive = 1, joined = 1, hserved = [7], hclosed = []\<rparr>"
  by (simp add: one_served_def hc_start_def hc_check_def hc_admit_def hc_accept_def hc_open_def)

lemma one_served_reachable: "hc_reachable 1 one_served"
proof -
  let ?s1 = "hc_check 1 hc_start :: nat hc"
  let ?s2 = "hc_admit None None ?s1" and ?s3 = "hc_accept (Inr 7) (hc_admit None None ?s1)"
  have "hc_step 1 hc_start ?s1" by (rule hc_step.check) (simp add: hc_start_def)
  with hc_reachable.start have 1: "hc_reachable 1 ?s1" by (rule hc_reachable.step)
  have "hc_step 1 ?s1 ?s2" by (rule hc_step.admit) (simp add: hc_start_def hc_check_def)
  with 1 have 2: "hc_reachable 1 ?s2" by (rule hc_reachable.step)
  have "hc_step 1 ?s2 ?s3" by (rule hc_step.accept) (simp add: hc_admit_def)
  with 2 have 3: "hc_reachable 1 ?s3" by (rule hc_reachable.step)
  have "hc_step 1 ?s3 one_served"
    unfolding one_served_def by (rule hc_step.open_ch) (simp add: hc_accept_def)
  with 3 show ?thesis by (rule hc_reachable.step)
qed

theorem connection_limit_respected_witness: "hactive one_served = 1 \<and> int (joined one_served) \<le> 1"
  using connection_limit_respected [OF one_served_reachable] by (simp add: one_served_eq)



text \<open>
  A failure of the account service takes the whole server down: if recording the public host
  fails, or counting a connection fails, the process exits, whatever other clients it serves, and
  no step of the loop follows.
\<close>

theorem account_failure_exits:
  assumes "signed_in cfg env req sub" "NewSubdomain (random env) (X_Username req) = Some d"
    and "mux_Listen (vmux s) (public_host cfg d) = (Inr pl, m)"
    and "AddUserUrlDetails (account env) (ApiUrlDetails cfg) (Token cfg) (X_Username req)
      (public_host cfg d) (current_time env) = Some e"
  shows "(\<exists>t s'. connection_handler cfg env req s = ([], Exited t, s'))
    \<and> phase (hc_admit (Some e) le hs) = ProcessExit
    \<and> (\<nexists>hs'. hc_step limit (hc_admit (Some e) le hs) hs')"
proof -
  have "\<exists>t s'. connection_handler cfg env req s = ([], Exited t, s')"
    using assms by (simp add: connection_handler_def signed_in_def open_tunnel_def Let_def)
  moreover have p: "phase (hc_admit (Some e) le hs) = ProcessExit" by (simp add: hc_admit_def)
  moreover have "\<nexists>hs'. hc_step limit (hc_admit (Some e) le hs) hs'"
    using p by (auto elim: hc_step.cases)
  ultimately show ?thesis by blast
qed

theorem account_failure_exits_witness:
  "\<exists>t s'. connection_handler sample_config
      (sample_env\<lparr>account := sample_api\<lparr>client_Do := (\<lambda>r. Inr \<lparr>StatusCode =
         (if req_url r = ''d/add'' then 500 else 200), Body = ([], None)\<rparr>)\<rparr>\<rparr>)
      (sample_request '''') fresh_server = ([], Exited t, s')"
proof -
  let ?e = "sample_env\<lparr>account := sample_api\<lparr>client_Do := (\<lambda>r. Inr \<lparr>StatusCode =
         (if req_url r = ''d/add'' then 500 else 200), Body = ([], None)\<rparr>)\<rparr>\<rparr>"
  have 1: "signed_in sample_config ?e (sample_request '''') ''free''"
    by (simp add: signed_in_def sample_config_def sample_request_def sample_api_def
        SignInAndGetSubscriptionType_def http_NewRequest_def set_header_def)
  obtain d where 2: "NewSubdomain (random ?e) (X_Username (sample_request '''')) = Some d"
    using NewSubdomain_None [of "random sample_env" "X_Username (sample_request '''')"]
    by (cases "NewSubdomain (random sample_env) (X_Username (sample_request ''''))")
      (auto simp: sample_env_def)
  obtain m where 3: "mux_Listen (vmux fresh_server) (public_host sample_config d) = (Inr 0, m)"
    by (simp add: mux_Listen_def mux_set_def NewVhostMuxer_def Let_def fresh_server_def)
  obtain err where 4: "AddUserUrlDetails (account ?e) (ApiUrlDetails sample_config) (Token sample_config)
      (X_Username (sample_request '''')) (public_host sample_config d) (current_time ?e) = Some err"
    by (simp add: sample_config_def sample_api_def AddUserUrlDetails_def http_NewRequest_def set_header_def)
  from account_failure_exits [OF 1 2 3 4] show ?thesis by blast
qed

end
