(* ===== verification/ServerSystem.thy ===== *)
theory ServerSystem
  imports Server SessionSteps
begin

text \<open>
  The whole server (server.go): the start of \<open>main\<close> and its loop over the muxer's errors, and the
  program at work as a step relation, in which visitors arrive, requests are handled, and the tunnels'
  sessions, connection loops and handlers run in any order.  The lemmas show the invariant that ties the
  muxer's listeners to the tunnels, from which the properties follow: every tunnel sees its own visitors only.
\<close>

section \<open>main\<close>

text \<open>
  The start, up to the listener for requests: \<open>Inl\<close> is the text with which the process exits.  The
  arguments are the results of opening and decoding the configuration and of \<open>net.Listen\<close>.
\<close>

definition server_start ::
    "go_error option \<Rightarrow> go_error + config \<Rightarrow> go_error option \<Rightarrow> string + (config \<times> nat \<times> 'c server)" where
  "server_start open_err decoded listen_err =
     (case open_err of
        Some e \<Rightarrow> Inl (''--------- error opening config file: '' @ error_text e)
      | None \<Rightarrow>
          (case decoded of
             Inl e \<Rightarrow> Inl (''--------- error decoding config file: '' @ error_text e)
           | Inr cfg \<Rightarrow>
               if Fatal listen_err then Inl (error_text (the listen_err))
               else
                 (case mux_Listen NewVhostMuxer (JoinHostPort (Host cfg) (Port cfg)) of
                    (Inl e, m) \<Rightarrow> Inl (error_text e)
                  | (Inr l, m) \<Rightarrow> Inr (cfg, l, \<lparr>vmux = m, clients = (\<lambda>_. None)\<rparr>))))"

text \<open>
  One round of the loop at the end: \<open>None\<close> parks in \<open>NextError\<close>; otherwise the connection that is
  closed, if there is one.  The error is logged only.
\<close>

definition main_round :: "'c mux \<Rightarrow> ('c option \<times> 'c mux) option" where
  "main_round m =
     (case NextError m of
        (None, _) \<Rightarrow> None
      | (Some (conn, err), m') \<Rightarrow> Some (conn, m'))"

section \<open>The server at work\<close>

text \<open>
  A tunnel: its request, its session with the state of the session's loop, its listener and public host,
  the state of \<open>handleConnections\<close>, and whether its handler has returned.
\<close>

record 'c tunnel =
  t_req :: hrequest
  t_sess :: "loop_state \<times> session"
  t_pl :: nat
  t_pub :: string
  t_sub :: string
  t_hc :: "'c hc"
  t_ended :: bool

record 'c system =
  srv :: "'c server"
  tunnels :: "'c tunnel list"
  hung_up :: "'c list"

definition set_tunnel :: "'c system \<Rightarrow> nat \<Rightarrow> 'c tunnel \<Rightarrow> 'c system" where
  "set_tunnel s i t = s\<lparr>tunnels := (tunnels s)[i := t]\<rparr>"

definition set_mux :: "'c system \<Rightarrow> 'c mux \<Rightarrow> 'c system" where
  "set_mux s m = s\<lparr>srv := (srv s)\<lparr>vmux := m\<rparr>\<rparr>"

abbreviation sys_mux :: "'c system \<Rightarrow> 'c mux" where
  "sys_mux s \<equiv> vmux (srv s)"

definition new_tunnel :: "hrequest \<Rightarrow> session \<Rightarrow> nat \<Rightarrow> string \<Rightarrow> string \<Rightarrow> 'c tunnel" where
  "new_tunnel req sess pl pub sub =
     \<lparr>t_req = req, t_sess = (Running, sess), t_pl = pl, t_pub = pub, t_sub = sub, t_hc = hc_start, t_ended = False\<rparr>"

text \<open>
  The steps.  \<open>take\<close> is the HTTP server accepting on the listener for requests, the first listener of the
  muxer; it may hand a request to the handler at any time.  \<open>envs\<close> are the environments requests may meet.  The handler of a tunnel goes on when its session's
  \<open>Wait\<close> returns; its connection loop and the relays may outlive it.
\<close>

inductive sys_step ::
    "config \<Rightarrow> ('k, 'p) env set \<Rightarrow> ('c \<Rightarrow> string) \<Rightarrow> 'c system \<Rightarrow> 'c system \<Rightarrow> bool"
  for cfg envs host where
  visit: "sys_step cfg envs host s (set_mux s (mux_handle host (sys_mux s) conn d1 vr d2))"
| take: "listener_Accept (sys_mux s) 0 d = (Some r, m) \<Longrightarrow> sys_step cfg envs host s (set_mux s m)"
| request: "env \<in> envs \<Longrightarrow> connection_handler cfg env req (srv s) = (evs, out, s') \<Longrightarrow>
     out = Finished \<or> out = HandlerPanics \<Longrightarrow> sys_step cfg envs host s (s\<lparr>srv := s'\<rparr>)"
| serve: "env \<in> envs \<Longrightarrow> connection_handler cfg env req (srv s) = (evs, Serving sess pl pub sub gcm, s') \<Longrightarrow>
     sys_step cfg envs host s (s\<lparr>srv := s', tunnels := tunnels s @ [new_tunnel req sess pl pub sub]\<rparr>)"
| session: "i < length (tunnels s) \<Longrightarrow> session_step (t_sess (tunnels s ! i)) c \<Longrightarrow>
     length (heap (snd c)) + 1 < 2 ^ 32 \<Longrightarrow>
     sys_step cfg envs host s (set_tunnel s i ((tunnels s ! i)\<lparr>t_sess := c\<rparr>))"
| loop: "i < length (tunnels s) \<Longrightarrow>
     hc_step (connectionLimits cfg (t_sub (tunnels s ! i))) (t_hc (tunnels s ! i)) h \<Longrightarrow>
     (phase (t_hc (tunnels s ! i)) = Admitted \<longrightarrow> phase h = Admitted) \<Longrightarrow>
     sys_step cfg envs host s (set_tunnel s i ((tunnels s ! i)\<lparr>t_hc := h\<rparr>))"
| accept: "i < length (tunnels s) \<Longrightarrow> phase (t_hc (tunnels s ! i)) = Admitted \<Longrightarrow>
     listener_Accept (sys_mux s) (t_pl (tunnels s ! i)) d = (Some r, m) \<Longrightarrow>
     sys_step cfg envs host s
       (set_mux (set_tunnel s i ((tunnels s ! i)\<lparr>t_hc := hc_accept r (t_hc (tunnels s ! i))\<rparr>)) m)"
| finish: "i < length (tunnels s) \<Longrightarrow> \<not> t_ended (tunnels s ! i) \<Longrightarrow>
     session_Wait (snd (t_sess (tunnels s ! i))) \<noteq> None \<Longrightarrow>
     handler_end (t_req (tunnels s ! i)) (snd (t_sess (tunnels s ! i))) (t_pl (tunnels s ! i)) (srv s) = (sess, s') \<Longrightarrow>
     sys_step cfg envs host s
       ((set_tunnel s i ((tunnels s ! i)\<lparr>t_sess := (fst (t_sess (tunnels s ! i)), sess), t_ended := True\<rparr>))
          \<lparr>srv := s'\<rparr>)"
| hang_up: "main_round (sys_mux s) = Some (conn, m) \<Longrightarrow>
     sys_step cfg envs host s
       (set_mux (s\<lparr>hung_up := hung_up s @ (case conn of None \<Rightarrow> [] | Some c \<Rightarrow> [c])\<rparr>) m)"

text \<open>\<open>log.Fatalf\<close> in a connection loop ends the process.\<close>

definition running :: "'c system \<Rightarrow> bool" where
  "running s \<longleftrightarrow> (\<forall>t \<in> set (tunnels s). phase (t_hc t) \<noteq> ProcessExit)"

inductive sys_reachable ::
    "config \<Rightarrow> ('k, 'p) env set \<Rightarrow> ('c \<Rightarrow> string) \<Rightarrow> 'c system \<Rightarrow> bool"
  for cfg envs host where
  start: "server_start None (Inr cfg) None = Inr (cfg, l, sv) \<Longrightarrow>
     sys_reachable cfg envs host \<lparr>srv = sv, tunnels = [], hung_up = []\<rparr>"
| step: "sys_reachable cfg envs host s \<Longrightarrow> running s \<Longrightarrow> sys_step cfg envs host s s' \<Longrightarrow>
     sys_reachable cfg envs host s'"

section \<open>What the calls do to the muxer\<close>

text \<open>Names that are not wildcards.\<close>

definition plain :: "string \<Rightarrow> bool" where
  "plain n \<longleftrightarrow> take 1 n \<noteq> ''*''"

lemma plain_not_wildcard: "plain n \<Longrightarrow> n \<noteq> wildcard d"
  by (auto simp: plain_def wildcard_def)

lemma plain_take: "plain n \<Longrightarrow> plain (take k n)"
  by (cases k; cases n) (auto simp: plain_def)

lemma lower_star: "lower_char c = CHR ''*'' \<longleftrightarrow> c = CHR ''*''"
proof
  assume a: "lower_char c = CHR ''*''"
  have "of_char (char_of (of_char c + 32 :: nat)) \<noteq> (42 :: nat)" if "65 \<le> (of_char c :: nat)" "of_char c \<le> (90 :: nat)"
    using that by simp
  then have "char_of (of_char c + 32 :: nat) \<noteq> CHR ''*''" if "65 \<le> (of_char c :: nat)" "of_char c \<le> (90 :: nat)"
    using that by fastforce
  with a show "c = CHR ''*''" by (auto simp: lower_char_def Let_def split: if_splits)
qed (simp add: lower_char_def)

lemma plain_normalize: "plain (normalize n) \<longleftrightarrow> plain n"
  by (cases n) (auto simp: plain_def normalize_def lower_star)

lemma subdomain_start: "NewSubdomain rnd u = Some d \<Longrightarrow> \<exists>x. d = ''T'' @ x"
  by (auto simp: NewSubdomain_def bind_eq_Some_conv)

lemma public_host_plain: "NewSubdomain rnd u = Some d \<Longrightarrow> plain (public_host cfg d)"
proof -
  assume "NewSubdomain rnd u = Some d"
  then have "plain (JoinHostPort (d @ Host cfg) (Port cfg))"
    using subdomain_start [of rnd u d] by (auto simp: JoinHostPort_def plain_def)
  then show ?thesis using plain_take by (simp add: public_host_def TrimSuffix_def)
qed

lemma get_plain:
  assumes "mux_inv m" "mux_get (registry m) n = Some l" "plain (lname (listeners m ! l))"
  shows "lname (listeners m ! l) = n"
proof -
  have "first_bound reg ns = Some l \<Longrightarrow> \<exists>x \<in> set ns. reg x = Some l" for reg ns
    by (induction ns) (auto split: option.splits)
  from this [OF assms(2) [unfolded mux_get_spec]]
  obtain x where x: "x = n \<or> (\<exists>d. x = wildcard d)" "registry m x = Some l" by auto
  then have "lname (listeners m ! l) = x" using assms(1) by (simp add: mux_inv_def)
  then show ?thesis using x(1) assms(3) plain_not_wildcard by blast
qed

lemma mux_handle_effect:
  "listeners (mux_handle host m conn d1 vr d2) = listeners m"
  "registry (mux_handle host m conn d1 vr d2) = registry m"
  "x \<in> set (sending (mux_handle host m conn d1 vr d2)) \<Longrightarrow> x \<in> set (sending m)
     \<or> (\<exists>l v. x = (l, v, conn) \<and> mux_get (registry m) (normalize (host v)) = Some l)"
  by (auto simp: mux_handle_def handle_body_def Let_def split: option.splits vhost_result.splits if_splits)

lemma Accept_effect:
  assumes "listener_Accept m l d = (r, m')"
  shows "listeners m' = listeners m \<and> registry m' = registry m \<and> set (sending m') \<subseteq> set (sending m)
    \<and> (\<forall>v. r = Some (Inr v) \<longrightarrow> (\<exists>c. (l, v, c) \<in> set (sending m)))"
proof (cases "filter (\<lambda>x. fst x = l) (sending m)")
  case Nil
  with assms show ?thesis by (auto simp: listener_Accept_def split: if_splits)
next
  case (Cons x xs)
  then have "x \<in> set (filter (\<lambda>x. fst x = l) (sending m))" by simp
  then have "x \<in> set (sending m)" "fst x = l" by auto
  with assms Cons show ?thesis
    by (cases x) (auto simp: listener_Accept_def dest: subsetD [OF set_remove1_subset])
qed

lemma main_round_effect:
  "main_round m = Some (c, m') \<Longrightarrow> listeners m' = listeners m \<and> registry m' = registry m \<and> sending m' = sending m"
  by (auto simp: main_round_def NextError_def split: list.splits)

lemma main_round_step: "main_round m = Some (c, m') \<Longrightarrow> mux_step host m m'"
  by (auto simp: main_round_def split: option.splits prod.splits intro: mux_step.next_error)

lemma Close_effect:
  "listeners (listener_Close m l d) = (if closeOnce (listeners m ! l) then listeners m
     else (listeners m)[l := (listeners m ! l)\<lparr>closeOnce := True, accept_closed := True\<rparr>])"
  "set (sending (listener_Close m l d)) \<subseteq> set (sending m)"
  by (auto simp: listener_Close_def Let_def)

text \<open>What a request does: it opens a listener under its public host, and closes it unless it is served.\<close>

lemma handler_vmux:
  assumes "connection_handler cfg env req s = (evs, out, s')"
  shows "(vmux s' = vmux s \<and> (\<forall>sess pl pub sub g. out \<noteq> Serving sess pl pub sub g))
    \<or> (\<exists>pub pl m. mux_Listen (vmux s) pub = (Inr pl, m) \<and> plain (normalize pub)
        \<and> (case out of
             Serving sess pl' pub' sub g \<Rightarrow> vmux s' = m \<and> pl' = pl \<and> pub' = pub
           | Exited t \<Rightarrow> True
           | _ \<Rightarrow> vmux s' = listener_Close m pl (\<lambda>_. None)))"
  using assms
proof (cases rule: handler_cases)
  case (tunnel sub host pl m d)
  then have "plain (normalize host)" using public_host_plain plain_normalize by metis
  with open_tunnel_finished [OF tunnel(3)] tunnel(2) show ?thesis
    by (intro disjI2 exI [of _ host] exI [of _ pl] exI [of _ m]) (auto split: outcome.splits)
qed auto

lemma handler_session:
  assumes "connection_handler cfg env req s = (evs, Serving sess pl pub sub gcm, s')"
  shows "\<exists>conn. Hijack env = Inr conn \<and> session_New (Some conn) = Some sess"
  using assms
proof (cases rule: handler_cases)
  case (tunnel sub' host pl' m d)
  then show ?thesis
    by (auto simp: open_tunnel_def key_exchange_def Let_def
        split: option.splits sum.splits prod.splits exchanged.splits if_splits)
qed auto

section \<open>The invariant\<close>

text \<open>The connections a tunnel's loop has accepted.\<close>

definition taken :: "'c hc \<Rightarrow> 'c set" where
  "taken h = set (hserved h) \<union> set (hclosed h) \<union> (case phase h of Accepted v \<Rightarrow> {v} | _ \<Rightarrow> {})"

definition tunnel_ok :: "config \<Rightarrow> ('c \<Rightarrow> string) \<Rightarrow> listener list \<Rightarrow> 'c tunnel \<Rightarrow> bool" where
  "tunnel_ok cfg host ls t \<longleftrightarrow>
     t_pl t \<noteq> 0 \<and> t_pl t < length ls \<and> lname (ls ! t_pl t) = normalize (t_pub t) \<and> plain (normalize (t_pub t))
     \<and> (accept_closed (ls ! t_pl t) \<longleftrightarrow> t_ended t) \<and> session_reachable (t_sess t)
     \<and> hc_reachable (connectionLimits cfg (t_sub t)) (t_hc t)
     \<and> (\<forall>v \<in> taken (t_hc t). normalize (host v) = normalize (t_pub t))"

definition sending_ok :: "('c \<Rightarrow> string) \<Rightarrow> 'c mux \<Rightarrow> bool" where
  "sending_ok host m \<longleftrightarrow> (\<forall>l v c. (l, v, c) \<in> set (sending m) \<longrightarrow> plain (lname (listeners m ! l)) \<longrightarrow>
     normalize (host v) = lname (listeners m ! l))"

definition listeners_ok :: "config \<Rightarrow> listener list \<Rightarrow> nat set \<Rightarrow> bool" where
  "listeners_ok cfg ls pls \<longleftrightarrow>
     ls \<noteq> [] \<and> \<not> accept_closed (ls ! 0) \<and> lname (ls ! 0) = normalize (JoinHostPort (Host cfg) (Port cfg))
     \<and> (\<forall>l < length ls. l \<noteq> 0 \<longrightarrow> \<not> accept_closed (ls ! l) \<longrightarrow> l \<in> pls)"

definition sys_inv :: "config \<Rightarrow> ('c \<Rightarrow> string) \<Rightarrow> 'c system \<Rightarrow> bool" where
  "sys_inv cfg host s \<longleftrightarrow>
     mux_reachable host (sys_mux s) \<and> sending_ok host (sys_mux s)
     \<and> listeners_ok cfg (listeners (sys_mux s)) (t_pl ` set (tunnels s))
     \<and> (\<forall>t \<in> set (tunnels s). tunnel_ok cfg host (listeners (sys_mux s)) t)
     \<and> distinct (map t_pl (tunnels s))"

lemma set_simps [simp]:
  "sys_mux (set_mux s m) = m" "tunnels (set_mux s m) = tunnels s" "srv (set_tunnel s i t) = srv s"
  "tunnels (set_tunnel s i t) = (tunnels s)[i := t]"
  by (simp_all add: set_mux_def set_tunnel_def)

lemma sending_ok_subset:
  assumes "sending_ok host m" "set (sending m') \<subseteq> set (sending m)"
    and "\<And>k. lname (listeners m' ! k) = lname (listeners m ! k)"
  shows "sending_ok host m'"
  using assms(1,2) unfolding sending_ok_def assms(3) by blast

lemma sending_ok_handle:
  assumes "mux_inv m" "sending_ok host m"
  shows "sending_ok host (mux_handle host m conn d1 vr d2)"
  unfolding sending_ok_def mux_handle_effect(1)
proof (intro allI impI)
  fix l v c assume "(l, v, c) \<in> set (sending (mux_handle host m conn d1 vr d2))"
    and p: "plain (lname (listeners m ! l))"
  then consider "(l, v, c) \<in> set (sending m)" | "mux_get (registry m) (normalize (host v)) = Some l"
    using mux_handle_effect(3) [of "(l, v, c)" host m conn d1 vr d2] by auto
  then show "normalize (host v) = lname (listeners m ! l)"
    using assms p get_plain [OF assms(1), of "normalize (host v)" l] by cases (auto simp: sending_ok_def)
qed

text \<open>A step of the muxer that leaves the listeners alone.\<close>

lemma sys_inv_mux:
  "sys_inv cfg host s \<Longrightarrow> mux_step host (sys_mux s) m \<Longrightarrow> listeners m = listeners (sys_mux s) \<Longrightarrow>
     sending_ok host m \<Longrightarrow> sys_inv cfg host (set_mux s m)"
  using mux_reachable.step [of host "sys_mux s" m] by (simp add: sys_inv_def)

text \<open>A step of one tunnel that keeps its place.\<close>

lemma sys_inv_tunnel:
  assumes "sys_inv cfg host s" "i < length (tunnels s)"
    and "t_pl t = t_pl (tunnels s ! i)" "tunnel_ok cfg host (listeners (sys_mux s)) t"
  shows "sys_inv cfg host (set_tunnel s i t)"
proof -
  have pls: "map t_pl ((tunnels s)[i := t]) = map t_pl (tunnels s)"
    using assms(2,3) by (simp add: map_update list_update_same_conv)
  then have "t_pl ` set ((tunnels s)[i := t]) = t_pl ` set (tunnels s)"
    by (metis list.set_map)
  moreover have "\<forall>x \<in> set ((tunnels s)[i := t]). tunnel_ok cfg host (listeners (sys_mux s)) x"
    using assms(1,4) by (auto simp: sys_inv_def dest: subsetD [OF set_update_subset_insert])
  ultimately show ?thesis using assms(1) pls by (simp add: sys_inv_def)
qed

lemma tunnel_ok_at:
  "sys_inv cfg host s \<Longrightarrow> i < length (tunnels s) \<Longrightarrow>
     tunnel_ok cfg host (listeners (sys_mux s)) (tunnels s ! i)"
  by (simp add: sys_inv_def)

lemma hc_step_taken:
  "hc_step limit h h' \<Longrightarrow> (phase h = Admitted \<longrightarrow> phase h' = Admitted) \<Longrightarrow> taken h' \<subseteq> taken h"
  by (erule hc_step.cases)
    (auto simp: taken_def hc_check_def hc_admit_def hc_accept_def hc_open_def hc_done_def split: sum.splits if_splits)

lemma taken_accept: "phase h = Admitted \<Longrightarrow> taken (hc_accept r h) = taken h \<union> (case r of Inr v \<Rightarrow> {v} | Inl e \<Rightarrow> {})"
  by (auto simp: taken_def hc_accept_def split: sum.splits)

text \<open>A new listener, closed again or not.\<close>

lemma sys_inv_listen:
  assumes "sys_inv cfg host s" "mux_Listen (sys_mux s) pub = (Inr pl, m)"
  shows "mux_reachable host m" "pl = length (listeners (sys_mux s))"
    "listeners m = listeners (sys_mux s) @ [\<lparr>lname = normalize pub, accept_closed = False, closeOnce = False\<rparr>]"
    "sending_ok host m"
    "t \<in> set (tunnels s) \<Longrightarrow> t_pl t < pl"
proof -
  have inv: "mux_reachable host (sys_mux s)" "sending_ok host (sys_mux s)"
    using assms(1) by (simp_all add: sys_inv_def)
  show "mux_reachable host m" using inv(1) mux_step.listen [OF assms(2)] by (rule mux_reachable.step)
  note r = Listen_result [OF assms(2)]
  then show "pl = length (listeners (sys_mux s))"
    "listeners m = listeners (sys_mux s) @ [\<lparr>lname = normalize pub, accept_closed = False, closeOnce = False\<rparr>]"
    by auto
  have "\<forall>x \<in> set (sending (sys_mux s)). fst x < length (listeners (sys_mux s))"
    using mux_reachable_inv [OF inv(1)] by (auto simp: mux_inv_def open_listener_def)
  then show "sending_ok host m"
    using inv(2) r by (fastforce simp: sending_ok_def nth_append)
  show "t \<in> set (tunnels s) \<Longrightarrow> t_pl t < pl"
    using assms(1) r by (auto simp: sys_inv_def tunnel_ok_def)
qed

lemma tunnel_ok_append:
  "tunnel_ok cfg host ls t \<Longrightarrow> tunnel_ok cfg host (ls @ xs) t"
  by (auto simp: tunnel_ok_def nth_append)

section \<open>The steps keep the invariant\<close>

lemma sys_inv_refused:
  assumes inv: "sys_inv cfg host s"
    and l: "mux_Listen (sys_mux s) pub = (Inr pl, m)" and m': "vmux sv = listener_Close m pl d"
  shows "sys_inv cfg host (s\<lparr>srv := sv\<rparr>)"
proof -
  note n = sys_inv_listen [OF inv l]
  let ?ls = "listeners (sys_mux s)"
  have ls: "listeners (vmux sv) = ?ls @ [\<lparr>lname = normalize pub, accept_closed = True, closeOnce = True\<rparr>]"
    unfolding m' Close_effect(1) n(2,3) by simp
  have "mux_reachable host (vmux sv)"
    unfolding m' by (rule mux_reachable.step [OF n(1) mux_step.close]) (simp add: n(2,3))
  moreover have "lname (listeners (vmux sv) ! k) = lname (listeners m ! k)" for k
    unfolding ls n(3) by (cases "k - length ?ls") (auto simp: nth_append)
  then have "sending_ok host (vmux sv)"
    using n(4) Close_effect(2) [of m pl d] m' by (metis sending_ok_subset)
  moreover have "listeners_ok cfg (listeners (vmux sv)) (t_pl ` set (tunnels s))"
    using inv by (auto simp: sys_inv_def listeners_ok_def ls nth_append less_Suc_eq)
  ultimately show ?thesis
    using inv by (simp add: sys_inv_def ls tunnel_ok_append)
qed

lemma sys_inv_served:
  assumes inv: "sys_inv cfg host s"
    and l: "mux_Listen (sys_mux s) pub = (Inr pl, vmux sv)" "plain (normalize pub)"
    and sess: "session_New (Some conn) = Some sess"
  shows "sys_inv cfg host (s\<lparr>srv := sv, tunnels := tunnels s @ [new_tunnel req sess pl pub sub]\<rparr>)"
proof -
  note n = sys_inv_listen [OF inv l(1)]
  let ?ls = "listeners (sys_mux s)" and ?t = "new_tunnel req sess pl pub sub :: 'a tunnel"
  have "pl \<noteq> 0" using inv n(2) by (auto simp: sys_inv_def listeners_ok_def)
  then have t: "tunnel_ok cfg host (listeners (vmux sv)) ?t"
    using n(2,3) l(2) session_reachable.start [OF sess] hc_reachable.start
    by (simp add: tunnel_ok_def new_tunnel_def taken_def hc_start_def [symmetric])
      (simp add: hc_start_def)
  have "listeners_ok cfg (listeners (vmux sv)) (t_pl ` set (tunnels s @ [?t]))"
    using inv n(2,3) by (auto simp: sys_inv_def listeners_ok_def nth_append less_Suc_eq new_tunnel_def)
  moreover have "distinct (map t_pl (tunnels s @ [?t]))"
    using inv n(5) by (fastforce simp: sys_inv_def new_tunnel_def)
  moreover have "tunnel_ok cfg host (listeners (vmux sv)) x" if "x \<in> set (tunnels s)" for x
    unfolding n(3) using inv that by (intro tunnel_ok_append) (simp add: sys_inv_def)
  ultimately show ?thesis
    using n(1,4) t by (simp add: sys_inv_def)
qed

lemma sys_inv_request:
  assumes inv: "sys_inv cfg host s" and h: "connection_handler cfg env req (srv s) = (evs, out, sv)"
  shows "out = Finished \<or> out = HandlerPanics \<Longrightarrow> sys_inv cfg host (s\<lparr>srv := sv\<rparr>)"
    and "out = Serving sess pl pub sub gcm \<Longrightarrow>
      sys_inv cfg host (s\<lparr>srv := sv, tunnels := tunnels s @ [new_tunnel req sess pl pub sub]\<rparr>)"
proof -
  show "sys_inv cfg host (s\<lparr>srv := sv\<rparr>)" if "out = Finished \<or> out = HandlerPanics"
    using handler_vmux [OF h]
  proof (elim disjE conjE exE)
    assume "vmux sv = sys_mux s"
    then show ?thesis using inv by (simp add: sys_inv_def)
  next
    fix pub pl m assume l: "mux_Listen (sys_mux s) pub = (Inr pl, m)"
      and c: "case out of Serving sess pl' pub' sub g \<Rightarrow> vmux sv = m \<and> pl' = pl \<and> pub' = pub
        | Exited t \<Rightarrow> True | _ \<Rightarrow> vmux sv = listener_Close m pl (\<lambda>_. None)"
    then have "vmux sv = listener_Close m pl (\<lambda>_. None)" using that by auto
    with l show ?thesis by (rule sys_inv_refused [OF inv])
  qed
next
  assume o: "out = Serving sess pl pub sub gcm"
  then have "mux_Listen (sys_mux s) pub = (Inr pl, vmux sv)" "plain (normalize pub)"
    using handler_vmux [OF h] by auto
  then show "sys_inv cfg host (s\<lparr>srv := sv, tunnels := tunnels s @ [new_tunnel req sess pl pub sub]\<rparr>)"
    using sys_inv_served [OF inv] handler_session [of cfg env req "srv s" evs sess pl pub sub gcm sv] h o
    by blast
qed

lemma sys_inv_accept:
  assumes inv: "sys_inv cfg host s" and i: "i < length (tunnels s)"
    and ph: "phase (t_hc (tunnels s ! i)) = Admitted"
    and a: "listener_Accept (sys_mux s) (t_pl (tunnels s ! i)) d = (Some r, m)"
  shows "sys_inv cfg host (set_mux (set_tunnel s i ((tunnels s ! i)\<lparr>t_hc := hc_accept r (t_hc (tunnels s ! i))\<rparr>)) m)"
proof -
  let ?t = "tunnels s ! i" and ?m = "sys_mux s"
  note t = tunnel_ok_at [OF inv i] and e = Accept_effect [OF a]
  have "normalize (host v) = normalize (t_pub ?t)" if "r = Inr v" for v
  proof -
    obtain c where c: "(t_pl ?t, v, c) \<in> set (sending ?m)" using e \<open>r = Inr v\<close> by auto
    have l: "lname (listeners ?m ! t_pl ?t) = normalize (t_pub ?t)" "plain (normalize (t_pub ?t))"
      using t by (simp_all add: tunnel_ok_def)
    have "sending_ok host ?m" using inv by (simp add: sys_inv_def)
    then have "plain (lname (listeners ?m ! t_pl ?t)) \<longrightarrow> normalize (host v) = lname (listeners ?m ! t_pl ?t)"
      using c unfolding sending_ok_def by blast
    with l show ?thesis by simp
  qed
  moreover have "hc_step (connectionLimits cfg (t_sub ?t)) (t_hc ?t) (hc_accept r (t_hc ?t))"
    by (rule hc_step.accept [OF ph])
  ultimately have "tunnel_ok cfg host (listeners ?m) (?t\<lparr>t_hc := hc_accept r (t_hc ?t)\<rparr>)"
    using t ph by (auto simp: tunnel_ok_def taken_accept intro: hc_reachable.step split: sum.splits)
  then have "sys_inv cfg host (set_tunnel s i (?t\<lparr>t_hc := hc_accept r (t_hc ?t)\<rparr>))" (is "sys_inv _ _ ?s")
    by (intro sys_inv_tunnel [OF inv i]) simp_all
  moreover have "mux_step host ?m m"
    by (rule mux_step.accept [OF _ a]) (use t in \<open>simp add: tunnel_ok_def\<close>)
  moreover have "sending_ok host m"
    by (rule sending_ok_subset [of _ ?m]) (use inv e in \<open>simp_all add: sys_inv_def\<close>)
  ultimately show ?thesis using e by (intro sys_inv_mux) simp_all
qed

lemma sys_inv_finish:
  assumes inv: "sys_inv cfg host s" and i: "i < length (tunnels s)" "\<not> t_ended (tunnels s ! i)"
    and h: "handler_end req (snd (t_sess (tunnels s ! i))) (t_pl (tunnels s ! i)) (srv s) = (sess, sv)"
  shows "sys_inv cfg host
    ((set_tunnel s i ((tunnels s ! i)\<lparr>t_sess := (fst (t_sess (tunnels s ! i)), sess), t_ended := True\<rparr>))\<lparr>srv := sv\<rparr>)"
proof -
  let ?t = "tunnels s ! i" and ?m = "sys_mux s"
  let ?t' = "?t\<lparr>t_sess := (fst (t_sess ?t), sess), t_ended := True\<rparr>"
  let ?l = "t_pl ?t" and ?ls = "listeners ?m"
  note t = tunnel_ok_at [OF inv i(1)]
  have m: "vmux sv = listener_Close ?m ?l (\<lambda>_. None)" and sess: "sess = session_Close (snd (t_sess ?t))"
    using h by (auto simp: handler_end_def)
  have "\<not> closeOnce (?ls ! ?l)"
    using t i(2) mux_reachable_inv [of host ?m] inv by (auto simp: sys_inv_def mux_inv_def tunnel_ok_def)
  then have ls: "listeners (vmux sv) = ?ls[?l := (?ls ! ?l)\<lparr>closeOnce := True, accept_closed := True\<rparr>]"
    by (simp add: m Close_effect)
  have r: "mux_reachable host (vmux sv)"
    unfolding m by (rule mux_reachable.step [OF _ mux_step.close])
      (use inv t in \<open>simp_all add: sys_inv_def tunnel_ok_def\<close>)
  have lname: "lname (listeners (vmux sv) ! k) = lname (?ls ! k)" for k
    unfolding ls by (cases "k = ?l"; cases "?l < length ?ls") (auto simp: list_update_beyond)
  have snd: "sending_ok host (vmux sv)"
    by (rule sending_ok_subset [of _ ?m])
      (use inv lname Close_effect(2) [of ?m ?l] in \<open>simp_all add: sys_inv_def m\<close>)
  have reach: "session_reachable (fst (t_sess ?t), sess)"
  proof -
    have "session_reachable (fst (t_sess ?t), snd (t_sess ?t))" using t by (simp add: tunnel_ok_def)
    then show ?thesis
      unfolding sess using session_reachable_inv [of "(fst (t_sess ?t), snd (t_sess ?t))"]
      by (intro session_reachable.step [OF _ session_step.user_session_close])
        (auto simp: session_Close_def sess_inv_def)
  qed
  have t': "tunnel_ok cfg host (listeners (vmux sv)) ?t'"
    using t reach lname by (simp add: tunnel_ok_def ls)
  have old: "tunnel_ok cfg host (listeners (vmux sv)) x" if "x \<in> set (tunnels s)" "t_pl x \<noteq> ?l" for x
    using inv that lname by (auto simp: sys_inv_def tunnel_ok_def ls)
  have pls: "map t_pl ((tunnels s)[i := ?t']) = map t_pl (tunnels s)"
    using i(1) by (simp add: map_update list_update_same_conv)
  have d: "distinct (map t_pl (tunnels s))" using inv by (simp add: sys_inv_def)
  have "tunnel_ok cfg host (listeners (vmux sv)) ((tunnels s)[i := ?t'] ! j)" if "j < length (tunnels s)" for j
  proof (cases "j = i")
    case False
    then have "t_pl (tunnels s ! j) \<noteq> ?l"
      using d that i(1) by (metis length_map nth_eq_iff_index_eq nth_map)
    then show ?thesis using old that False by simp
  qed (use t' i(1) in simp)
  then have "\<forall>x \<in> set ((tunnels s)[i := ?t']). tunnel_ok cfg host (listeners (vmux sv)) x"
    by (auto simp: in_set_conv_nth)
  moreover have "listeners_ok cfg (listeners (vmux sv)) (t_pl ` set ((tunnels s)[i := ?t']))"
  proof -
    have "t_pl ` set ((tunnels s)[i := ?t']) = t_pl ` set (tunnels s)" using pls by (metis list.set_map)
    then show ?thesis
      using inv t lname unfolding listeners_ok_def sys_inv_def tunnel_ok_def
      by (auto simp: ls nth_list_update split: if_splits)
  qed
  ultimately show ?thesis
    using r snd d pls by (simp add: sys_inv_def)
qed

lemma sys_step_inv:
  assumes "sys_step cfg envs host s s'" "sys_inv cfg host s"
  shows "sys_inv cfg host s'"
  using assms(1)
proof (cases rule: sys_step.cases)
  case (visit conn d1 vr d2)
  have "mux_reachable host (sys_mux s)" "sending_ok host (sys_mux s)"
    using assms(2) by (simp_all add: sys_inv_def)
  then have "sending_ok host (mux_handle host (sys_mux s) conn d1 vr d2)"
    by (intro sending_ok_handle) (rule mux_reachable_inv)
  then show ?thesis unfolding visit
    by (rule sys_inv_mux [OF assms(2) mux_step.handle mux_handle_effect(1)])
next
  case (take d r m)
  note e = Accept_effect [OF take(2)]
  have "sending_ok host m"
    by (rule sending_ok_subset [of _ "sys_mux s"]) (use assms(2) e in \<open>simp_all add: sys_inv_def\<close>)
  moreover have "0 < length (listeners (sys_mux s))" using assms(2) by (auto simp: sys_inv_def listeners_ok_def)
  ultimately show ?thesis unfolding take
    using e by (intro sys_inv_mux [OF assms(2) mux_step.accept [OF _ take(2)]]) simp_all
next
  case (request env req evs out sv)
  show ?thesis unfolding request by (rule sys_inv_request(1) [OF assms(2) request(3,4)])
next
  case (serve env req evs sess pl pub sub gcm sv)
  show ?thesis unfolding serve by (rule sys_inv_request(2) [OF assms(2) serve(3)]) simp
next
  case (session i c)
  have "tunnel_ok cfg host (listeners (sys_mux s)) ((tunnels s ! i)\<lparr>t_sess := c\<rparr>)"
    using tunnel_ok_at [OF assms(2) session(2)] session_reachable.step [OF _ session(3,4)]
    by (simp add: tunnel_ok_def)
  then show ?thesis unfolding session by (intro sys_inv_tunnel [OF assms(2) session(2)]) simp_all
next
  case (loop i h)
  have "tunnel_ok cfg host (listeners (sys_mux s)) ((tunnels s ! i)\<lparr>t_hc := h\<rparr>)"
    using tunnel_ok_at [OF assms(2) loop(2)] hc_reachable.step [OF _ loop(3)] hc_step_taken [OF loop(3,4)]
    by (auto simp: tunnel_ok_def)
  then show ?thesis unfolding loop by (intro sys_inv_tunnel [OF assms(2) loop(2)]) simp_all
next
  case (accept i d r m)
  show ?thesis unfolding accept by (rule sys_inv_accept [OF assms(2) accept(2-4)])
next
  case (finish i sess sv)
  show ?thesis unfolding finish by (rule sys_inv_finish [OF assms(2) finish(2,3,5)])
next
  case (hang_up conn m)
  let ?s = "s\<lparr>hung_up := hung_up s @ (case conn of None \<Rightarrow> [] | Some c \<Rightarrow> [c])\<rparr>"
  have "sys_inv cfg host ?s" using assms(2) by (simp add: sys_inv_def)
  moreover note e = main_round_effect [OF hang_up(2)]
  moreover have "sending_ok host m"
    by (rule sending_ok_subset [of _ "sys_mux s"]) (use assms(2) e in \<open>simp_all add: sys_inv_def\<close>)
  ultimately show ?thesis unfolding hang_up
    using main_round_step [OF hang_up(2)] by (intro sys_inv_mux) simp_all
qed

lemma sys_reachable_inv: "sys_reachable cfg envs host s \<Longrightarrow> sys_inv cfg host s"
proof (induction rule: sys_reachable.induct)
  case (start l sv)
  then obtain m where m: "mux_Listen NewVhostMuxer (JoinHostPort (Host cfg) (Port cfg)) = (Inr l, m)"
    "sv = \<lparr>vmux = m, clients = (\<lambda>_. None)\<rparr>"
    by (auto simp: server_start_def Fatal_def split: prod.splits sum.splits)
  have "mux_reachable host m" by (rule mux_reachable.step [OF mux_reachable.new mux_step.listen [OF m(1)]])
  with Listen_result [OF m(1)] show ?case
    by (simp add: sys_inv_def m(2) sending_ok_def listeners_ok_def NewVhostMuxer_def)
next
  case (step s s')
  show ?case using sys_step_inv [OF step.hyps(3) step.IH] .
qed

lemma sys_registry:
  assumes "sys_inv cfg host s"
  shows "registry (sys_mux s) n = Some l \<longleftrightarrow>
    l = 0 \<and> n = normalize (JoinHostPort (Host cfg) (Port cfg))
    \<or> (\<exists>t \<in> set (tunnels s). \<not> t_ended t \<and> l = t_pl t \<and> n = normalize (t_pub t))"
proof -
  let ?ls = "listeners (sys_mux s)"
  have inv: "mux_reachable host (sys_mux s)" "listeners_ok cfg ?ls (t_pl ` set (tunnels s))"
    "\<forall>t \<in> set (tunnels s). tunnel_ok cfg host ?ls t"
    using assms by (simp_all add: sys_inv_def)
  have "registry (sys_mux s) n = Some l \<longleftrightarrow> l < length ?ls \<and> \<not> accept_closed (?ls ! l) \<and> lname (?ls ! l) = n"
    using mux_reachable_inv [OF inv(1)] by (auto simp: mux_inv_def open_listener_def)
  also have "\<dots> \<longleftrightarrow> l = 0 \<and> n = normalize (JoinHostPort (Host cfg) (Port cfg))
    \<or> (\<exists>t \<in> set (tunnels s). \<not> t_ended t \<and> l = t_pl t \<and> n = normalize (t_pub t))"
  proof (cases "l = 0")
    case True
    then show ?thesis using inv(2,3) by (auto simp: listeners_ok_def tunnel_ok_def)
  next
    case False
    have "\<exists>t \<in> set (tunnels s). l = t_pl t" if "l < length ?ls" "\<not> accept_closed (?ls ! l)"
      using inv(2) that False by (auto simp: listeners_ok_def)
    moreover have "t_pl t < length ?ls \<and> lname (?ls ! t_pl t) = normalize (t_pub t)
        \<and> (accept_closed (?ls ! t_pl t) \<longleftrightarrow> t_ended t)" if "t \<in> set (tunnels s)" for t
      using inv(3) that by (auto simp: tunnel_ok_def)
    ultimately show ?thesis using False by metis
  qed
  finally show ?thesis .
qed

text \<open>A visitor of a tunnel that is up.\<close>

lemma tunnel_offered:
  assumes "sys_inv cfg host s" "t \<in> set (tunnels s)" "\<not> t_ended t" "normalize (host v) = normalize (t_pub t)"
  shows "sending (mux_handle host (sys_mux s) conn None (VConn v) d2) = sending (sys_mux s) @ [(t_pl t, v, conn)]"
proof -
  have "registry (sys_mux s) (normalize (host v)) = Some (t_pl t)"
    using sys_registry [OF assms(1), of "normalize (host v)" "t_pl t"] assms(2-4) by auto
  moreover have "\<not> accept_closed (listeners (sys_mux s) ! t_pl t)"
    using assms by (simp add: sys_inv_def tunnel_ok_def)
  ultimately show ?thesis using mux_handle_offer [of "sys_mux s" host v] by simp
qed

lemma tunnel_session:
  "sys_inv cfg host s \<Longrightarrow> t \<in> set (tunnels s) \<Longrightarrow>
     core_inv (snd (t_sess t)) \<and> length (heap (snd (t_sess t))) + 1 < 2 ^ 32"
  using session_reachable_inv [of "(fst (t_sess t), snd (t_sess t))"]
  by (auto simp: sys_inv_def tunnel_ok_def sess_inv_def)

section \<open>Properties\<close>

text \<open>A server with one tunnel and one visitor, whose connection the tunnel's loop has accepted.\<close>

definition started_server :: "string server" where
  "started_server = \<lparr>vmux = snd (mux_Listen NewVhostMuxer ''teleport.me:9999''), clients = (\<lambda>_. None)\<rparr>"

lemma started_reachable:
  "sys_reachable sample_config {sample_env} (\<lambda>v. v) \<lparr>srv = started_server, tunnels = [], hung_up = []\<rparr>"
  by (rule sys_reachable.start [of _ 0])
    (simp add: server_start_def Fatal_def sample_config_def JoinHostPort_def started_server_def
      mux_Listen_def mux_set_def NewVhostMuxer_def Let_def)

abbreviation sample_pub :: string where
  "sample_pub \<equiv> ''Teleport_ann_aaaaaaaaaa.teleport.me:9999''"

lemma sample_subdomain:
  "NewSubdomain (random sample_env) ''ann'' = Some ''Teleport_ann_aaaaaaaaaa.''"
  "public_host sample_config ''Teleport_ann_aaaaaaaaaa.'' = sample_pub"
  "normalize sample_pub = ''teleport_ann_aaaaaaaaaa.teleport.me:9999''"
  "normalize ''teleport.me:9999'' = ''teleport.me:9999''"
proof -
  have "NewSubdomain (Some (replicate 10 0)) ''ann'' = Some ''Teleport_ann_aaaaaaaaaa.''" by code_simp
  then show "NewSubdomain (random sample_env) ''ann'' = Some ''Teleport_ann_aaaaaaaaaa.''"
    by (simp add: sample_env_def)
  show "public_host sample_config ''Teleport_ann_aaaaaaaaaa.'' = sample_pub" by code_simp
  show "normalize sample_pub = ''teleport_ann_aaaaaaaaaa.teleport.me:9999''" by code_simp
  show "normalize ''teleport.me:9999'' = ''teleport.me:9999''" by code_simp
qed

lemma sample_serves:
  assumes "mux_Listen (vmux s) sample_pub = (Inr pl, m)"
  shows "\<exists>evs sess s'. connection_handler sample_config sample_env (sample_request ''04'') s
      = (evs, Serving sess pl sample_pub ''free'' sample_aead, s') \<and> vmux s' = m"
proof -
  have "hex_decode ''04'' = Some [4]" by code_simp
  then have "\<exists>sess. key_exchange sample_env () (sample_request ''04'') = ([], KReady sess sample_aead)"
    by (simp add: key_exchange_def sample_request_def) (simp add: sample_env_def session_New_def)
  then obtain sess where k: "key_exchange sample_env () (sample_request ''04'') = ([], KReady sess sample_aead)" ..
  have "X_Username (sample_request ''04'') = ''ann''" by (simp add: sample_request_def)
  with k assms sample_signed_in [of "''04''"] sample_subdomain(1,2) show ?thesis
    by (simp add: connection_handler_def signed_in_def Let_def open_tunnel_def sample_details sample_GenerateKey)
qed

lemma sample_listens:
  "mux_Listen (vmux started_server) sample_pub = (Inr 1,
     \<lparr>registry = [''teleport.me:9999'' \<mapsto> 0, ''teleport_ann_aaaaaaaaaa.teleport.me:9999'' \<mapsto> 1],
      listeners = [\<lparr>lname = ''teleport.me:9999'', accept_closed = False, closeOnce = False\<rparr>,
        \<lparr>lname = ''teleport_ann_aaaaaaaaaa.teleport.me:9999'', accept_closed = False, closeOnce = False\<rparr>],
      sending = [], muxErrors = []\<rparr>)"
  by (simp add: started_server_def mux_Listen_def mux_set_def NewVhostMuxer_def Let_def sample_subdomain)

lemma one_tunnel_loop:
  assumes "sys_reachable cfg envs host s" "tunnels s = [t]" "phase (t_hc t) \<noteq> ProcessExit"
    and "hc_step (connectionLimits cfg (t_sub t)) (t_hc t) h" "phase (t_hc t) = Admitted \<longrightarrow> phase h = Admitted"
  shows "sys_reachable cfg envs host (set_tunnel s 0 (t\<lparr>t_hc := h\<rparr>))"
proof (rule sys_reachable.step [OF assms(1)])
  show "running s" using assms(2,3) by (simp add: running_def)
  show "sys_step cfg envs host s (set_tunnel s 0 (t\<lparr>t_hc := h\<rparr>))"
    using sys_step.loop [of 0 s cfg h envs host] assms(2,4,5) by simp
qed

lemma visited_reachable:
  "\<exists>s t v. sys_reachable sample_config {sample_env} (\<lambda>v. v) s \<and> tunnels s = [t]
     \<and> phase (t_hc t) = Accepted v \<and> t_pub t = sample_pub \<and> \<not> t_ended t
     \<and> free_transport (trans (snd (t_sess t)))"
proof -
  let ?R = "sys_reachable sample_config {sample_env} (\<lambda>v :: string. v)"
  note go = sys_reachable.step [where cfg = sample_config and envs = "{sample_env}" and host = "\<lambda>v :: string. v"]
  have lim: "connectionLimits sample_config ''free'' = 2"
    by (simp add: connectionLimits_def sample_config_def)
  obtain evs sess s1 where h: "connection_handler sample_config sample_env (sample_request ''04'') started_server
      = (evs, Serving sess 1 sample_pub ''free'' sample_aead, s1)"
    and m1: "vmux s1 = snd (mux_Listen (vmux started_server) sample_pub)"
    using sample_serves [of started_server 1] sample_listens by force
  have free: "free_transport (trans sess)"
    using handler_session [OF h] by (auto simp: sample_env_def session_New_def free_transport_def)
  let ?t = "new_tunnel (sample_request ''04'') sess 1 sample_pub ''free'' :: string tunnel"
  let ?s1 = "\<lparr>srv = s1, tunnels = [?t], hung_up = []\<rparr> :: string system"
  have "sys_step sample_config {sample_env} (\<lambda>v. v)
      \<lparr>srv = started_server, tunnels = [], hung_up = []\<rparr> ?s1"
    using sys_step.serve [of sample_env "{sample_env}" sample_config "sample_request ''04''"
        "\<lparr>srv = started_server, tunnels = [], hung_up = []\<rparr>"] h by simp
  then have 1: "?R ?s1" by (rule go [OF started_reachable, rotated]) (simp add: running_def)
  let ?v = sample_pub
  let ?m2 = "(vmux s1)\<lparr>sending := [(1, ?v, ?v)]\<rparr>"
  have "mux_handle (\<lambda>v. v) (vmux s1) ?v None (VConn ?v) None = ?m2"
    using mux_handle_offer [of "vmux s1" "\<lambda>v. v" ?v 1 ?v None]
    by (simp add: m1 sample_listens sample_subdomain)
  then have 2: "?R (set_mux ?s1 ?m2)"
    using go [OF 1 _ sys_step.visit [of _ _ _ ?s1 ?v None "VConn ?v" None]]
    by (simp add: running_def new_tunnel_def hc_start_def)
  let ?s2 = "set_mux ?s1 ?m2"
  let ?h1 = "hc_check 2 hc_start :: string hc"
  let ?h2 = "hc_admit None None ?h1"
  let ?s3 = "set_tunnel ?s2 0 (?t\<lparr>t_hc := ?h1\<rparr>)"
  let ?s4 = "set_tunnel ?s3 0 (?t\<lparr>t_hc := ?h2\<rparr>)"
  have ph: "phase ?h1 = Counted" "phase ?h2 = Admitted" "phase (hc_accept (Inr ?v) ?h2) = Accepted ?v"
    by (simp_all add: hc_check_def hc_start_def hc_admit_def hc_accept_def)
  have 3: "?R ?s3"
    using one_tunnel_loop [OF 2, of ?t ?h1] hc_step.check [of "hc_start :: string hc" 2]
    by (simp add: new_tunnel_def lim) (simp add: hc_start_def)
  have 4: "?R ?s4"
    using one_tunnel_loop [OF 3, of "?t\<lparr>t_hc := ?h1\<rparr>" ?h2] hc_step.admit [OF ph(1), of 2 None None] ph
    by (simp add: new_tunnel_def lim)
  have "listener_Accept ?m2 1 (\<lambda>_. None) = (Some (Inr ?v), ?m2\<lparr>sending := []\<rparr>)"
    by (simp add: listener_Accept_def unset_deadline_def)
  then have "sys_step sample_config {sample_env} (\<lambda>v. v) ?s4
      (set_mux (set_tunnel ?s4 0 (?t\<lparr>t_hc := hc_accept (Inr ?v) ?h2\<rparr>)) (?m2\<lparr>sending := []\<rparr>))"
    using sys_step.accept [of 0 ?s4 "\<lambda>_. None" "Inr ?v" "?m2\<lparr>sending := []\<rparr>"] ph(2)
    by (simp add: new_tunnel_def)
  then have "?R (set_mux (set_tunnel ?s4 0 (?t\<lparr>t_hc := hc_accept (Inr ?v) ?h2\<rparr>)) (?m2\<lparr>sending := []\<rparr>))"
    using go [OF 4] ph by (simp add: running_def)
  then show ?thesis
    using ph(3) free by (intro exI [of _ "set_mux (set_tunnel ?s4 0 (?t\<lparr>t_hc := hc_accept (Inr ?v) ?h2\<rparr>)) (?m2\<lparr>sending := []\<rparr>)"]
        exI [of _ "?t\<lparr>t_hc := hc_accept (Inr ?v) ?h2\<rparr>"] exI [of _ ?v])
      (simp add: new_tunnel_def)
qed

text \<open>
  C5: Every tunnel sees its own visitors only.  However visitors, requests, sessions and connection loops
  interleave, whatever public hosts have been given out and taken back, a connection that a tunnel's loop has
  accepted or passed on to the client has asked, up to case, for exactly that tunnel's public host.
\<close>

theorem tunnel_isolation:
  assumes "sys_reachable cfg envs host s" "t \<in> set (tunnels s)"
    and "v \<in> set (hserved (t_hc t)) \<or> phase (t_hc t) = Accepted v"
  shows "normalize (host v) = normalize (t_pub t)"
proof -
  have "tunnel_ok cfg host (listeners (sys_mux s)) t"
    using sys_reachable_inv [OF assms(1)] assms(2) by (simp add: sys_inv_def)
  moreover have "v \<in> taken (t_hc t)" using assms(3) by (auto simp: taken_def)
  ultimately show ?thesis by (simp add: tunnel_ok_def)
qed

theorem tunnel_isolation_witness:
  "\<exists>s t v. sys_reachable sample_config {sample_env} (\<lambda>v. v) s \<and> t \<in> set (tunnels s)
     \<and> phase (t_hc t) = Accepted v \<and> normalize v = normalize sample_pub"
proof -
  obtain s t v where r: "sys_reachable sample_config {sample_env} (\<lambda>v. v) s" "tunnels s = [t]"
    "phase (t_hc t) = Accepted v" "t_pub t = sample_pub"
    using visited_reachable by blast
  then have "t \<in> set (tunnels s)" by simp
  from tunnel_isolation [OF r(1) this, of v] r(3,4) this r(1) show ?thesis by auto
qed

text \<open>
  C17: No host is left dangling and none is given out twice: in every reachable state the names the muxer
  routes are the server's own and the public hosts of the tunnels whose handlers have not returned, each to its
  own listener, and two such tunnels have different public hosts.
\<close>

theorem routed_names_are_live:
  assumes "sys_reachable cfg envs host s"
  shows "(registry (sys_mux s) n = Some l \<longleftrightarrow>
      l = 0 \<and> n = normalize (JoinHostPort (Host cfg) (Port cfg))
      \<or> (\<exists>t \<in> set (tunnels s). \<not> t_ended t \<and> l = t_pl t \<and> n = normalize (t_pub t)))
    \<and> (\<forall>i < length (tunnels s). \<forall>j < length (tunnels s). i \<noteq> j \<longrightarrow>
        \<not> t_ended (tunnels s ! i) \<longrightarrow> \<not> t_ended (tunnels s ! j) \<longrightarrow>
        normalize (t_pub (tunnels s ! i)) \<noteq> normalize (t_pub (tunnels s ! j)))"
proof -
  note inv = sys_reachable_inv [OF assms]
  have "t_pl (tunnels s ! i) = t_pl (tunnels s ! j)"
    if "i < length (tunnels s)" "j < length (tunnels s)" "\<not> t_ended (tunnels s ! i)" "\<not> t_ended (tunnels s ! j)"
      "normalize (t_pub (tunnels s ! i)) = normalize (t_pub (tunnels s ! j))" for i j
    using that sys_registry [OF inv, of "normalize (t_pub (tunnels s ! i))"]
    by (metis nth_mem option.inject)
  moreover have "distinct (map t_pl (tunnels s))" using inv by (simp add: sys_inv_def)
  ultimately show ?thesis
    using sys_registry [OF inv, of n l] by (metis length_map nth_eq_iff_index_eq nth_map)
qed

theorem routed_names_are_live_witness:
  "registry (vmux started_server) ''teleport.me:9999'' = Some 0"
  using routed_names_are_live [OF started_reachable, of "''teleport.me:9999''" 0] sample_subdomain(4)
  by (simp add: sample_config_def JoinHostPort_def)

text \<open>
  A visitor who asks for a host nobody serves is hung up on without a response: \<open>main\<close> does not run the
  muxer's \<open>HandleErrors\<close>, which would answer with status 404, but a loop of its own that closes the connection.
\<close>

theorem unknown_host_hung_up:
  assumes "mux_get (registry m) (normalize (host v)) = None" "muxErrors m = []"
  shows "main_round (mux_handle host m conn None (VConn v) None) = Some (Some v, m)
    \<and> (\<exists>e. NextError (mux_handle host m conn None (VConn v) None) = (Some (Some v, e), m)
        \<and> HandleError (Some v) e = Some [WriteTo v notFound, CloseConn v])"
  using assms
  by (simp add: mux_handle_def handle_body_def Let_def main_round_def NextError_def sendError_def
      unset_deadline_def HandleError_def)

theorem unknown_host_hung_up_witness:
  "fst (the (main_round (mux_handle (\<lambda>v. v) NewVhostMuxer ''a.b'' None (VConn ''a.b'') None))) = Some ''a.b''"
proof -
  have none: "first_bound (\<lambda>_. None) ns = None" for ns by (induction ns) simp_all
  have "mux_get (registry (NewVhostMuxer :: string mux)) (normalize ''a.b'') = None"
    unfolding mux_get_spec using none by (simp add: NewVhostMuxer_def)
  from unknown_host_hung_up [of NewVhostMuxer "\<lambda>v. v" "''a.b''" "''a.b''", OF this]
  show ?thesis by (simp add: NewVhostMuxer_def)
qed

end
