(* ===== verification/Relay.thy ===== *)
theory Relay
  imports Utilities
begin

text \<open>
  \<open>JoinEncrypted\<close> (utilities/assetsFunctions.go): the encrypted relay between a channel and a public
  connection.  Its four loops run on goroutines of their own: two sources that read, encrypt or decrypt and
  send over an unbuffered Go channel, and two sinks that receive and write; the last one is
  the function itself.  The sources share one buffer.  \<open>relay_step\<close> interleaves the loops, one step
  between any two points where another one can run; what a call outside returns is an argument of
  the step.  The lemmas show what each direction of the relay keeps (\<open>lane\<close>), then when the relay closes
  its two ends, and how the shared buffer and the failure paths break it.
\<close>

section \<open>State\<close>

abbreviation relay_bufsize :: nat where "relay_bufsize \<equiv> 4096"

text \<open>
  A source: about to read, with \<open>n\<close> bytes read into the buffer, parked in the send, or returned, by
  which its deferred \<open>close\<close> of the Go channel has run.  A sink: waiting for an item, about to write
  one, returned because a write failed, or past its loop because the Go channel was closed.
\<close>

datatype source = AtRead | HasRead nat | Sending bytes | Returned
datatype sink = Receiving | Got bytes | Broken | Drained

text \<open>
  \<open>ch_got\<close>, \<open>conn_got\<close> are the data successfully read so far, \<open>decrypted\<close> the packets decrypted so far, in
  order; they are not part of the program.  \<open>conn_out\<close>, \<open>ch_out\<close> are the writes that succeeded.
\<close>

record relay =
  rbuffer :: bytes
  ch_src :: source
  conn_src :: source
  conn_snk :: sink
  ch_snk :: sink
  conn_out :: "bytes list"
  ch_out :: "bytes list"
  ch_closed :: bool
  conn_closed :: bool
  ch_got :: "bytes list"
  conn_got :: "bytes list"
  decrypted :: "bytes list"

definition relay_start :: relay where
  "relay_start = \<lparr>rbuffer = make_bytes relay_bufsize, ch_src = AtRead, conn_src = AtRead,
     conn_snk = Receiving, ch_snk = Receiving, conn_out = [], ch_out = [], ch_closed = False,
     conn_closed = False, ch_got = [], conn_got = [], decrypted = []\<rparr>"

section \<open>The four loops\<close>

text \<open>A \<open>Read\<close> stores its data at the front of the buffer, even when it returns an error.\<close>

definition store :: "bytes \<Rightarrow> bytes \<Rightarrow> bytes" where
  "store b d = d @ drop (length d) b"

text \<open>The channel's goroutine: \<open>ch.Read(buffer)\<close>, then the nonce and \<open>Seal\<close> on what the buffer holds by then.\<close>

definition ch_read :: "bytes \<Rightarrow> go_error option \<Rightarrow> relay \<Rightarrow> relay" where
  "ch_read d err s =
     (case err of
        Some e \<Rightarrow> s\<lparr>rbuffer := store (rbuffer s) d, ch_src := Returned\<rparr>
      | None \<Rightarrow> s\<lparr>rbuffer := store (rbuffer s) d, ch_src := HasRead (length d), ch_got := ch_got s @ [d]\<rparr>)"

definition ch_seal :: "aead \<Rightarrow> bytes option \<Rightarrow> nat \<Rightarrow> relay \<Rightarrow> relay" where
  "ch_seal a nonce n s =
     (case nonce of
        None \<Rightarrow> s\<lparr>ch_src := Returned\<rparr>
      | Some nc \<Rightarrow> s\<lparr>ch_src := Sending (nc @ seal a nc (take n (rbuffer s)))\<rparr>)"

text \<open>The connection's goroutine: \<open>conn.Read(buffer)\<close>, then the split into nonce and cipher text and \<open>Open\<close>.\<close>

definition conn_read :: "bytes \<Rightarrow> go_error option \<Rightarrow> relay \<Rightarrow> relay" where
  "conn_read d err s =
     (case err of
        Some e \<Rightarrow> s\<lparr>rbuffer := store (rbuffer s) d, conn_src := Returned\<rparr>
      | None \<Rightarrow> s\<lparr>rbuffer := store (rbuffer s) d, conn_src := HasRead (length d),
                 conn_got := conn_got s @ [d]\<rparr>)"

definition conn_open :: "aead \<Rightarrow> nat \<Rightarrow> relay \<Rightarrow> relay" where
  "conn_open a n s =
     (if n < NonceSize a then s\<lparr>conn_src := Returned\<rparr>
      else (case unseal a (take (NonceSize a) (rbuffer s))
                  (take (n - NonceSize a) (drop (NonceSize a) (rbuffer s))) of
              None \<Rightarrow> s\<lparr>conn_src := Returned\<rparr>
            | Some p \<Rightarrow> s\<lparr>conn_src := Sending p, decrypted := decrypted s @ [p]\<rparr>))"

text \<open>The two sinks: a write that fails ends the loop; the function then returns at once.\<close>

definition conn_write :: "bytes \<Rightarrow> go_error option \<Rightarrow> relay \<Rightarrow> relay" where
  "conn_write p err s =
     (case err of
        Some e \<Rightarrow> s\<lparr>conn_snk := Broken\<rparr>
      | None \<Rightarrow> s\<lparr>conn_snk := Receiving, conn_out := conn_out s @ [p]\<rparr>)"

definition ch_write :: "bytes \<Rightarrow> go_error option \<Rightarrow> relay \<Rightarrow> relay" where
  "ch_write p err s =
     (case err of
        Some e \<Rightarrow> s\<lparr>ch_snk := Broken\<rparr>
      | None \<Rightarrow> s\<lparr>ch_snk := Receiving, ch_out := ch_out s @ [p]\<rparr>)"

text \<open>The end of the function: \<open>ch.Close()\<close> and \<open>conn.Close()\<close>.\<close>

definition close_both :: "relay \<Rightarrow> relay" where
  "close_both s = s\<lparr>ch_snk := Drained, ch_closed := True, conn_closed := True\<rparr>"

inductive relay_step :: "aead \<Rightarrow> relay \<Rightarrow> relay \<Rightarrow> bool" for a where
  ch_read: "ch_src s = AtRead \<Longrightarrow> length d \<le> relay_bufsize \<Longrightarrow> relay_step a s (ch_read d err s)"
| ch_seal: "ch_src s = HasRead n \<Longrightarrow> (\<forall>nc. nonce = Some nc \<longrightarrow> length nc = NonceSize a) \<Longrightarrow>
     relay_step a s (ch_seal a nonce n s)"
| to_conn: "ch_src s = Sending p \<Longrightarrow> conn_snk s = Receiving \<Longrightarrow>
     relay_step a s (s\<lparr>ch_src := AtRead, conn_snk := Got p\<rparr>)"
| conn_write: "conn_snk s = Got p \<Longrightarrow> relay_step a s (conn_write p err s)"
| conn_drained: "ch_src s = Returned \<Longrightarrow> conn_snk s = Receiving \<Longrightarrow>
     relay_step a s (s\<lparr>conn_snk := Drained\<rparr>)"
| conn_read: "conn_src s = AtRead \<Longrightarrow> length d \<le> relay_bufsize \<Longrightarrow> relay_step a s (conn_read d err s)"
| conn_open: "conn_src s = HasRead n \<Longrightarrow> relay_step a s (conn_open a n s)"
| to_ch: "conn_src s = Sending p \<Longrightarrow> ch_snk s = Receiving \<Longrightarrow>
     relay_step a s (s\<lparr>conn_src := AtRead, ch_snk := Got p\<rparr>)"
| ch_write: "ch_snk s = Got p \<Longrightarrow> relay_step a s (ch_write p err s)"
| close_both: "conn_src s = Returned \<Longrightarrow> ch_snk s = Receiving \<Longrightarrow> relay_step a s (close_both s)"

inductive relay_reachable :: "aead \<Rightarrow> relay \<Rightarrow> bool" for a where
  start: "relay_reachable a relay_start"
| step: "relay_reachable a s \<Longrightarrow> relay_step a s s' \<Longrightarrow> relay_reachable a s'"

inductive_cases relay_stepE: "relay_step a s s'"

lemmas relay_defs =
  ch_read_def ch_seal_def conn_read_def conn_open_def conn_write_def ch_write_def close_both_def

section \<open>Runs in which the buffer is left alone\<close>

text \<open>
  A run is tidy if no \<open>Read\<close> stores into the buffer while a goroutine holds data in it that it has not
  looked at yet.
\<close>

fun holds :: "source \<Rightarrow> bool" where
  "holds (HasRead n) = True"
| "holds _ = False"

inductive tidy_reachable :: "aead \<Rightarrow> relay \<Rightarrow> bool" for a where
  start: "tidy_reachable a relay_start"
| step: "tidy_reachable a s \<Longrightarrow> relay_step a s s' \<Longrightarrow>
     rbuffer s' = rbuffer s \<or> \<not> holds (ch_src s) \<and> \<not> holds (conn_src s) \<Longrightarrow> tidy_reachable a s'"

text \<open>
  One direction: the data read, each turned into an item by \<open>R\<close>, are in order the items written, in the
  sink's hands and parked in the source, with the rest still in the buffer, or dropped by a source
  that has failed.
\<close>

fun in_sink :: "sink \<Rightarrow> bytes list" where
  "in_sink (Got p) = [p]"
| "in_sink _ = []"

fun in_source :: "source \<Rightarrow> bytes list" where
  "in_source (Sending p) = [p]"
| "in_source _ = []"

fun rest_ok :: "source \<Rightarrow> bytes \<Rightarrow> bytes list \<Rightarrow> bool" where
  "rest_ok (HasRead n) b es \<longleftrightarrow> es = [take n b] \<and> n \<le> length b"
| "rest_ok Returned b es \<longleftrightarrow> True"
| "rest_ok _ b es \<longleftrightarrow> es = []"

definition lane :: "(bytes \<Rightarrow> bytes \<Rightarrow> bool) \<Rightarrow> bytes list \<Rightarrow> source \<Rightarrow> bytes \<Rightarrow> sink \<Rightarrow> bytes list \<Rightarrow> bool" where
  "lane R got src b snk out \<longleftrightarrow>
     (if snk = Broken then \<exists>ds es. got = ds @ es \<and> list_all2 R ds out
      else \<exists>ds es. got = ds @ es \<and> list_all2 R ds (out @ in_sink snk @ in_source src) \<and> rest_ok src b es)"

lemma lane_prefix:
  assumes "lane R got src b snk out"
  shows "length out \<le> length got \<and> list_all2 R (take (length out) got) out"
proof -
  obtain ds es zs where "got = ds @ es" "list_all2 R ds (out @ zs)"
    using assms by (auto simp: lane_def split: if_splits) (metis append_Nil2)
  then show ?thesis by (auto simp: list_all2_append2 list_all2_lengthD)
qed

lemma lane_read:
  "lane R got AtRead b snk out \<Longrightarrow> lane R (got @ [d]) (HasRead (length d)) (store b d) snk out"
  by (auto simp: lane_def store_def) (metis append_assoc)+

lemma lane_stop: "lane R got src b snk out \<Longrightarrow> \<forall>p. src \<noteq> Sending p \<Longrightarrow> lane R got Returned b' snk out"
  by (cases src) (auto simp: lane_def, (metis append_Nil2)+)

lemma lane_make:
  "lane R got (HasRead n) b snk out \<Longrightarrow> (n \<le> length b \<Longrightarrow> R (take n b) p) \<Longrightarrow>
     lane R got (Sending p) b snk out"
  by (cases "snk = Broken")
    (auto simp: lane_def intro!: exI [of _ "_ @ [take n b]"] list_all2_appendI
      simp flip: append_assoc)

lemma lane_hand: "lane R got (Sending p) b Receiving out \<Longrightarrow> lane R got AtRead b (Got p) out"
  by (auto simp: lane_def)

lemma lane_write: "lane R got src b (Got p) out \<Longrightarrow> lane R got src b Receiving (out @ [p])"
  by (auto simp: lane_def)

lemma lane_break: "lane R got src b (Got p) out \<Longrightarrow> lane R got src b Broken out"
  by (fastforce simp: lane_def list_all2_append2)

lemma lane_drain: "lane R got src b Receiving out \<Longrightarrow> lane R got src b Drained out"
  by (simp add: lane_def)

lemma lane_other: "lane R got src b snk out \<Longrightarrow> b' = b \<or> \<not> holds src \<Longrightarrow> lane R got src b' snk out"
  by (cases src) (auto simp: lane_def)

text \<open>What the two directions turn data into.\<close>

definition sealed_as :: "aead \<Rightarrow> bytes \<Rightarrow> bytes \<Rightarrow> bool" where
  "sealed_as a d pkt \<longleftrightarrow> (\<exists>nc. length nc = NonceSize a \<and> pkt = nc @ seal a nc d)"

definition unpack :: "aead \<Rightarrow> bytes \<Rightarrow> bytes option" where
  "unpack a pkt =
     (if length pkt < NonceSize a then None
      else unseal a (take (NonceSize a) pkt) (drop (NonceSize a) pkt))"

lemma sealed_unpack:
  assumes "list_all2 (sealed_as a) ds ps"
    and "\<And>nc d. length nc = NonceSize a \<Longrightarrow> unseal a nc (seal a nc d) = Some d"
  shows "map (unpack a) ps = map Some ds"
  using assms(1) by (rule list_all2_induct) (use assms(2) in \<open>auto simp: sealed_as_def unpack_def\<close>)

lemma unpacked_all: "list_all2 (\<lambda>pkt p. unpack a pkt = Some p) ps ds \<Longrightarrow> map (unpack a) ps = map Some ds"
  by (induction rule: list_all2_induct) auto

definition relay_inv :: "aead \<Rightarrow> relay \<Rightarrow> bool" where
  "relay_inv a s \<longleftrightarrow>
     lane (sealed_as a) (ch_got s) (ch_src s) (rbuffer s) (conn_snk s) (conn_out s)
     \<and> lane (\<lambda>pkt p. unpack a pkt = Some p) (conn_got s) (conn_src s) (rbuffer s) (ch_snk s) (ch_out s)"

lemma unpack_take:
  "\<not> n < NonceSize a \<Longrightarrow> n \<le> length b \<Longrightarrow>
     unpack a (take n b) = unseal a (take (NonceSize a) b) (take (n - NonceSize a) (drop (NonceSize a) b))"
  by (simp add: unpack_def min_absorb1 drop_take)

lemma relay_step_inv:
  assumes "relay_step a s s'" "relay_inv a s"
    and tidy: "rbuffer s' = rbuffer s \<or> \<not> holds (ch_src s) \<and> \<not> holds (conn_src s)"
  shows "relay_inv a s'"
  using assms(1)
proof (cases rule: relay_step.cases)
  case (ch_read d err)
  with assms(2) tidy show ?thesis
    by (auto simp: relay_inv_def ch_read_def split: option.splits intro: lane_read lane_stop lane_other)
next
  case (ch_seal n nonce)
  have "sealed_as a d (nc @ seal a nc d)" if "nonce = Some nc" for nc d
    using ch_seal(3) that by (auto simp: sealed_as_def)
  with ch_seal assms(2) show ?thesis
    by (auto simp: relay_inv_def ch_seal_def split: option.splits intro: lane_make lane_stop)
next
  case (conn_read d err)
  with assms(2) tidy show ?thesis
    by (auto simp: relay_inv_def conn_read_def split: option.splits intro: lane_read lane_stop lane_other)
next
  case (conn_open n)
  with assms(2) show ?thesis
    by (auto simp: relay_inv_def conn_open_def unpack_take split: option.splits intro: lane_stop
        intro!: lane_make [where R = "\<lambda>pkt p. unpack a pkt = Some p"])
next
  case (conn_write p err)
  with assms(2) show ?thesis
    by (auto simp: relay_inv_def conn_write_def split: option.splits intro: lane_write lane_break)
next
  case (ch_write p err)
  with assms(2) show ?thesis
    by (auto simp: relay_inv_def ch_write_def split: option.splits intro: lane_write lane_break)
qed (use assms(2) in \<open>auto simp: relay_inv_def close_both_def intro: lane_hand lane_drain\<close>)

lemma tidy_inv: "tidy_reachable a s \<Longrightarrow> relay_inv a s"
proof (induction rule: tidy_reachable.induct)
  case start
  show ?case by (simp add: relay_inv_def relay_start_def lane_def)
next
  case (step s s')
  show ?case using relay_step_inv [OF step.hyps(2) step.IH step.hyps(3)] .
qed

section \<open>Closing and failing\<close>

text \<open>
  On every run, tidy or not: what has been decrypted is written in order, the ends are closed together,
  and a sink that fails closes nothing.
\<close>

definition ends_inv :: "relay \<Rightarrow> bool" where
  "ends_inv s \<longleftrightarrow>
     (ch_snk s \<noteq> Broken \<longrightarrow> decrypted s = ch_out s @ in_sink (ch_snk s) @ in_source (conn_src s))
     \<and> (ch_snk s = Drained \<longrightarrow> conn_src s = Returned)
     \<and> (ch_closed s \<longleftrightarrow> ch_snk s = Drained) \<and> (conn_closed s \<longleftrightarrow> ch_snk s = Drained)"

lemma relay_step_ends: "relay_step a s s' \<Longrightarrow> ends_inv s \<Longrightarrow> ends_inv s'"
  by (erule relay_stepE; clarsimp simp: ends_inv_def relay_defs split: option.splits)

lemma relay_reachable_ends: "relay_reachable a s \<Longrightarrow> ends_inv s"
proof (induction rule: relay_reachable.induct)
  case start
  show ?case by (simp add: ends_inv_def relay_start_def)
next
  case (step s s')
  show ?case using relay_step_ends [OF step.hyps(2) step.IH] .
qed

lemma broken_stays:
  assumes "(relay_step a)\<^sup>*\<^sup>* s s'"
  shows "ch_snk s = Broken \<Longrightarrow> ch_snk s' = Broken"
    and "conn_snk s = Broken \<Longrightarrow> conn_snk s' = Broken"
    and "conn_snk s = Broken \<Longrightarrow> ch_src s = Sending p \<Longrightarrow> ch_src s' = Sending p"
proof -
  have step: "(ch_snk s1 = Broken \<longrightarrow> ch_snk s2 = Broken) \<and> (conn_snk s1 = Broken \<longrightarrow> conn_snk s2 = Broken)
      \<and> (conn_snk s1 = Broken \<longrightarrow> ch_src s1 = Sending p \<longrightarrow> ch_src s2 = Sending p)"
    if "relay_step a s1 s2" for s1 s2
    using that by (rule relay_stepE; clarsimp simp: relay_defs split: option.splits)
  have "(ch_snk s = Broken \<longrightarrow> ch_snk s' = Broken) \<and> (conn_snk s = Broken \<longrightarrow> conn_snk s' = Broken)
      \<and> (conn_snk s = Broken \<longrightarrow> ch_src s = Sending p \<longrightarrow> ch_src s' = Sending p)"
    using assms by (induction rule: rtranclp_induct) (use step in blast)+
  then show "ch_snk s = Broken \<Longrightarrow> ch_snk s' = Broken"
    and "conn_snk s = Broken \<Longrightarrow> conn_snk s' = Broken"
    and "conn_snk s = Broken \<Longrightarrow> ch_src s = Sending p \<Longrightarrow> ch_src s' = Sending p"
    by auto
qed

lemma relay_reachable_steps: "(relay_step a)\<^sup>*\<^sup>* s s' \<Longrightarrow> relay_reachable a s \<Longrightarrow> relay_reachable a s'"
  by (induction rule: rtranclp_induct) (auto intro: relay_reachable.step)

lemma tidy_is_reachable: "tidy_reachable a s \<Longrightarrow> relay_reachable a s"
  by (induction rule: tidy_reachable.induct) (auto intro: relay_reachable.intros)

section \<open>A run\<close>

text \<open>
  One packet each way, one direction after the other.  The data read from the channel is \<open>d\<close>, the packet from the
  connection \<open>pkt\<close>.
\<close>

definition ch_round :: "aead \<Rightarrow> bytes \<Rightarrow> bytes \<Rightarrow> relay \<Rightarrow> relay" where
  "ch_round a nc d s =
     (let b = store (rbuffer s) d in
      s\<lparr>rbuffer := b, ch_got := ch_got s @ [d], ch_src := AtRead, conn_snk := Receiving,
        conn_out := conn_out s @ [nc @ seal a nc d]\<rparr>)"

lemma ch_round_tidy:
  assumes "tidy_reachable a s" "ch_src s = AtRead" "conn_snk s = Receiving" "\<not> holds (conn_src s)"
    and "length d \<le> relay_bufsize" "length nc = NonceSize a"
  shows "tidy_reachable a (ch_round a nc d s)"
proof -
  let ?s1 = "ch_read d None s"
  let ?s2 = "ch_seal a (Some nc) (length d) ?s1"
  let ?p = "nc @ seal a nc d"
  have buf: "take (length d) (store (rbuffer s) d) = d" by (simp add: store_def)
  have 1: "tidy_reachable a ?s1"
    using tidy_reachable.step [OF assms(1) relay_step.ch_read [OF assms(2,5)]] assms(2,4) by simp
  have src1: "ch_src ?s1 = HasRead (length d)" by (simp add: ch_read_def)
  have "relay_step a ?s1 ?s2" by (rule relay_step.ch_seal [OF src1]) (use assms(6) in simp)
  then have 2: "tidy_reachable a ?s2"
    by (rule tidy_reachable.step [OF 1]) (simp add: ch_seal_def)
  have src2: "ch_src ?s2 = Sending ?p" "conn_snk ?s2 = Receiving"
    using assms(3) buf by (simp_all add: ch_seal_def ch_read_def)
  have 3: "tidy_reachable a (?s2\<lparr>ch_src := AtRead, conn_snk := Got ?p\<rparr>)" (is "tidy_reachable a ?s3")
    by (rule tidy_reachable.step [OF 2 relay_step.to_conn [OF src2]]) simp
  have "tidy_reachable a (conn_write ?p None ?s3)"
    by (rule tidy_reachable.step [OF 3 relay_step.conn_write]) (simp_all add: conn_write_def)
  also have "conn_write ?p None ?s3 = ch_round a nc d s"
    using assms(2,3) by (simp add: conn_write_def ch_seal_def ch_read_def ch_round_def)
  finally show ?thesis .
qed

section \<open>Properties\<close>

text \<open>
  C19: In both directions the relay loses nothing in the middle, keeps the order and alters nothing, on
  every run in which no \<open>Read\<close> overwrites the shared buffer while its contents are in use: what has
  been written to the public connection decrypts to a prefix of what was read from the channel, and what
  has been written to the channel are the decrypted packets of a prefix of what was read from the connection.
\<close>

theorem relay_round_trip:
  assumes "tidy_reachable a s"
    and law: "\<And>nc d. length nc = NonceSize a \<Longrightarrow> unseal a nc (seal a nc d) = Some d"
  shows "map (unpack a) (conn_out s) = map Some (take (length (conn_out s)) (ch_got s))
    \<and> map (unpack a) (take (length (ch_out s)) (conn_got s)) = map Some (ch_out s)"
proof -
  have inv: "relay_inv a s" using tidy_inv [OF assms(1)] .
  have "list_all2 (sealed_as a) (take (length (conn_out s)) (ch_got s)) (conn_out s)"
    and "list_all2 (\<lambda>pkt p. unpack a pkt = Some p) (take (length (ch_out s)) (conn_got s)) (ch_out s)"
    using inv lane_prefix unfolding relay_inv_def by blast+
  then show ?thesis using sealed_unpack [OF _ law] unpacked_all by blast
qed

theorem relay_round_trip_witness:
  "map (unpack sample_aead) (conn_out (ch_round sample_aead [3, 4] [5, 6] relay_start)) = [Some [5, 6]]"
proof -
  have "tidy_reachable sample_aead (ch_round sample_aead [3, 4] [5, 6] relay_start)"
    by (rule ch_round_tidy [OF tidy_reachable.start]) (simp_all add: relay_start_def sample_aead_def)
  from relay_round_trip [OF this] show ?thesis
    by (simp add: ch_round_def relay_start_def sample_aead_def)
qed

text \<open>
  The two ends are closed together and last: in every reachable state in which the relay has closed the
  public connection it has closed the channel too, the connection's goroutine has returned, and every
  packet that was decrypted has been written to the channel, in order.
\<close>

theorem relay_closes_last:
  assumes "relay_reachable a s" "conn_closed s"
  shows "ch_closed s \<and> conn_src s = Returned \<and> ch_out s = decrypted s"
  using relay_reachable_ends [OF assms(1)] assms(2) by (simp add: ends_inv_def)

theorem relay_closes_last_witness:
  "ch_out (close_both (conn_read [] (Some EOF) relay_start)) = []"
proof -
  have 1: "relay_reachable sample_aead (conn_read [] (Some EOF) relay_start)"
    by (rule relay_reachable.step [OF relay_reachable.start relay_step.conn_read])
      (simp_all add: relay_start_def)
  have "relay_reachable sample_aead (close_both (conn_read [] (Some EOF) relay_start))"
    by (rule relay_reachable.step [OF 1 relay_step.close_both])
      (simp_all add: relay_start_def conn_read_def)
  from relay_closes_last [OF this] show ?thesis
    by (simp add: close_both_def relay_start_def conn_read_def)
qed

text \<open>
  A failed write leaks.  Once writing to the channel has failed, the relay closes neither the channel nor the
  public connection, in no continuation of the run; and once writing to the connection has failed, a packet the
  channel's goroutine has encrypted keeps that goroutine parked for ever.
\<close>

theorem failed_write_leaks:
  assumes "relay_reachable a s" "(relay_step a)\<^sup>*\<^sup>* s s'"
  shows "(ch_snk s = Broken \<longrightarrow> \<not> ch_closed s' \<and> \<not> conn_closed s')
    \<and> (conn_snk s = Broken \<and> ch_src s = Sending p \<longrightarrow> ch_src s' = Sending p)"
proof -
  have "ends_inv s'" using relay_reachable_ends relay_reachable_steps assms by blast
  with broken_stays [OF assms(2)] show ?thesis by (auto simp: ends_inv_def)
qed

text \<open>A run in which a packet arrives from the connection and cannot be written to the channel.\<close>

definition broken_relay :: relay where
  "broken_relay = ch_write [7] (Some EOF)
     ((conn_open sample_aead 4 (conn_read [1, 2, 9, 7] None relay_start))\<lparr>conn_src := AtRead, ch_snk := Got [7]\<rparr>)"

lemma broken_relay_reachable: "relay_reachable sample_aead broken_relay"
proof -
  have 1: "relay_reachable sample_aead (conn_read [1, 2, 9, 7] None relay_start)" (is "relay_reachable _ ?s1")
    by (rule relay_reachable.step [OF relay_reachable.start relay_step.conn_read])
      (simp_all add: relay_start_def)
  have 2: "relay_reachable sample_aead (conn_open sample_aead 4 ?s1)" (is "relay_reachable _ ?s2")
    by (rule relay_reachable.step [OF 1 relay_step.conn_open]) (simp add: conn_read_def)
  have 3: "relay_reachable sample_aead (?s2\<lparr>conn_src := AtRead, ch_snk := Got [7]\<rparr>)"
    by (rule relay_reachable.step [OF 2 relay_step.to_ch])
      (simp_all add: conn_open_def conn_read_def store_def relay_start_def sample_aead_def)
  show ?thesis unfolding broken_relay_def
    by (rule relay_reachable.step [OF 3 relay_step.ch_write]) simp
qed

theorem failed_write_leaks_witness: "\<not> conn_closed broken_relay"
  using failed_write_leaks [OF broken_relay_reachable, of broken_relay "[]"]
  by (simp add: broken_relay_def ch_write_def)

text \<open>
  C37: The shared buffer is a race.  If the connection's goroutine reads between the channel
  goroutine's \<open>Read\<close> and its encryption, then what the public connection sent is encrypted and sent
  back to it, and the data of the channel, of the same length, is never sent at all.
\<close>

theorem shared_buffer_race:
  assumes "length d = length x" "length d \<le> relay_bufsize" "length nc = NonceSize a"
  shows "\<exists>s. relay_reachable a s \<and> ch_got s = [d] \<and> conn_got s = [x] \<and> ch_src s = AtRead
    \<and> conn_out s = [nc @ seal a nc x]"
proof -
  let ?s1 = "ch_read d None relay_start"
  let ?s2 = "conn_read x None ?s1"
  let ?s3 = "ch_seal a (Some nc) (length d) ?s2"
  let ?p = "nc @ seal a nc x"
  let ?s4 = "?s3\<lparr>ch_src := AtRead, conn_snk := Got ?p\<rparr>"
  have 1: "relay_reachable a ?s1"
    by (rule relay_reachable.step [OF relay_reachable.start relay_step.ch_read])
      (simp_all add: relay_start_def assms(2))
  have 2: "relay_reachable a ?s2"
    by (rule relay_reachable.step [OF 1 relay_step.conn_read])
      (use assms(1,2) in \<open>simp_all add: relay_start_def ch_read_def\<close>)
  have 3: "relay_reachable a ?s3"
    by (rule relay_reachable.step [OF 2 relay_step.ch_seal])
      (use assms(3) in \<open>simp_all add: conn_read_def ch_read_def\<close>)
  have 4: "relay_reachable a ?s4"
    by (rule relay_reachable.step [OF 3 relay_step.to_conn])
      (use assms(1) in \<open>simp_all add: ch_seal_def conn_read_def ch_read_def relay_start_def store_def\<close>)
  have "relay_reachable a (conn_write ?p None ?s4)"
    by (rule relay_reachable.step [OF 4 relay_step.conn_write]) simp
  then show ?thesis
    by (intro exI [of _ "conn_write ?p None ?s4"])
      (simp add: conn_write_def ch_seal_def conn_read_def ch_read_def relay_start_def)
qed

theorem shared_buffer_race_witness:
  "\<exists>s. relay_reachable sample_aead s \<and> ch_got s = [[5, 6]] \<and> conn_out s = [[3, 4, 9, 1, 2]]"
  using shared_buffer_race [of "[5, 6]" "[1, 2]" "[3, 4]" sample_aead] by (auto simp: sample_aead_def)

end
