(* ===== verification/TunnelStream.thy ===== *)
theory TunnelStream
  imports Relay ChannelPair
begin

text \<open>
  One tunnelled connection from end to end: the relay of \<open>JoinEncrypted\<close> on the server's end of an
  open channel, the channel in both directions, and the client that reads and writes its other end.
  \<open>down\<close> carries what the relay writes, \<open>up\<close> what the client writes.  The lemmas join the
  properties of Relay and ChannelPair: what the visitor and the client see of each other.
\<close>

section \<open>State and steps\<close>

text \<open>\<open>writing\<close> says that the relay's last loop is inside \<open>ch.Write\<close>.\<close>

record tunnelled =
  rel :: relay
  down :: pair
  up :: pair
  writing :: bool

text \<open>The channel's \<open>Read\<close> has taken its bytes and has not returned yet: it still gives back the credit.\<close>

definition in_read :: "pair \<Rightarrow> bool" where
  "in_read s \<longleftrightarrow> 0 < owed s \<or> unsent s \<noteq> None"

text \<open>
  The steps of the relay that do not call the channel: all but those of \<open>ch.Read\<close>, \<open>ch.Write\<close> and the two
  \<open>Close\<close> at the end.
\<close>

definition inside :: "relay \<Rightarrow> relay \<Rightarrow> bool" where
  "inside s r \<longleftrightarrow> (ch_src s = AtRead \<longrightarrow> ch_src r = AtRead) \<and> (\<forall>p. ch_snk s = Got p \<longrightarrow> ch_snk r = Got p)
     \<and> \<not> ch_closed r"

text \<open>
  \<open>ch.Read(buffer)\<close> stores the bytes when it takes them, and the goroutine goes on when it has
  returned.  \<open>ch.Write\<close> is given a packet, and ends once all of it is encoded.  Both ends of the channel
  stay open, so a write does not fail.  The run ends before the two \<open>Close\<close>.
\<close>

inductive tunnel_step :: "aead \<Rightarrow> tunnelled \<Rightarrow> tunnelled \<Rightarrow> bool" for a where
  relay: "relay_step a (rel j) r \<Longrightarrow> inside (rel j) r \<Longrightarrow> (in_read (up j) \<longrightarrow> ch_src r = ch_src (rel j)) \<Longrightarrow>
     tunnel_step a j (j\<lparr>rel := r\<rparr>)"
| read: "ch_src (rel j) = AtRead \<Longrightarrow> \<not> in_read (up j) \<Longrightarrow>
     buffer_read (pending (rch (up j))) relay_bufsize = (Some (bs, None), b) \<Longrightarrow>
     tunnel_step a j (j\<lparr>rel := ch_read bs None (rel j),
       up := (up j)\<lparr>rch := (rch (up j))\<lparr>pending := b\<rparr>, owed := length bs, got := got (up j) @ bs\<rparr>\<rparr>)"
| read_end: "ch_src (rel j) = AtRead \<Longrightarrow> \<not> in_read (up j) \<Longrightarrow>
     buffer_read (pending (rch (up j))) relay_bufsize = (Some (bs, Some e), b) \<Longrightarrow>
     tunnel_step a j (j\<lparr>rel := ch_read bs (Some e) (rel j)\<rparr>)"
| submit: "ch_snk (rel j) = Got p \<Longrightarrow> \<not> writing j \<Longrightarrow> todo (down j) = [] \<Longrightarrow> held (down j) = None \<Longrightarrow>
     \<not> sentEOF (sch (down j)) \<Longrightarrow> length p < 2 ^ 32 \<Longrightarrow>
     tunnel_step a j (j\<lparr>down := (down j)\<lparr>todo := p, written := written (down j) @ p\<rparr>, writing := True\<rparr>)"
| wrote: "ch_snk (rel j) = Got p \<Longrightarrow> writing j \<Longrightarrow> todo (down j) = [] \<Longrightarrow> held (down j) = None \<Longrightarrow>
     tunnel_step a j (j\<lparr>rel := ch_write p None (rel j), writing := False\<rparr>)"
| down: "pair_move (down j) d \<Longrightarrow> tunnel_step a j (j\<lparr>down := d\<rparr>)"
| up: "pair_move (up j) u \<Longrightarrow> got u = got (up j) \<Longrightarrow> tunnel_step a j (j\<lparr>up := u\<rparr>)"
| client: "pair_call (up j) u \<Longrightarrow> tunnel_step a j (j\<lparr>up := u\<rparr>)"

inductive tunnel_reachable :: "aead \<Rightarrow> tunnelled \<Rightarrow> bool" for a where
  start: "pair_init d \<Longrightarrow> pair_init u \<Longrightarrow>
     tunnel_reachable a \<lparr>rel = relay_start, down = d, up = u, writing = False\<rparr>"
| step: "tunnel_reachable a j \<Longrightarrow> tunnel_step a j j' \<Longrightarrow> tunnel_reachable a j'"

section \<open>The invariant\<close>

text \<open>What the relay has given to \<open>ch.Write\<close>: the packets written and the one being written.\<close>

definition submitted :: "tunnelled \<Rightarrow> bytes list" where
  "submitted j = ch_out (rel j) @ (if writing j then in_sink (ch_snk (rel j)) else [])"

definition tunnel_inv :: "aead \<Rightarrow> tunnelled \<Rightarrow> bool" where
  "tunnel_inv a j \<longleftrightarrow> relay_reachable a (rel j) \<and> pair_reachable (down j) \<and> pair_reachable (up j)
     \<and> ch_snk (rel j) \<noteq> Broken \<and> (writing j \<longrightarrow> (\<exists>p. ch_snk (rel j) = Got p))
     \<and> written (down j) = concat (submitted j) \<and> got (up j) = concat (ch_got (rel j))"

lemma move_written: "pair_move s s' \<Longrightarrow> written s' = written s"
  by (erule pair_move.cases) simp_all

lemma call_got: "pair_call s s' \<Longrightarrow> got s' = got s"
  by (erule pair_call.cases) simp_all

text \<open>A step that stays inside the relay reads nothing from the channel and writes nothing to it.\<close>

lemma inside_keeps:
  assumes "relay_step a s r" "inside s r"
  shows "ch_got r = ch_got s" "ch_out r = ch_out s" "ch_snk s \<noteq> Broken \<Longrightarrow> ch_snk r \<noteq> Broken"
    "\<And>p. ch_snk s = Got p \<Longrightarrow> ch_snk r = Got p"
  using assms(2)
  by (rule_tac [!] relay_stepE [OF assms(1)]; clarsimp simp: inside_def relay_defs split: option.splits)+

lemma tunnel_step_inv:
  assumes "tunnel_step a j j'" "tunnel_inv a j"
  shows "tunnel_inv a j'"
  using assms(1)
proof (cases rule: tunnel_step.cases)
  case (relay r)
  note k = inside_keeps [OF relay(2,3)]
  have "relay_reachable a r"
    using relay_reachable.step [OF _ relay(2)] assms(2) by (simp add: tunnel_inv_def)
  then show ?thesis
    using assms(2) relay(1) k by (auto simp: tunnel_inv_def submitted_def)
next
  case (read bs b)
  let ?u = "(up j)\<lparr>rch := (rch (up j))\<lparr>pending := b\<rparr>, owed := length bs, got := got (up j) @ bs\<rparr>"
  have "length bs \<le> relay_bufsize" using rbuf.get_length [OF read(4)] .
  then have "relay_reachable a (ch_read bs None (rel j))"
    using relay_reachable.step [OF _ relay_step.ch_read [OF read(2)]] assms(2)
    by (simp add: tunnel_inv_def)
  moreover have "pair_move (up j) ?u"
    using pair_move.take_bytes [OF _ _ _ read(4)] read(3) by (simp add: in_read_def)
  then have "pair_reachable ?u"
    using pair_reachable.move assms(2) by (auto simp: tunnel_inv_def)
  ultimately show ?thesis
    using assms(2) read(1) by (simp add: tunnel_inv_def submitted_def ch_read_def)
next
  case (read_end bs e b)
  have "relay_reachable a (ch_read bs (Some e) (rel j))"
    using relay_reachable.step [OF _ relay_step.ch_read [OF read_end(2)]] assms(2)
      rbuf.get_length [OF read_end(4)] by (simp add: tunnel_inv_def)
  then show ?thesis
    using assms(2) read_end(1) by (simp add: tunnel_inv_def submitted_def ch_read_def)
next
  case (submit p)
  have "pair_call (down j) ((down j)\<lparr>todo := p, written := written (down j) @ p\<rparr>)"
    using pair_call.submit submit(4-7) by blast
  then have "pair_reachable ((down j)\<lparr>todo := p, written := written (down j) @ p\<rparr>)"
    using pair_reachable.call assms(2) by (auto simp: tunnel_inv_def)
  then show ?thesis
    using assms(2) submit(1-3) by (simp add: tunnel_inv_def submitted_def)
next
  case (wrote p)
  have "relay_reachable a (ch_write p None (rel j))"
    using relay_reachable.step [OF _ relay_step.ch_write [OF wrote(2)]] assms(2)
    by (simp add: tunnel_inv_def)
  then show ?thesis
    using assms(2) wrote(1-3) by (simp add: tunnel_inv_def submitted_def ch_write_def)
next
  case (down d)
  then show ?thesis
    using assms(2) move_written [OF down(2)]
    by (auto simp: tunnel_inv_def submitted_def intro: pair_reachable.move)
next
  case (up u)
  then show ?thesis
    using assms(2) by (auto simp: tunnel_inv_def submitted_def intro: pair_reachable.move)
next
  case (client u)
  then show ?thesis
    using assms(2) call_got [OF client(2)]
    by (auto simp: tunnel_inv_def submitted_def intro: pair_reachable.call)
qed

lemma tunnel_reachable_inv: "tunnel_reachable a j \<Longrightarrow> tunnel_inv a j"
proof (induction rule: tunnel_reachable.induct)
  case (start d u)
  have "written d = []" "got u = []"
    using start by (simp_all add: pair_init_def)
  then show ?case
    using start relay_reachable.start pair_reachable.start
    by (simp add: tunnel_inv_def submitted_def relay_start_def)
next
  case (step j j')
  show ?case using tunnel_step_inv [OF step.hyps(2) step.IH] .
qed

section \<open>What the two programs see\<close>

lemma got_prefix:
  assumes "pair_reachable s"
  shows "\<exists>rest. written s = got s @ rest"
  using pair_reachable_inv [OF assms] by (auto simp: pair_inv_def)

lemma quiet_pair:
  assumes "pair_reachable s" "\<nexists>s'. pair_move s s'"
  shows "got s = written s \<and> todo s = [] \<and> held s = None"
proof -
  obtain ds es cs where inv: "pair_inv s ds es cs" using pair_reachable_inv [OF assms(1)] by blast
  then have g: "got s = written s" using pair_progress assms(2) by blast
  with inv have "todo s = []" "bytes_held s = []" by (auto simp: pair_inv_def)
  with inv g show ?thesis by (auto simp: pair_inv_def bytes_held_def split: option.splits)
qed

text \<open>The plain text of a packet of the public connection.\<close>

definition plain :: "aead \<Rightarrow> bytes \<Rightarrow> bytes" where
  "plain a pkt = (case unpack a pkt of None \<Rightarrow> [] | Some p \<Rightarrow> p)"

lemma map_plain: "map (unpack a) ps = map Some ds \<Longrightarrow> map (plain a) ps = ds"
  by (rule nth_equalityI) (auto simp: plain_def list_eq_iff_nth_eq)

lemma concat_map_split: "map f (take n ps) = ds \<Longrightarrow> \<exists>rest. concat (map f ps) = concat ds @ rest"
  by (metis append_take_drop_id concat_append map_append)

text \<open>What has been submitted to the channel is the beginning of what has been decrypted.\<close>

lemma submitted_decrypted:
  assumes "tunnel_inv a j"
  shows "\<exists>rest. decrypted (rel j) = submitted j @ rest
    \<and> ((\<forall>p. conn_src (rel j) \<noteq> Sending p) \<and> (\<forall>p. ch_snk (rel j) = Got p \<longrightarrow> writing j) \<longrightarrow> rest = [])"
proof -
  have "decrypted (rel j) = ch_out (rel j) @ in_sink (ch_snk (rel j)) @ in_source (conn_src (rel j))"
    using assms relay_reachable_ends by (auto simp: tunnel_inv_def ends_inv_def)
  then show ?thesis
    by (cases "conn_src (rel j)"; cases "ch_snk (rel j)") (auto simp: submitted_def)
qed

text \<open>A run to apply the properties to: a packet arrives from the visitor and is given to \<open>ch.Write\<close>.\<close>

definition sample_tunnel :: "relay \<Rightarrow> tunnelled" where
  "sample_tunnel r = \<lparr>rel = r, down = sample_pair, up = sample_pair, writing = False\<rparr>"

definition visitor_packet :: relay where
  "visitor_packet = conn_read [1, 2, 9, 7] None relay_start"

definition decrypted_packet :: relay where
  "decrypted_packet = conn_open sample_aead 4 visitor_packet"

definition handed_packet :: relay where
  "handed_packet = decrypted_packet\<lparr>conn_src := AtRead, ch_snk := Got [7]\<rparr>"

definition written_tunnel :: tunnelled where
  "written_tunnel = (sample_tunnel handed_packet)\<lparr>
     down := sample_pair\<lparr>todo := [7], written := [7]\<rparr>, writing := True\<rparr>"

lemmas packet_defs = visitor_packet_def decrypted_packet_def handed_packet_def relay_start_def
  conn_read_def conn_open_def store_def sample_aead_def

lemma packet_steps:
  "relay_step sample_aead relay_start visitor_packet"
  "relay_step sample_aead visitor_packet decrypted_packet"
  "relay_step sample_aead decrypted_packet handed_packet"
  by (simp add: visitor_packet_def relay_step.conn_read relay_start_def,
      simp add: decrypted_packet_def relay_step.conn_open visitor_packet_def conn_read_def,
      unfold handed_packet_def, rule relay_step.to_ch, simp_all add: packet_defs)

lemma written_tunnel_reachable: "tunnel_reachable sample_aead written_tunnel"
proof -
  have step: "tunnel_reachable sample_aead (sample_tunnel r')"
    if "tunnel_reachable sample_aead (sample_tunnel r)" "relay_step sample_aead r r'" "inside r r'" for r r'
    using tunnel_reachable.step [OF that(1) tunnel_step.relay [of _ _ r']] that(2,3)
    by (simp add: sample_tunnel_def in_read_def sample_pair_def)
  have "pair_init sample_pair"
    by (simp add: pair_init_def sample_pair_def sample_channel_def full_window_def)
      (simp add: sample_transport_def)
  then have "tunnel_reachable sample_aead (sample_tunnel relay_start)"
    using tunnel_reachable.start by (simp add: sample_tunnel_def)
  then have "tunnel_reachable sample_aead (sample_tunnel visitor_packet)"
    by (rule step [OF _ packet_steps(1)]) (simp add: inside_def packet_defs)
  then have "tunnel_reachable sample_aead (sample_tunnel decrypted_packet)"
    by (rule step [OF _ packet_steps(2)]) (simp add: inside_def packet_defs)
  then have "tunnel_reachable sample_aead (sample_tunnel handed_packet)"
    by (rule step [OF _ packet_steps(3)]) (simp add: inside_def packet_defs)
  then show ?thesis
  proof (rule tunnel_reachable.step)
    have "tunnel_step sample_aead (sample_tunnel handed_packet)
        ((sample_tunnel handed_packet)\<lparr>down := (down (sample_tunnel handed_packet))\<lparr>todo := [7],
           written := written (down (sample_tunnel handed_packet)) @ [7]\<rparr>, writing := True\<rparr>)"
      by (rule tunnel_step.submit)
        (simp_all add: sample_tunnel_def sample_pair_def sample_channel_def handed_packet_def)
    then show "tunnel_step sample_aead (sample_tunnel handed_packet) written_tunnel"
      by (simp add: written_tunnel_def sample_tunnel_def sample_pair_def)
  qed
qed

lemma handed_packet_tidy: "tidy_reachable sample_aead handed_packet"
  by (intro tidy_reachable.step [OF tidy_reachable.step [OF tidy_reachable.step
        [OF tidy_reachable.start packet_steps(1)] packet_steps(2)] packet_steps(3)])
    (simp_all add: packet_defs)

text \<open>
  C8: The visitor and the client see each other's stream, end to end, on every run in which no \<open>Read\<close>
  overwrites the shared buffer while its contents are in use: what the client has read from the
  channel is a prefix of the plain text of the packets the relay read from the public connection, and
  the plain text of what the relay has written to the public connection is a prefix of what
  the client has written to the channel, whatever the schedule of the relay, the channel and the client.
\<close>

theorem tunnel_streams_in_order:
  assumes "tunnel_reachable a j" "tidy_reachable a (rel j)"
    and "\<And>nc d. length nc = NonceSize a \<Longrightarrow> unseal a nc (seal a nc d) = Some d"
  shows "(\<exists>rest. concat (map (plain a) (conn_got (rel j))) = got (down j) @ rest)
    \<and> (\<exists>rest. written (up j) = concat (map (plain a) (conn_out (rel j))) @ rest)"
proof
  note inv = tunnel_reachable_inv [OF assms(1)]
  let ?s = "rel j"
  have lanes: "relay_inv a ?s" using tidy_inv [OF assms(2)] .
  have "lane (\<lambda>pkt p. unpack a pkt = Some p) (conn_got ?s) (conn_src ?s) (rbuffer ?s) (ch_snk ?s) (ch_out ?s)"
    using lanes by (simp add: relay_inv_def)
  moreover have "ch_snk ?s \<noteq> Broken" using inv by (simp add: tunnel_inv_def)
  ultimately obtain ds es where ds: "conn_got ?s = ds @ es"
    "list_all2 (\<lambda>pkt p. unpack a pkt = Some p) ds
       (ch_out ?s @ in_sink (ch_snk ?s) @ in_source (conn_src ?s))"
    by (auto simp: lane_def)
  have "map (plain a) ds = ch_out ?s @ in_sink (ch_snk ?s) @ in_source (conn_src ?s)"
    by (rule map_plain) (rule unpacked_all [OF ds(2)])
  then obtain r where "map (plain a) ds = submitted j @ r" by (cases "writing j") (auto simp: submitted_def)
  with ds(1) have "\<exists>rest. concat (map (plain a) (conn_got ?s)) = written (down j) @ rest"
    using inv by (simp add: tunnel_inv_def)
  then show "\<exists>rest. concat (map (plain a) (conn_got ?s)) = got (down j) @ rest"
    using got_prefix [of "down j"] inv by (auto simp: tunnel_inv_def)
  have "list_all2 (sealed_as a) (take (length (conn_out ?s)) (ch_got ?s)) (conn_out ?s)"
    using lanes lane_prefix unfolding relay_inv_def by blast
  then have "map (plain a) (conn_out ?s) = take (length (conn_out ?s)) (ch_got ?s)"
    by (rule map_plain [OF sealed_unpack [OF _ assms(3)]])
  then obtain r where "concat (ch_got ?s) = concat (map (plain a) (conn_out ?s)) @ r"
    using concat_map_split [of "\<lambda>x. x" _ "ch_got ?s"] by auto
  with got_prefix [of "up j"] inv
  show "\<exists>rest. written (up j) = concat (map (plain a) (conn_out ?s)) @ rest"
    by (auto simp: tunnel_inv_def)
qed

theorem tunnel_streams_in_order_witness:
  "conn_got (rel written_tunnel) = [[1, 2, 9, 7]] \<and> written (down written_tunnel) = [7]
    \<and> (\<exists>rest. [7] = got (down written_tunnel) @ rest)"
proof -
  have "tidy_reachable sample_aead (rel written_tunnel)"
    using handed_packet_tidy by (simp add: written_tunnel_def sample_tunnel_def)
  from tunnel_streams_in_order [OF written_tunnel_reachable this] show ?thesis
    by (simp add: written_tunnel_def sample_tunnel_def packet_defs plain_def unpack_def)
qed

text \<open>
  C21: Nothing is left behind on the way to the client, on any run, tidy or not: what the client has read is
  a prefix of the packets decrypted so far, in order; and when the channel has come to rest and the
  relay holds no packet it has not given to \<open>ch.Write\<close>, the client has read all of them.  The relay never
  ends by a failed write while the channel is open, and at rest a running \<open>ch.Write\<close> has done its work.
\<close>

theorem forwarded_packets_are_read:
  assumes "tunnel_reachable a j"
  shows "ch_snk (rel j) \<noteq> Broken \<and> (\<exists>rest. concat (decrypted (rel j)) = got (down j) @ rest)
    \<and> ((\<nexists>d. pair_move (down j) d) \<longrightarrow> (todo (down j) = [] \<and> held (down j) = None)
        \<and> ((\<forall>p. conn_src (rel j) \<noteq> Sending p) \<and> (\<forall>p. ch_snk (rel j) = Got p \<longrightarrow> writing j)
            \<longrightarrow> got (down j) = concat (decrypted (rel j))))"
proof -
  note inv = tunnel_reachable_inv [OF assms]
  then have w: "written (down j) = concat (submitted j)" "pair_reachable (down j)"
    "ch_snk (rel j) \<noteq> Broken" by (simp_all add: tunnel_inv_def)
  with submitted_decrypted [OF inv] got_prefix [OF w(2)] quiet_pair [OF w(2)]
  show ?thesis by (auto; metis append_assoc concat_append append_Nil2 concat.simps(1))
qed

theorem forwarded_packets_are_read_witness:
  "decrypted (rel written_tunnel) = [[7]] \<and> (\<exists>rest. [7] = got (down written_tunnel) @ rest)"
  using forwarded_packets_are_read [OF written_tunnel_reachable]
  by (simp add: written_tunnel_def sample_tunnel_def packet_defs)

end
