(* ===== verification/BufferHeap.thy ===== *)
theory BufferHeap
  imports SessBuffer
begin

text \<open>
  The receive buffer at the level of its pointers (session/util_buffer.go): elements in a heap, linked by
  \<open>next\<close>, with the pointers \<open>head\<close> and \<open>tail\<close>.  \<open>represents\<close> relates such a heap to the list of blocks of
  SessBuffer, and the lemmas show that every operation keeps the relation: in particular that no pointer
  is nil where it is followed and that the loop of \<open>Read\<close> ends.
\<close>

section \<open>The operations\<close>

text \<open>An address is an index into \<open>cells\<close>, to which an allocation appends; \<open>None\<close> is nil.\<close>

record element =
  ebuf :: bytes
  enext :: "nat option"

record heap_buffer =
  cells :: "element list"
  bhead_p :: nat
  btail_p :: nat
  hclosed :: bool

definition hb_new :: heap_buffer where
  "hb_new = \<lparr>cells = [\<lparr>ebuf = [], enext = None\<rparr>], bhead_p = 0, btail_p = 0, hclosed = False\<rparr>"

definition hb_write :: "heap_buffer \<Rightarrow> bytes \<Rightarrow> heap_buffer" where
  "hb_write b buf =
     (let e = length (cells b); cs = cells b @ [\<lparr>ebuf = buf, enext = None\<rparr>] in
      b\<lparr>cells := cs[btail_p b := (cs ! btail_p b)\<lparr>enext := Some e\<rparr>], btail_p := e\<rparr>)"

definition hb_eof :: "heap_buffer \<Rightarrow> heap_buffer" where
  "hb_eof b = b\<lparr>hclosed := True\<rparr>"

text \<open>How \<open>Read\<close> comes to a stop: it returns, it parks in \<open>Cond.Wait\<close>, or it follows a nil pointer.\<close>

datatype read_stop = Returns bytes "go_error option" | Parks | NilPointer

partial_function (option) hb_loop ::
    "nat \<Rightarrow> bytes \<Rightarrow> heap_buffer \<Rightarrow> (read_stop \<times> heap_buffer) option" where
  "hb_loop m acc b =
     (if m = 0 then Some (Returns acc None, b)
      else
        (case get_at (cells b) (bhead_p b) of
           None \<Rightarrow> Some (NilPointer, b)
         | Some h \<Rightarrow>
             if ebuf h \<noteq> [] then
               hb_loop (m - min m (length (ebuf h))) (acc @ take (min m (length (ebuf h))) (ebuf h))
                 (b\<lparr>cells := (cells b)[bhead_p b := h\<lparr>ebuf := drop (min m (length (ebuf h))) (ebuf h)\<rparr>]\<rparr>)
             else if bhead_p b \<noteq> btail_p b then
               (case enext h of
                  None \<Rightarrow> Some (NilPointer, b)
                | Some p \<Rightarrow> hb_loop m acc (b\<lparr>bhead_p := p\<rparr>))
             else if acc \<noteq> [] then Some (Returns acc None, b)
             else if hclosed b then Some (Returns [] (Some EOF), b)
             else Some (Parks, b)))"

declare hb_loop.simps [code]

definition hb_read :: "heap_buffer \<Rightarrow> nat \<Rightarrow> (read_stop \<times> heap_buffer) option" where
  "hb_read b n = hb_loop n [] b"

section \<open>What a heap represents\<close>

fun path :: "element list \<Rightarrow> nat list \<Rightarrow> bool" where
  "path cs [] = True"
| "path cs [p] = (p < length cs)"
| "path cs (p # q # ps) = (p < length cs \<and> enext (cs ! p) = Some q \<and> path cs (q # ps))"

definition linked :: "heap_buffer \<Rightarrow> nat list \<Rightarrow> bool" where
  "linked b ps \<longleftrightarrow> path (cells b) ps \<and> distinct ps \<and> ps \<noteq> [] \<and> hd ps = bhead_p b \<and> last ps = btail_p b"

definition represents :: "heap_buffer \<Rightarrow> buffer \<Rightarrow> bool" where
  "represents hb b \<longleftrightarrow>
     (\<exists>ps. linked hb ps \<and> map (\<lambda>p. ebuf (cells hb ! p)) ps = bhead b # brest b) \<and> hclosed hb = bclosed b"

lemma path_bound: "path cs ps \<Longrightarrow> p \<in> set ps \<Longrightarrow> p < length cs"
  by (induction cs ps rule: path.induct) auto

lemma path_cong:
  "path cs ps \<Longrightarrow> length cs \<le> length cs' \<Longrightarrow>
     (\<And>p. p \<in> set (butlast ps) \<Longrightarrow> enext (cs' ! p) = enext (cs ! p)) \<Longrightarrow> path cs' ps"
  by (induction cs ps rule: path.induct) auto

lemma path_append:
  "path cs ps \<Longrightarrow> ps \<noteq> [] \<Longrightarrow> enext (cs ! last ps) = Some e \<Longrightarrow> e < length cs \<Longrightarrow> path cs (ps @ [e])"
  by (induction cs ps rule: path.induct) auto

lemma butlast_not_last: "distinct ps \<Longrightarrow> ps \<noteq> [] \<Longrightarrow> last ps \<notin> set (butlast ps)"
  by (metis append_butlast_last_id distinct_append disjoint_iff list.set_intros(1))

lemma represents_new: "represents hb_new newBuffer"
  by (auto simp: represents_def linked_def hb_new_def newBuffer_def intro!: exI [of _ "[0]"])

lemma represents_eof: "represents hb b \<Longrightarrow> represents (hb_eof hb) (buffer_eof b)"
  by (auto simp: represents_def linked_def hb_eof_def buffer_eof_def)

lemma represents_write:
  assumes "represents hb b"
  shows "represents (hb_write hb buf) (buffer_write b buf)"
proof -
  obtain ps where ps: "linked hb ps" "map (\<lambda>p. ebuf (cells hb ! p)) ps = bhead b # brest b"
    and cl: "hclosed hb = bclosed b"
    using assms by (auto simp: represents_def)
  let ?hb = "hb_write hb buf" and ?e = "length (cells hb)"
  have p: "path (cells hb) ps" "distinct ps" "ps \<noteq> []" "last ps = btail_p hb"
    using ps(1) by (auto simp: linked_def)
  have bound: "q < ?e" if "q \<in> set ps" for q using path_bound [OF p(1) that] .
  have tail: "btail_p hb \<in> set ps" "btail_p hb < ?e" using p(3,4) bound by (metis last_in_set)+
  have cells: "cells ?hb ! q = (if q = btail_p hb then (cells hb ! q)\<lparr>enext := Some ?e\<rparr> else cells hb ! q)"
    if "q < ?e" for q
    using that tail(2) by (simp add: hb_write_def Let_def nth_append nth_list_update)
  have new: "cells ?hb ! ?e = \<lparr>ebuf = buf, enext = None\<rparr>" "length (cells ?hb) = Suc ?e"
    using tail(2) by (simp_all add: hb_write_def Let_def)
  have "enext (cells ?hb ! q) = enext (cells hb ! q)" if "q \<in> set (butlast ps)" for q
    using cells [OF bound [OF in_set_butlastD [OF that]]] that butlast_not_last [OF p(2,3)] p(4) by auto
  then have "path (cells ?hb) ps"
    using new(2) by (intro path_cong [OF p(1)]) auto
  then have "path (cells ?hb) (ps @ [?e])"
    by (rule path_append) (use p(3,4) tail cells new(2) in auto)
  moreover have "hd (ps @ [?e]) = bhead_p ?hb" "last (ps @ [?e]) = btail_p ?hb" "distinct (ps @ [?e])"
    using ps(1) bound by (auto simp: linked_def hb_write_def Let_def)
  ultimately have "linked ?hb (ps @ [?e])" by (simp add: linked_def)
  moreover have "map (\<lambda>q. ebuf (cells ?hb ! q)) ps = map (\<lambda>q. ebuf (cells hb ! q)) ps"
    using cells bound by simp
  ultimately show ?thesis
    using ps(2) cl new(1) by (auto simp: represents_def buffer_write_def hb_write_def Let_def
        intro!: exI [of _ "ps @ [?e]"])
qed

section \<open>Reading\<close>

text \<open>The head element, by what the buffer is.\<close>

lemma represents_head:
  assumes "represents hb b"
  obtains h where "get_at (cells hb) (bhead_p hb) = Some h" "ebuf h = bhead b"
    "bhead_p hb = btail_p hb \<longleftrightarrow> brest b = []"
    "brest b \<noteq> [] \<Longrightarrow> \<exists>p. enext h = Some p \<and>
       (bhead b = [] \<longrightarrow> represents (hb\<lparr>bhead_p := p\<rparr>) (b\<lparr>bhead := hd (brest b), brest := tl (brest b)\<rparr>))"
    "represents (hb\<lparr>cells := (cells hb)[bhead_p hb := h\<lparr>ebuf := x\<rparr>]\<rparr>) (b\<lparr>bhead := x\<rparr>)"
proof -
  obtain p ps where ps: "linked hb (p # ps)" "map (\<lambda>p. ebuf (cells hb ! p)) (p # ps) = bhead b # brest b"
    and cl: "hclosed hb = bclosed b"
    using assms by (auto simp: represents_def linked_def)
  have p: "path (cells hb) (p # ps)" "p \<notin> set ps" "distinct ps" "bhead_p hb = p" "btail_p hb = last (p # ps)"
    using ps(1) by (auto simp: linked_def)
  have lt: "p < length (cells hb)" using path_bound [OF p(1)] by simp
  let ?h = "cells hb ! p"
  have h: "get_at (cells hb) (bhead_p hb) = Some ?h" "ebuf ?h = bhead b"
    using lt p(4) ps(2) by (auto simp: get_at_def)
  have eq: "bhead_p hb = btail_p hb \<longleftrightarrow> brest b = []"
    using p(2,4,5) ps(2) by (cases ps) auto
  have nxt: "\<exists>q. enext ?h = Some q \<and>
      (bhead b = [] \<longrightarrow> represents (hb\<lparr>bhead_p := q\<rparr>) (b\<lparr>bhead := hd (brest b), brest := tl (brest b)\<rparr>))"
    if ne: "brest b \<noteq> []"
  proof -
    obtain q qs where q: "ps = q # qs" using ne ps(2) by (cases ps) auto
    have "linked (hb\<lparr>bhead_p := q\<rparr>) (q # qs)"
      using p q by (auto simp: linked_def)
    then have "represents (hb\<lparr>bhead_p := q\<rparr>) (b\<lparr>bhead := hd (brest b), brest := tl (brest b)\<rparr>)"
      using ps(2) q cl ne unfolding represents_def
      by (intro conjI exI [of _ "q # qs"]) (simp_all add: list.collapse)
    then show ?thesis using p(1) q by auto
  qed
  let ?c = "(cells hb)[p := ?h\<lparr>ebuf := x\<rparr>]"
  have "path ?c (p # ps)"
    by (rule path_cong [OF p(1)]) (use lt in \<open>auto simp: nth_list_update\<close>)
  then have "linked (hb\<lparr>cells := ?c\<rparr>) (p # ps)" using p by (auto simp: linked_def)
  have "map (\<lambda>q. ebuf (?c ! q)) ps = map (\<lambda>q. ebuf (cells hb ! q)) ps"
    using p(2) by (intro map_cong refl) (metis nth_list_update_neq)
  also have "\<dots> = brest b" using ps(2) by simp
  finally have "map (\<lambda>q. ebuf (?c ! q)) (p # ps) = x # brest b"
    using lt by simp
  with \<open>linked (hb\<lparr>cells := ?c\<rparr>) (p # ps)\<close>
  have "represents (hb\<lparr>cells := ?c\<rparr>) (b\<lparr>bhead := x\<rparr>)"
    using cl unfolding represents_def by (intro conjI exI [of _ "p # ps"]) auto
  with h eq nxt p(4) that show thesis by metis
qed

fun stop_of :: "(bytes \<times> go_error option) option \<Rightarrow> read_stop" where
  "stop_of None = Parks"
| "stop_of (Some (bs, e)) = Returns bs e"

lemma hb_loop_refines:
  "represents hb b \<Longrightarrow>
     \<exists>hb'. hb_loop m acc hb = Some (stop_of (fst (read_loop m acc b)), hb') \<and> represents hb' (snd (read_loop m acc b))"
proof (induction m acc b arbitrary: hb rule: read_loop.induct)
  case (1 m acc b)
  define r where "r = min m (length (bhead b))"
  obtain h where h: "get_at (cells hb) (bhead_p hb) = Some h" "ebuf h = bhead b"
    "bhead_p hb = btail_p hb \<longleftrightarrow> brest b = []"
    "brest b \<noteq> [] \<Longrightarrow> \<exists>p. enext h = Some p \<and>
       (bhead b = [] \<longrightarrow> represents (hb\<lparr>bhead_p := p\<rparr>) (b\<lparr>bhead := hd (brest b), brest := tl (brest b)\<rparr>))"
    and upd: "represents (hb\<lparr>cells := (cells hb)[bhead_p hb := h\<lparr>ebuf := drop r (bhead b)\<rparr>]\<rparr>)
      (b\<lparr>bhead := drop r (bhead b)\<rparr>)"
    using represents_head [OF "1.prems"] by metis
  have cl: "hclosed hb = bclosed b" using "1.prems" by (simp add: represents_def)
  consider (zero) "m = 0" | (data) "m \<noteq> 0" "bhead b \<noteq> []" | (nxt) "m \<noteq> 0" "bhead b = []" "brest b \<noteq> []"
    | (out) "m \<noteq> 0" "bhead b = []" "brest b = []" by blast
  then show ?case
  proof cases
    case zero
    with "1.prems" show ?thesis by (simp add: read_loop.simps hb_loop.simps)
  next
    case data
    have "hb_loop m acc hb = hb_loop (m - r) (acc @ take r (bhead b))
        (hb\<lparr>cells := (cells hb)[bhead_p hb := h\<lparr>ebuf := drop r (bhead b)\<rparr>]\<rparr>)"
      using data h(1,2) by (subst hb_loop.simps) (simp add: r_def)
    moreover have "read_loop m acc b = read_loop (m - r) (acc @ take r (bhead b)) (b\<lparr>bhead := drop r (bhead b)\<rparr>)"
      using data by (subst read_loop.simps) (simp add: r_def Let_def)
    ultimately show ?thesis using "1.IH"(1) [OF data r_def upd] by simp
  next
    case nxt
    then obtain p where p: "enext h = Some p"
      "represents (hb\<lparr>bhead_p := p\<rparr>) (b\<lparr>bhead := hd (brest b), brest := tl (brest b)\<rparr>)"
      using h(4) by auto
    have "hb_loop m acc hb = hb_loop m acc (hb\<lparr>bhead_p := p\<rparr>)"
      using nxt h(1-3) p(1) by (subst hb_loop.simps) simp
    moreover have "read_loop m acc b = read_loop m acc (b\<lparr>bhead := hd (brest b), brest := tl (brest b)\<rparr>)"
      using nxt by (subst read_loop.simps) simp
    ultimately show ?thesis using "1.IH"(2) [OF nxt(1) _ nxt(3) p(2)] nxt(2) by simp
  next
    case out
    with "1.prems" h(1-3) cl show ?thesis by (simp add: read_loop.simps hb_loop.simps)
  qed
qed

section \<open>Properties\<close>

text \<open>
  C20: The linked list implements the list of blocks: a new buffer represents the empty one, and \<open>write\<close>, \<open>eof\<close>
  and \<open>Read\<close> on a heap that represents a buffer give a heap that represents the result; \<open>Read\<close> ends, follows
  no nil pointer, and returns or parks as specified.
\<close>

theorem heap_buffer_refines:
  "represents hb_new newBuffer
   \<and> (represents hb b \<longrightarrow> represents (hb_write hb buf) (buffer_write b buf)
      \<and> represents (hb_eof hb) (buffer_eof b)
      \<and> (\<exists>hb'. hb_read hb n = Some (stop_of (fst (buffer_read b n)), hb')
           \<and> represents hb' (snd (buffer_read b n))))"
  using represents_new represents_write represents_eof hb_loop_refines
  by (auto simp: hb_read_def buffer_read_def)

theorem heap_buffer_refines_witness:
  "\<exists>hb'. hb_read (hb_write hb_new [1, 2, 3]) 2 = Some (Returns [1, 2] None, hb')"
proof -
  have "represents (hb_write hb_new [1, 2, 3]) (buffer_write newBuffer [1, 2, 3])"
    using heap_buffer_refines [of hb_new newBuffer "[1, 2, 3]" 0] by blast
  then have "\<exists>hb'. hb_read (hb_write hb_new [1, 2, 3]) 2
      = Some (stop_of (fst (buffer_read (buffer_write newBuffer [1, 2, 3]) 2)), hb')"
    using heap_buffer_refines [of "hb_write hb_new [1, 2, 3]" "buffer_write newBuffer [1, 2, 3]" "[]" 2] by blast
  then show ?thesis by (simp add: buffer_read_result)
qed

end
