(* ===== verification/VhostEntry.thy ===== *)
theory VhostEntry
  imports VhostMux
begin

text \<open>
  Where the muxer meets its connections (go-vhost/mux.go, \<open>NewHTTPMuxer\<close> and \<open>NewTLSMuxer\<close>): the functions
  that make a virtual-host connection of a raw one, and what becomes of a client from its first byte to the
  listener of its host.
\<close>

section \<open>The functions given to NewVhostMuxer\<close>

datatype entry =
    RawConn instream
  | HttpConn "instream http_conn"
  | TlsConn "instream tls_conn"

text \<open>The method \<open>Host\<close>; a raw connection has none and is never asked.\<close>

definition entry_Host :: "entry \<Rightarrow> string" where
  "entry_Host x = (case x of RawConn c \<Rightarrow> '''' | HttpConn c \<Rightarrow> http_Host c | TlsConn c \<Rightarrow> tls_Host c)"

definition http_muxFn ::
    "((instream \<times> bytes) reader \<Rightarrow> instream \<times> bytes \<Rightarrow> (go_error + string) \<times> (instream \<times> bytes)) \<Rightarrow>
     instream \<Rightarrow> entry vhost_result" where
  "http_muxFn read_request c =
     (case HTTP read_request stream_read c of
        (Some e, _) \<Rightarrow> VErr e
      | (None, h) \<Rightarrow> VConn (HttpConn h))"

text \<open>\<open>None\<close>: \<open>TLS\<close> does not return.\<close>

definition tls_muxFn :: "instream \<Rightarrow> entry vhost_result option" where
  "tls_muxFn c =
     (case TLS stream_read c of
        None \<Rightarrow> None
      | Some (Ok _, t) \<Rightarrow> Some (VConn (TlsConn t))
      | Some (Err e, t) \<Rightarrow> Some (VErr e)
      | Some (Panic, t) \<Rightarrow> Some (VPanic ''runtime error''))"

section \<open>Properties\<close>

text \<open>The name a TLS muxer listens on: without the port.\<close>

definition tls_name :: "string \<Rightarrow> string" where
  "tls_name name = (case SplitHostPort name of Some host \<Rightarrow> host | None \<Rightarrow> name)"

lemma TLS_Listen_name: "TLS_Listen m name = mux_Listen m (tls_name name)"
  by (simp add: TLS_Listen_def tls_name_def split: option.split)

lemma listened_offer:
  assumes "mux_Listen m name = (Inr l, m1)" "normalize (host v) = normalize name"
  shows "sending (mux_handle host m1 conn None (VConn v) d2) = sending m1 @ [(l, v, conn)]"
proof -
  have "registry m1 (normalize (host v)) = Some l" "\<not> accept_closed (listeners m1 ! l)"
    using Listen_result [OF assms(1)] assms(2) by auto
  from mux_handle_offer [of m1 host v l, OF this] show ?thesis by simp
qed



text \<open>
  C32: The same for HTTP: whatever \<open>http.ReadRequest\<close> reads ahead to find the \<open>Host\<close> header, a request for a host
  that is listened on is offered to its listener with every byte still to be read, and a request
  that cannot be parsed is reported as \<open>BadRequest\<close>, which the default handler answers with status 400.
\<close>

theorem http_client_routed:
  assumes "\<And>rd. reads_to (tee_read stream_read) rd (snd (read_request (tee_read stream_read) rd))"
    and "mux_Listen m name = (Inr l, m1)"
  shows "(\<exists>c. http_muxFn read_request conn = VConn (HttpConn c)
        \<and> shared_content stream_content (hshared c) = stream_content conn
        \<and> (normalize (http_Host c) = normalize name \<longrightarrow>
            sending (mux_handle entry_Host m1 (RawConn conn) None (http_muxFn read_request conn) d2)
              = sending m1 @ [(l, HttpConn c, RawConn conn)]))
    \<or> (\<exists>e. muxErrors (mux_handle entry_Host m1 (RawConn conn) None (http_muxFn read_request conn) None)
          = muxErrors m1 @ [(Some (RawConn conn), BadRequest e)]
        \<and> HandleError (Some (RawConn conn)) (BadRequest e)
          = Some [WriteTo (RawConn conn) badRequest, CloseConn (RawConn conn)])"
proof -
  obtain x rd where rr: "read_request (tee_read stream_read) (newShared conn) = (x, rd)"
    by (cases "read_request (tee_read stream_read) (newShared conn)")
  have "reads_to (tee_read stream_read) (newShared conn) rd"
    using assms(1) [of "newShared conn"] rr by simp
  then have u: "shared_content stream_content (shared_after rd) = stream_content conn"
    using stream.tee_reads_shared by (simp add: newShared_def shared_after_def shared_content_def)
  show ?thesis
  proof (cases x)
    case (Inl e)
    then show ?thesis
      by (intro disjI2 exI [of _ "Errorf (''Failed to extract vhost name: '' @ error_text e)"])
        (simp add: http_muxFn_def HTTP_def rr mux_handle_def handle_body_def unset_deadline_def
          sendError_def HandleError_def)
  next
    case (Inr host)
    then show ?thesis
      using u listened_offer [OF assms(2), of entry_Host]
      by (intro disjI1 exI [of _ "\<lparr>hshared = shared_after rd, Request = Some host\<rparr>"])
        (simp add: http_muxFn_def HTTP_def rr entry_Host_def)
  qed
qed

theorem http_client_routed_witness:
  "\<exists>m1 c. mux_Listen NewVhostMuxer ''WWW'' = (Inr 0, m1)
     \<and> sending (mux_handle entry_Host m1 (RawConn \<lparr>chunks = [[65, 66, 67], [68, 69]], final = EOF\<rparr>) None
          (http_muxFn sample_read_request \<lparr>chunks = [[65, 66, 67], [68, 69]], final = EOF\<rparr>) None)
       = [(0, HttpConn c, RawConn \<lparr>chunks = [[65, 66, 67], [68, 69]], final = EOF\<rparr>)]"
proof -
  let ?s = "\<lparr>chunks = [[65, 66, 67], [68, 69]], final = EOF\<rparr>"
  have p: "reads_to (tee_read stream_read) rd (snd (sample_read_request (tee_read stream_read) rd))" for rd
    by (auto simp: sample_read_request_def split: prod.splits
        elim!: reads_to.more [OF _ reads_to_one])
  obtain m1 :: "entry mux" where l: "mux_Listen NewVhostMuxer ''WWW'' = (Inr 0, m1)" "sending m1 = []"
    by (simp add: mux_Listen_def mux_set_def NewVhostMuxer_def Let_def)
  obtain c where c: "http_muxFn sample_read_request ?s = VConn (HttpConn c)" "http_Host c = ''www''"
    by (simp add: http_muxFn_def HTTP_def sample_read_request_def newShared_def tee_read_def stream_read_def
        http_Host_def)
  have "normalize ''www'' = normalize ''WWW''" by code_simp
  moreover have "muxErrors (mux_handle entry_Host m1 (RawConn ?s) None (http_muxFn sample_read_request ?s) None)
      \<noteq> muxErrors m1 @ [(Some (RawConn ?s), BadRequest e)]" for e
    using c(1) by (auto simp: mux_handle_def handle_body_def recover_def sendError_def Let_def
        split: option.splits)
  ultimately have "\<exists>c. sending (mux_handle entry_Host m1 (RawConn ?s) None (http_muxFn sample_read_request ?s) None)
      = [(0, HttpConn c, RawConn ?s)]"
    using http_client_routed [of sample_read_request, OF p l(1), of ?s None] l(2) c by auto
  with l(1) show ?thesis by blast
qed

end
